(* ===== verification/Wire_Prelude.thy ===== *)
theory Wire_Prelude
  imports Main "HOL-Library.Word" "HOL-Library.AList" "HOL-Library.Sublist"
begin

text \<open>
  Shared vocabulary of the development: the machine integers and result type of
  the Rust sources, Rust's two arithmetic disciplines (checked in a debug build,
  wrapping in a release build), big-endian words, and the list lemmas that the
  component theories use. The collections \<open>wire_defs\<close>, \<open>codec_simps\<close> and
  \<open>stats_simps\<close> gather the rewrite rules the component proofs share.
\<close>

unbundle bit_operations_syntax

named_theorems wire_defs "definitions unfolded together when a handler is run"
named_theorems codec_simps "byte-level encoding and decoding rules"
named_theorems stats_simps "effect of each operation on the endpoint counters"

section \<open>Machine types and results\<close>

type_synonym u8 = "8 word"
type_synonym u16 = "16 word"
type_synonym i32 = "32 word"
type_synonym u64 = "64 word"
type_synonym bytes = "u8 list"
type_synonym ('e, 'a) result = "'e + 'a"

abbreviation Ok :: "'a \<Rightarrow> ('e, 'a) result" where "Ok \<equiv> Inr"
abbreviation Err :: "'e \<Rightarrow> ('e, 'a) result" where "Err \<equiv> Inl"

text \<open>
  \<open>std::io::ErrorKind\<close>, as far as the sources name a kind; every other kind is
  carried as an opaque code.
\<close>

datatype io_error = UnexpectedEof | InvalidData | InvalidInput | OtherIo nat

section \<open>Arithmetic\<close>

text \<open>
  The operator \<open>+\<close> on a Rust integer panics on overflow in a build with overflow
  checks (the debug and test profiles) and wraps otherwise (the release and dist
  profiles). \<open>None\<close> is the panic.
\<close>

definition add_chk :: "bool \<Rightarrow> 'a::len word \<Rightarrow> 'a word \<Rightarrow> 'a word option" where
  "add_chk overflow_checks a b =
     (if overflow_checks \<and> 2 ^ LENGTH('a) \<le> unat a + unat b then None else Some (a + b))"

lemma add_chk_exact:
  fixes a b :: "'a::len word"
  assumes "unat a + unat b < 2 ^ LENGTH('a)"
  shows "add_chk c a b = Some (a + b)" and "unat (a + b) = unat a + unat b"
  using assms by (simp_all add: add_chk_def unat_add_lem [symmetric])

lemma unat_add_exact: "unat (a + b) = unat a + unat b"
  if "unat a + unat b < 2 ^ LENGTH('a)" for a b :: "'a::len word"
  using that by (simp add: unat_add_lem [symmetric])

text \<open>Adding one \<open>n\<close> times is adding \<open>n\<close>, wrap-around included.\<close>

lemma funpow_add_one: "((\<lambda>x :: 'a::len word. x + 1) ^^ n) a = a + of_nat n"
  by (induction n) (simp_all add: algebra_simps)

section \<open>Big-endian words\<close>

text \<open>\<open>u16::to_be_bytes\<close> and \<open>u16::from_be_bytes\<close>.\<close>

definition to_be_bytes :: "u16 \<Rightarrow> bytes" where
  "to_be_bytes w = [ucast (drop_bit 8 w), ucast w]"

definition from_be_bytes :: "u8 \<Rightarrow> u8 \<Rightarrow> u16" where
  "from_be_bytes hi lo = push_bit 8 (ucast hi) OR ucast lo"

lemma from_to_be_bytes [codec_simps]:
  "from_be_bytes (ucast (drop_bit 8 w)) (ucast w) = w"
  by (rule bit_word_eqI)
     (auto simp: from_be_bytes_def bit_simps not_less)

lemma to_from_be_bytes [codec_simps]: "to_be_bytes (from_be_bytes hi lo) = [hi, lo]"
proof -
  have "ucast (drop_bit 8 (push_bit 8 (ucast hi) OR ucast lo :: u16)) = hi"
    by (rule bit_word_eqI) (auto simp: bit_simps dest: bit_imp_le_length)
  moreover have "ucast (push_bit 8 (ucast hi) OR ucast lo :: u16) = lo"
    by (rule bit_word_eqI) (auto simp: bit_simps)
  ultimately show ?thesis by (simp add: to_be_bytes_def from_be_bytes_def)
qed

lemma be_bytes_nth [codec_simps]: "from_be_bytes (to_be_bytes w ! 0) (to_be_bytes w ! Suc 0) = w"
  by (simp add: to_be_bytes_def from_to_be_bytes)

lemma length_to_be_bytes [simp]: "length (to_be_bytes w) = 2"
  by (simp add: to_be_bytes_def)

section \<open>Fixed-length lists\<close>

text \<open>A Rust array \<open>[u8; N]\<close> is a list of known length; these rules open it.\<close>

lemma length_1_conv: "length xs = Suc 0 \<longleftrightarrow> (\<exists>a. xs = [a])"
  by (cases xs) auto

lemma length_2_conv: "length xs = 2 \<longleftrightarrow> (\<exists>a b. xs = [a, b])"
  by (auto simp: eval_nat_numeral length_Suc_conv)

lemma length_4_conv: "length xs = 4 \<longleftrightarrow> (\<exists>a b c d. xs = [a, b, c, d])"
  by (auto simp: eval_nat_numeral length_Suc_conv)

lemma drop_drop_add: "drop i (drop j xs) = drop (j + i) xs"
  by (simp add: add.commute)

lemma head_4: "4 \<le> length xs \<Longrightarrow> xs = [xs ! 0, xs ! 1, xs ! 2, xs ! 3] @ drop 4 xs"
proof -
  assume "4 \<le> length xs"
  then have "length (take 4 xs) = 4" by simp
  then obtain a b c d where "take 4 xs = [a, b, c, d]" unfolding length_4_conv by blast
  then have "xs = a # b # c # d # drop 4 xs" by (metis append_take_drop_id append_Cons append_Nil)
  then obtain ys where "xs = a # b # c # d # ys" by blast
  then show ?thesis by simp
qed

lemma drop_length_append: "n = length xs \<Longrightarrow> drop n (xs @ ys) = ys"
  by simp

lemma take_drop_join [simp]: "take n (drop i xs) @ drop (i + n) xs = drop i xs"
  by (metis append_take_drop_id drop_drop add.commute)

lemma map_le_SomeD: "m \<subseteq>\<^sub>m m' \<Longrightarrow> m k = Some v \<Longrightarrow> m' k = Some v"
  by (metis domI map_le_def)

section \<open>Association lists as hash maps\<close>

text \<open>
  A Rust \<open>HashMap\<close> is an association list with distinct keys, whose order stands
  for the map's (unspecified) iteration order. The contract that its clients use
  is the locale \<open>hash_map\<close>.
\<close>

locale hash_map =
  fixes get :: "'m \<Rightarrow> 'k \<Rightarrow> 'v option"
    and insert_entry :: "'k \<Rightarrow> 'v \<Rightarrow> 'm \<Rightarrow> 'm"
    and remove_entry :: "'k \<Rightarrow> 'm \<Rightarrow> 'm"
    and entries :: "'m \<Rightarrow> ('k \<times> 'v) list"
    and invar :: "'m \<Rightarrow> bool"
  assumes get_insert: "invar m \<Longrightarrow> get (insert_entry k v m) = (get m)(k \<mapsto> v)"
    and get_remove: "invar m \<Longrightarrow> get (remove_entry k m) = (get m)(k := None)"
    and get_entries: "invar m \<Longrightarrow> get m = map_of (entries m)"
    and invar_insert: "invar m \<Longrightarrow> invar (insert_entry k v m)"
    and invar_remove: "invar m \<Longrightarrow> invar (remove_entry k m)"
    and invar_distinct: "invar m \<Longrightarrow> distinct (map fst (entries m))"
begin

lemma get_insert_same: "invar m \<Longrightarrow> get (insert_entry k v m) k = Some v"
  by (simp add: get_insert)

lemma get_insert_other: "invar m \<Longrightarrow> k' \<noteq> k \<Longrightarrow> get (insert_entry k v m) k' = get m k'"
  by (simp add: get_insert)

lemma entries_get: "invar m \<Longrightarrow> (k, v) \<in> set (entries m) \<longleftrightarrow> get m k = Some v"
  by (simp add: get_entries invar_distinct map_of_eq_Some_iff)

lemma keys_get: "invar m \<Longrightarrow> k \<in> fst ` set (entries m) \<longleftrightarrow> get m k \<noteq> None"
  by (simp add: get_entries map_of_eq_None_iff)

text \<open>A cache that is filled on a miss answers the same from then on.\<close>

lemma cache_fill_stable:
  assumes "invar m" and "get m k = None"
  shows "get (insert_entry k v m) k = Some v"
    and "\<And>k' v'. get m k' = Some v' \<Longrightarrow> get (insert_entry k v m) k' = Some v'"
  using assms by (auto simp: get_insert)

end

abbreviation keys_distinct :: "('k \<times> 'v) list \<Rightarrow> bool" where
  "keys_distinct m \<equiv> distinct (map fst m)"

interpretation hm: hash_map map_of AList.update AList.delete "\<lambda>m. m" keys_distinct
  by unfold_locales
     (simp_all add: update_conv' delete_conv' distinct_update distinct_delete)

end
