(* ===== verification/Rust_Str.thy ===== *)
theory Rust_Str
  imports Wire_Prelude "HOL-Library.Char_ord" "HOL-Library.List_Lexorder"
begin

text \<open>
  The operations of Rust's \<open>str\<close> and \<open>String\<close> that the sources call. A Rust
  string is the list of its UTF-8 bytes, one \<open>char\<close> per byte, so byte-wise
  comparison (\<open>Ord for str\<close>) is the lexicographic order of the list, and
  \<open>chars()\<close> counts the bytes that are not continuation bytes.
\<close>

section \<open>ASCII case\<close>

definition byte_char :: "u8 \<Rightarrow> char" where
  "byte_char b = char_of (unat b)"

definition char_byte :: "char \<Rightarrow> u8" where
  "char_byte c = of_nat (of_char c)"

lemma char_byte_char [simp]: "char_byte (byte_char b) = b"
  using unsigned_less [of b, where 'a = nat]
  by (simp add: char_byte_def byte_char_def)

lemma byte_char_byte [simp]: "byte_char (char_byte c) = c"
proof -
  have "(of_char c :: nat) < 256" by (rule nat_of_char_less_256)
  then show ?thesis by (simp add: char_byte_def byte_char_def unat_of_nat)
qed

abbreviation str_bytes :: "string \<Rightarrow> bytes" where
  "str_bytes \<equiv> map char_byte"

definition ascii_lower :: "char \<Rightarrow> char" where
  "ascii_lower c =
     (if 65 \<le> (of_char c :: nat) \<and> (of_char c :: nat) \<le> 90 then char_of ((of_char c :: nat) + 32) else c)"

definition to_ascii_lowercase :: "string \<Rightarrow> string" where
  "to_ascii_lowercase = map ascii_lower"

definition eq_ignore_ascii_case :: "string \<Rightarrow> string \<Rightarrow> bool" where
  "eq_ignore_ascii_case s t \<longleftrightarrow> to_ascii_lowercase s = to_ascii_lowercase t"

lemma of_char_ascii_lower:
  "(of_char (ascii_lower c) :: nat) =
     (if 65 \<le> (of_char c :: nat) \<and> (of_char c :: nat) \<le> 90 then of_char c + 32 else of_char c)"
  by (simp add: ascii_lower_def)

lemma ascii_lower_idem [simp]: "ascii_lower (ascii_lower c) = ascii_lower c"
  unfolding ascii_lower_def by simp

lemma ascii_lower_eq_dot [simp]: "ascii_lower c = CHR ''.'' \<longleftrightarrow> c = CHR ''.''"
proof -
  have "(of_char (ascii_lower c) :: nat) = of_char (CHR ''.'') \<longleftrightarrow> (of_char c :: nat) = of_char (CHR ''.'')"
    unfolding of_char_ascii_lower by (auto simp del: of_char_eq_iff)
  then show ?thesis by (simp only: of_char_eq_iff)
qed

lemma lowercase_simps [simp]:
  "to_ascii_lowercase [] = []"
  "to_ascii_lowercase (c # s) = ascii_lower c # to_ascii_lowercase s"
  "to_ascii_lowercase (s @ t) = to_ascii_lowercase s @ to_ascii_lowercase t"
  "to_ascii_lowercase (rev s) = rev (to_ascii_lowercase s)"
  "to_ascii_lowercase (to_ascii_lowercase s) = to_ascii_lowercase s"
  "length (to_ascii_lowercase s) = length s"
  "to_ascii_lowercase s = [] \<longleftrightarrow> s = []"
  by (simp_all add: to_ascii_lowercase_def rev_map)

section \<open>Trimming, prefixes and splitting\<close>

definition trim_end_matches :: "char \<Rightarrow> string \<Rightarrow> string" where
  "trim_end_matches c s = rev (dropWhile (\<lambda>x. x = c) (rev s))"

definition trim_matches :: "char \<Rightarrow> string \<Rightarrow> string" where
  "trim_matches c s = trim_end_matches c (dropWhile (\<lambda>x. x = c) s)"

text \<open>\<open>trim_start_matches\<close> with a string pattern strips it as often as it occurs.\<close>

function trim_start_pat :: "string \<Rightarrow> string \<Rightarrow> string" where
  "trim_start_pat p s = (if p \<noteq> [] \<and> prefix p s then trim_start_pat p (drop (length p) s) else s)"
  by pat_completeness auto
termination
  by (relation "measure (\<lambda>(p, s). length s)") (auto simp: prefix_def)

declare trim_start_pat.simps [simp del]

definition ends_with :: "string \<Rightarrow> string \<Rightarrow> bool" where
  "ends_with s t \<longleftrightarrow> suffix t s"

definition strip_prefix :: "char \<Rightarrow> string \<Rightarrow> string option" where
  "strip_prefix c s = (case s of [] \<Rightarrow> None | x # xs \<Rightarrow> if x = c then Some xs else None)"

fun split_once :: "char \<Rightarrow> string \<Rightarrow> (string \<times> string) option" where
  "split_once c [] = None"
| "split_once c (x # xs) =
     (if x = c then Some ([], xs) else map_option (\<lambda>(a, b). (x # a, b)) (split_once c xs))"

definition rsplit_once :: "char \<Rightarrow> string \<Rightarrow> (string \<times> string) option" where
  "rsplit_once c s = map_option (\<lambda>(a, b). (rev b, rev a)) (split_once c (rev s))"

text \<open>\<open>str::split(c)\<close>: the pieces between the separators, at least one.\<close>

fun split_on :: "char \<Rightarrow> string \<Rightarrow> string list" where
  "split_on c [] = [[]]"
| "split_on c (x # xs) =
     (if x = c then [] # split_on c xs
      else case split_on c xs of [] \<Rightarrow> [[x]] | p # ps \<Rightarrow> (x # p) # ps)"

fun join :: "string \<Rightarrow> string list \<Rightarrow> string" where
  "join sep [] = []"
| "join sep [s] = s"
| "join sep (s # ss) = s @ sep @ join sep ss"

lemma trim_end_matches_idem [simp]:
  "trim_end_matches c (trim_end_matches c s) = trim_end_matches c s"
  by (simp add: trim_end_matches_def)

lemma trim_end_matches_snoc [simp]: "trim_end_matches c (s @ [c]) = trim_end_matches c s"
  by (simp add: trim_end_matches_def)

lemma trim_end_matches_id: "s = [] \<or> last s \<noteq> c \<Longrightarrow> trim_end_matches c s = s"
  by (cases s rule: rev_cases) (auto simp: trim_end_matches_def)

lemma trim_end_matches_prefix: "prefix (trim_end_matches c s) s"
proof -
  have "suffix (dropWhile (\<lambda>x. x = c) (rev s)) (rev s)" by (rule suffix_dropWhile)
  then show ?thesis by (simp add: trim_end_matches_def suffix_to_prefix)
qed

lemma trim_end_last: "trim_end_matches c s \<noteq> [] \<Longrightarrow> last (trim_end_matches c s) \<noteq> c"
proof -
  assume "trim_end_matches c s \<noteq> []"
  then have "dropWhile (\<lambda>x. x = c) (rev s) \<noteq> []" by (simp add: trim_end_matches_def)
  then have "hd (dropWhile (\<lambda>x. x = c) (rev s)) \<noteq> c" by (rule hd_dropWhile)
  then show ?thesis by (simp add: trim_end_matches_def last_rev)
qed

lemma dropWhile_dot_lower:
  "dropWhile (\<lambda>x. x = CHR ''.'') (to_ascii_lowercase s)
     = to_ascii_lowercase (dropWhile (\<lambda>x. x = CHR ''.'') s)"
  by (induction s) auto

lemma trim_end_dot_lower:
  "trim_end_matches (CHR ''.'') (to_ascii_lowercase s)
     = to_ascii_lowercase (trim_end_matches (CHR ''.'') s)"
  using dropWhile_dot_lower [of "rev s"] by (simp add: trim_end_matches_def)

lemma split_once_Some:
  "split_once c s = Some (a, b) \<longleftrightarrow> s = a @ c # b \<and> c \<notin> set a"
proof (induction s arbitrary: a)
  case (Cons x s)
  show ?case by (cases a) (auto simp: Cons.IH)
qed simp

lemma split_once_None: "split_once c s = None \<longleftrightarrow> c \<notin> set s"
  by (induction s) auto

lemma rsplit_once_Some:
  "rsplit_once c s = Some (a, b) \<longleftrightarrow> s = a @ c # b \<and> c \<notin> set b"
proof -
  have "rsplit_once c s = Some (a, b) \<longleftrightarrow> split_once c (rev s) = Some (rev b, rev a)"
    by (auto simp: rsplit_once_def)
  also have "\<dots> \<longleftrightarrow> s = a @ c # b \<and> c \<notin> set b"
    by (simp add: split_once_Some rev_swap)
  finally show ?thesis .
qed

lemma rsplit_once_None: "rsplit_once c s = None \<longleftrightarrow> c \<notin> set s"
  by (simp add: rsplit_once_def split_once_None)

lemma split_on_ne [simp]: "split_on c s \<noteq> []"
  by (induction s) (auto split: list.splits)

lemma split_on_first: "c \<notin> set a \<Longrightarrow> split_on c (a @ c # b) = a # split_on c b"
  by (induction a) auto

lemma split_on_single: "c \<notin> set a \<Longrightarrow> split_on c a = [a]"
  by (induction a) auto

section \<open>UTF-8\<close>

definition is_cont :: "u8 \<Rightarrow> bool" where
  "is_cont b \<longleftrightarrow> b AND 192 = 128"

text \<open>The byte at an index, 0 past the end, as the validator of the standard library reads it.\<close>

definition byte_at :: "bytes \<Rightarrow> nat \<Rightarrow> u8" where
  "byte_at bs i = (if i < length bs then bs ! i else 0)"

text \<open>
  One step of the decoder: for a lead byte and the bytes after it, whether they
  start with a well-formed sequence, and how many of the following bytes belong to
  it (to the sequence, or to the maximal ill-formed part of it).
\<close>

definition second_ok :: "u8 \<Rightarrow> u8 \<Rightarrow> bool" where
  "second_ok b c \<longleftrightarrow>
     (if b = 0xE0 then 0xA0 \<le> c \<and> c \<le> 0xBF
      else if b = 0xED then 0x80 \<le> c \<and> c \<le> 0x9F
      else if b = 0xF0 then 0x90 \<le> c \<and> c \<le> 0xBF
      else if b = 0xF4 then 0x80 \<le> c \<and> c \<le> 0x8F
      else 0x80 \<le> c \<and> c \<le> 0xBF)"

definition utf8_step :: "u8 \<Rightarrow> bytes \<Rightarrow> bool \<times> nat" where
  "utf8_step b bs =
     (if b < 0x80 then (True, 0)
      else if 0xC2 \<le> b \<and> b \<le> 0xDF then
        (if is_cont (byte_at bs 0) then (True, 1) else (False, 0))
      else if 0xE0 \<le> b \<and> b \<le> 0xEF then
        (if \<not> second_ok b (byte_at bs 0) then (False, 0)
         else if is_cont (byte_at bs 1) then (True, 2) else (False, 1))
      else if 0xF0 \<le> b \<and> b \<le> 0xF4 then
        (if \<not> second_ok b (byte_at bs 0) then (False, 0)
         else if \<not> is_cont (byte_at bs 1) then (False, 1)
         else if is_cont (byte_at bs 2) then (True, 3) else (False, 2))
      else (False, 0))"

text \<open>\<open>String::from_utf8_lossy\<close>: every ill-formed part becomes U+FFFD.\<close>

definition replacement :: string where
  "replacement = map byte_char [0xEF, 0xBF, 0xBD]"

fun from_utf8_lossy :: "bytes \<Rightarrow> string" where
  "from_utf8_lossy [] = []"
| "from_utf8_lossy (b # bs) =
     (if fst (utf8_step b bs) then map byte_char (b # take (snd (utf8_step b bs)) bs) else replacement)
       @ from_utf8_lossy (drop (snd (utf8_step b bs)) bs)"

text \<open>\<open>std::str::from_utf8\<close>.\<close>

fun utf8_valid :: "bytes \<Rightarrow> bool" where
  "utf8_valid [] = True"
| "utf8_valid (b # bs) = (fst (utf8_step b bs) \<and> utf8_valid (drop (snd (utf8_step b bs)) bs))"

definition from_utf8 :: "bytes \<Rightarrow> string option" where
  "from_utf8 bs = (if utf8_valid bs then Some (map byte_char bs) else None)"

lemma from_utf8_lossy_valid: "utf8_valid bs \<Longrightarrow> from_utf8_lossy bs = map byte_char bs"
proof (induction bs rule: utf8_valid.induct)
  case (2 b bs)
  then show ?case
    by (simp add: map_append [symmetric] del: map_append)
qed simp

lemma utf8_valid_ascii: "\<forall>b \<in> set bs. b < 0x80 \<Longrightarrow> utf8_valid bs"
  by (induction bs) (simp_all add: utf8_step_def)

lemma utf8_step_cont_consumed:
  assumes "utf8_step b bs = (True, n)"
  shows "n \<le> length bs"
proof -
  have 0: "\<not> is_cont 0" and "\<not> second_ok b 0" by (simp_all add: is_cont_def second_ok_def)
  then show ?thesis
    using assms by (auto simp: utf8_step_def byte_at_def Suc_le_eq split: if_splits)
qed

text \<open>\<open>chars().count()\<close> and \<open>chars().take(n).collect()\<close> on UTF-8 bytes.\<close>

definition chars_count :: "string \<Rightarrow> nat" where
  "chars_count s = length (filter (\<lambda>c. \<not> is_cont (char_byte c)) s)"

fun chars_take :: "nat \<Rightarrow> string \<Rightarrow> string" where
  "chars_take n [] = []"
| "chars_take n (c # s) =
     (if is_cont (char_byte c) then c # chars_take n s
      else case n of 0 \<Rightarrow> [] | Suc m \<Rightarrow> c # chars_take m s)"

lemma chars_count_simps [simp]:
  "chars_count [] = 0"
  "chars_count (c # s) = (if is_cont (char_byte c) then 0 else 1) + chars_count s"
  "chars_count (s @ t) = chars_count s + chars_count t"
  "chars_count (rev s) = chars_count s"
  by (simp_all add: chars_count_def rev_filter [symmetric])

lemma chars_count_take: "chars_count (chars_take n s) = min n (chars_count s)"
  by (induction n s rule: chars_take.induct) (auto split: nat.splits)

lemma chars_take_prefix: "prefix (chars_take n s) s"
  by (induction n s rule: chars_take.induct) (auto split: nat.splits)

lemma ascii_not_cont: "(of_char c :: nat) < 128 \<Longrightarrow> \<not> is_cont (char_byte c)"
proof -
  assume "(of_char c :: nat) < 128"
  then have "unat (char_byte c) < 128" by (simp add: char_byte_def unat_of_nat)
  then have "\<not> bit (unat (char_byte c)) 7" by (simp add: bit_iff_odd)
  then have "\<not> bit (char_byte c) 7" by (simp add: bit_unsigned_iff)
  then have "(char_byte c AND 192) \<noteq> 128"
    by (auto simp: bit_simps dest!: arg_cong [where f = "\<lambda>w. bit w 7"])
  then show ?thesis by (simp add: is_cont_def)
qed

lemma chars_count_ascii: "\<forall>c \<in> set s. (of_char c :: nat) < 128 \<Longrightarrow> chars_count s = length s"
  by (induction s) (simp_all add: ascii_not_cont)

section \<open>Numbers\<close>

text \<open>\<open>Display\<close> of an unsigned integer, and of one digit in base up to 16 (\<open>{:x}\<close>).\<close>

definition digit_char :: "nat \<Rightarrow> char" where
  "digit_char d = (if d < 10 then char_of (48 + d) else char_of (87 + d))"

fun show_base :: "nat \<Rightarrow> nat \<Rightarrow> string" where
  "show_base b n =
     (if b < 2 \<or> n < b then [digit_char n] else show_base b (n div b) @ [digit_char (n mod b)])"

declare show_base.simps [simp del]

abbreviation show_nat :: "nat \<Rightarrow> string" where "show_nat \<equiv> show_base 10"
abbreviation show_hex :: "nat \<Rightarrow> string" where "show_hex \<equiv> show_base 16"

text \<open>\<open>char::to_digit(radix)\<close>.\<close>

definition to_digit :: "nat \<Rightarrow> char \<Rightarrow> nat option" where
  "to_digit radix c =
     (let n = of_char c :: nat;
          d = (if 48 \<le> n \<and> n \<le> 57 then n - 48
               else if 97 \<le> n \<and> n \<le> 122 then n - 87
               else if 65 \<le> n \<and> n \<le> 90 then n - 55 else radix)
      in if d < radix then Some d else None)"

text \<open>
  \<open>str::parse\<close> for an unsigned integer type with the given number of values: an
  optional plus sign, then at least one decimal digit; \<open>None\<close> for every
  \<open>ParseIntError\<close>.
\<close>

fun parse_digits :: "nat \<Rightarrow> nat \<Rightarrow> string \<Rightarrow> nat option" where
  "parse_digits limit acc [] = Some acc"
| "parse_digits limit acc (c # cs) =
     (case to_digit 10 c of
        None \<Rightarrow> None
      | Some d \<Rightarrow> if acc * 10 + d < limit then parse_digits limit (acc * 10 + d) cs else None)"

definition parse_uint :: "nat \<Rightarrow> string \<Rightarrow> nat option" where
  "parse_uint limit s =
     (let digits = (case s of [] \<Rightarrow> [] | c # cs \<Rightarrow> if c = CHR ''+'' then cs else s)
      in if digits = [] then None else parse_digits limit 0 digits)"

definition parse_u16 :: "string \<Rightarrow> u16 option" where
  "parse_u16 s = map_option of_nat (parse_uint (2 ^ 16) s)"

lemma of_char_digit: "d < 10 \<Longrightarrow> (of_char (digit_char d) :: nat) = 48 + d"
  by (simp add: digit_char_def)

lemma of_char_hex_digit: "10 \<le> d \<Longrightarrow> d < 16 \<Longrightarrow> (of_char (digit_char d) :: nat) = 87 + d"
  by (simp add: digit_char_def)

lemma to_digit_digit_char: "d < radix \<Longrightarrow> radix \<le> 16 \<Longrightarrow> to_digit radix (digit_char d) = Some d"
  by (cases "d < 10") (simp_all add: to_digit_def of_char_digit of_char_hex_digit)

lemma show_base_single: "n < b \<Longrightarrow> show_base b n = [digit_char n]"
  by (subst show_base.simps) simp

lemma show_base_step:
  "2 \<le> b \<Longrightarrow> b \<le> n \<Longrightarrow> show_base b n = show_base b (n div b) @ [digit_char (n mod b)]"
  by (subst show_base.simps) simp

lemma show_base_ne [simp]: "show_base b n \<noteq> []"
  by (subst show_base.simps) simp

lemma show_base_ascii: "b \<le> 16 \<Longrightarrow> 2 \<le> b \<Longrightarrow>
    \<forall>c \<in> set (show_base b n). 48 \<le> (of_char c :: nat) \<and> (of_char c :: nat) < 128"
proof (induction b n rule: show_base.induct)
  case (1 b n)
  have *: "48 \<le> (of_char (digit_char d) :: nat) \<and> (of_char (digit_char d) :: nat) < 128"
    if "d < b" for d
    using that 1(2) by (cases "d < 10") (simp_all add: of_char_digit of_char_hex_digit)
  show ?case
  proof (cases "n < b")
    case True
    then show ?thesis using * by (subst show_base.simps) simp
  next
    case False
    with 1 * [of "n mod b"] show ?thesis by (subst show_base.simps) (auto simp: not_less)
  qed
qed

lemma parse_digits_append:
  "parse_digits L acc (s @ t) = Option.bind (parse_digits L acc s) (\<lambda>a. parse_digits L a t)"
  by (induction s arbitrary: acc) (auto split: option.splits)

lemma parse_digits_show: "n < L \<Longrightarrow> parse_digits L 0 (show_nat n) = Some n"
proof (induction "10::nat" n rule: show_base.induct)
  case (1 n)
  show ?case
  proof (cases "n < 10")
    case True
    with 1(2) show ?thesis by (subst show_base.simps) (simp add: to_digit_digit_char)
  next
    case False
    then have "parse_digits L 0 (show_nat (n div 10)) = Some (n div 10)"
      using 1 by (simp add: div_le_dividend [THEN le_less_trans])
    with False 1(2) show ?thesis
      by (subst show_base.simps) (simp add: parse_digits_append to_digit_digit_char)
  qed
qed

lemma hd_show_nat_not_plus: "hd (show_nat n) \<noteq> CHR ''+''"
proof -
  have "48 \<le> (of_char (hd (show_nat n)) :: nat)"
    using show_base_ascii [of 10 n] hd_in_set [of "show_nat n"] by simp
  then show ?thesis by auto
qed

lemma parse_uint_show: "n < L \<Longrightarrow> parse_uint L (show_nat n) = Some n"
  using hd_show_nat_not_plus [of n] parse_digits_show [of n L]
  by (cases "show_nat n") (auto simp: parse_uint_def)

lemma parse_u16_show [simp]: "parse_u16 (show_nat (unat p)) = Some p"
  using unsigned_less [of p, where 'a = nat] by (simp add: parse_u16_def parse_uint_show)

lemma show_nat_no_sep: "(of_char c :: nat) < 48 \<or> 58 \<le> (of_char c :: nat) \<Longrightarrow> c \<notin> set (show_nat n)"
proof (induction "10::nat" n rule: show_base.induct)
  case (1 n)
  have *: "c \<noteq> digit_char d" if "d < 10" for d
    using 1(2) of_char_digit [OF that] that by auto
  show ?case
  proof (cases "n < 10")
    case True
    then show ?thesis using * by (subst show_base.simps) simp
  next
    case False
    then show ?thesis using 1 * [of "n mod 10"] by (subst show_base.simps) simp
  qed
qed

end
