(* ===== verification/Rust_Net.thy ===== *)
theory Rust_Net
  imports Rust_Str
begin

text \<open>
  The part of \<open>std::net\<close> that the sources use: addresses, their octets, their
  textual form (\<open>Display\<close>) and its parser (\<open>FromStr for IpAddr\<close>), and socket
  addresses. An \<open>Ipv6Addr\<close> is its eight segments. The flow and scope fields of
  \<open>SocketAddrV6\<close> are never read by the sources and are left out.
\<close>

section \<open>Addresses\<close>

datatype ip_addr =
    V4 u8 u8 u8 u8
  | V6 u16 u16 u16 u16 u16 u16 u16 u16

record socket_addr =
  sa_ip :: ip_addr
  sa_port :: u16

fun segments :: "ip_addr \<Rightarrow> u16 list" where
  "segments (V6 a b c d e f g h) = [a, b, c, d, e, f, g, h]"
| "segments (V4 a b c d) = []"

fun octets :: "ip_addr \<Rightarrow> bytes" where
  "octets (V4 a b c d) = [a, b, c, d]"
| "octets (V6 a b c d e f g h) = concat (map to_be_bytes [a, b, c, d, e, f, g, h])"

text \<open>\<open>Ipv4Addr::from([u8; 4])\<close> and \<open>Ipv6Addr::from([u8; 16])\<close>.\<close>

definition ipv4_from :: "bytes \<Rightarrow> ip_addr" where
  "ipv4_from o4 = V4 (o4 ! 0) (o4 ! 1) (o4 ! 2) (o4 ! 3)"

definition ipv6_from :: "bytes \<Rightarrow> ip_addr" where
  "ipv6_from o16 =
     V6 (from_be_bytes (o16 ! 0) (o16 ! 1)) (from_be_bytes (o16 ! 2) (o16 ! 3))
        (from_be_bytes (o16 ! 4) (o16 ! 5)) (from_be_bytes (o16 ! 6) (o16 ! 7))
        (from_be_bytes (o16 ! 8) (o16 ! 9)) (from_be_bytes (o16 ! 10) (o16 ! 11))
        (from_be_bytes (o16 ! 12) (o16 ! 13)) (from_be_bytes (o16 ! 14) (o16 ! 15))"

lemma ipv4_from_octets [codec_simps]: "ipv4_from (octets (V4 a b c d)) = V4 a b c d"
  by (simp add: ipv4_from_def)

lemma ipv6_from_octets [codec_simps]:
  "ipv6_from (octets (V6 a b c d e f g h)) = V6 a b c d e f g h"
  by (simp add: ipv6_from_def to_be_bytes_def from_to_be_bytes)

lemma length_octets_V4 [simp]: "length (octets (V4 a b c d)) = 4"
  by simp

lemma length_octets_V6 [simp]: "length (octets (V6 a b c d e f g h)) = 16"
  by simp

section \<open>Display\<close>

definition show_u8 :: "u8 \<Rightarrow> string" where
  "show_u8 b = show_nat (unat b)"

text \<open>The first longest run of zero segments: its start and its length.\<close>

fun zero_span :: "nat \<Rightarrow> nat \<times> nat \<Rightarrow> nat \<times> nat \<Rightarrow> u16 list \<Rightarrow> nat \<times> nat" where
  "zero_span i current longest [] = longest"
| "zero_span i current longest (s # ss) =
     (if s = 0 then
        (let current' = (if snd current = 0 then i else fst current, snd current + 1);
             longest' = (if snd current' > snd longest then current' else longest)
         in zero_span (i + 1) current' longest' ss)
      else zero_span (i + 1) (0, 0) longest ss)"

definition fmt_subslice :: "u16 list \<Rightarrow> string" where
  "fmt_subslice ss = join '':'' (map (\<lambda>s. show_hex (unat s)) ss)"

definition show_v6_segments :: "u16 list \<Rightarrow> string" where
  "show_v6_segments ss =
     (case zero_span 0 (0, 0) (0, 0) ss of (start, len) \<Rightarrow>
        if len > 1 then fmt_subslice (take start ss) @ ''::'' @ fmt_subslice (drop (start + len) ss)
        else fmt_subslice ss)"

fun show_ip :: "ip_addr \<Rightarrow> string" where
  "show_ip (V4 a b c d) = join ''.'' [show_u8 a, show_u8 b, show_u8 c, show_u8 d]"
| "show_ip (V6 a b c d e f g h) =
     (if [a, b, c, d, e] = [0, 0, 0, 0, 0] \<and> f = 0xFFFF then
        ''::ffff:'' @ join ''.'' (map show_u8 (to_be_bytes g @ to_be_bytes h))
      else show_v6_segments [a, b, c, d, e, f, g, h])"

definition show_socket_addr :: "socket_addr \<Rightarrow> string" where
  "show_socket_addr a =
     (case sa_ip a of
        V4 _ _ _ _ \<Rightarrow> show_ip (sa_ip a) @ '':'' @ show_nat (unat (sa_port a))
      | V6 _ _ _ _ _ _ _ _ \<Rightarrow>
          ''['' @ show_ip (sa_ip a) @ '']:'' @ show_nat (unat (sa_port a)))"

section \<open>FromStr\<close>

type_synonym 'a parser = "string \<Rightarrow> ('a \<times> string) option"

fun read_digits :: "nat \<Rightarrow> nat \<Rightarrow> nat \<Rightarrow> nat \<Rightarrow> string \<Rightarrow> (nat \<times> nat \<times> string) option" where
  "read_digits radix max_digits count acc [] = Some (count, acc, [])"
| "read_digits radix max_digits count acc (c # s) =
     (case to_digit radix c of
        None \<Rightarrow> Some (count, acc, c # s)
      | Some d \<Rightarrow>
          if count + 1 > max_digits then None
          else read_digits radix max_digits (count + 1) (acc * radix + d) s)"

definition read_number :: "nat \<Rightarrow> nat \<Rightarrow> bool \<Rightarrow> nat \<Rightarrow> nat parser" where
  "read_number radix max_digits allow_zero_prefix limit s =
     (case read_digits radix max_digits 0 0 s of
        None \<Rightarrow> None
      | Some (count, v, rest) \<Rightarrow>
          if count = 0 then None
          else if \<not> allow_zero_prefix \<and> take 1 s = ''0'' \<and> count > 1 then None
          else if v < limit then Some (v, rest) else None)"

definition read_given_char :: "char \<Rightarrow> string \<Rightarrow> string option" where
  "read_given_char c s = strip_prefix c s"

definition read_separator :: "char \<Rightarrow> nat \<Rightarrow> 'a parser \<Rightarrow> 'a parser" where
  "read_separator sep index inner s =
     (if index > 0 then Option.bind (read_given_char sep s) inner else inner s)"

fun read_octets :: "nat \<Rightarrow> nat \<Rightarrow> nat list parser" where
  "read_octets i 0 s = Some ([], s)"
| "read_octets i (Suc k) s =
     (case read_separator (CHR ''.'') i (read_number 10 3 False 256) s of
        None \<Rightarrow> None
      | Some (v, s') \<Rightarrow> map_option (\<lambda>(vs, r). (v # vs, r)) (read_octets (i + 1) k s'))"

definition read_ipv4_addr :: "nat list parser" where
  "read_ipv4_addr = read_octets 0 4"

text \<open>
  \<open>read_groups\<close> for the slots \<open>i, \<dots>, i + k - 1\<close>: the groups read, whether they
  end in an embedded IPv4 address, and the rest of the input.
\<close>

fun read_groups :: "nat \<Rightarrow> nat \<Rightarrow> string \<Rightarrow> nat list \<times> bool \<times> string" where
  "read_groups i 0 s = ([], False, s)"
| "read_groups i (Suc k) s =
     (case (if k \<ge> 1 then read_separator (CHR '':'') i read_ipv4_addr s else None) of
        Some (v4, s') \<Rightarrow> ([v4 ! 0 * 256 + v4 ! 1, v4 ! 2 * 256 + v4 ! 3], True, s')
      | None \<Rightarrow>
          (case read_separator (CHR '':'') i (read_number 16 4 True 65536) s of
             None \<Rightarrow> ([], False, s)
           | Some (g, s') \<Rightarrow>
               (case read_groups (i + 1) k s' of (gs, v4, r) \<Rightarrow> (g # gs, v4, r))))"

definition read_ipv6_addr :: "nat list parser" where
  "read_ipv6_addr s =
     (case read_groups 0 8 s of (head, head_ipv4, r) \<Rightarrow>
        if length head = 8 then Some (head, r)
        else if head_ipv4 then None
        else case Option.bind (read_given_char (CHR '':'') r) (read_given_char (CHR '':'')) of
               None \<Rightarrow> None
             | Some r' \<Rightarrow>
                 (case read_groups 0 (8 - (length head + 1)) r' of (tail, _, r'') \<Rightarrow>
                    Some (head @ replicate (8 - length head - length tail) 0 @ tail, r'')))"

definition ipv4_of_octets :: "nat list \<Rightarrow> ip_addr" where
  "ipv4_of_octets vs =
     V4 (of_nat (vs ! 0)) (of_nat (vs ! 1)) (of_nat (vs ! 2)) (of_nat (vs ! 3))"

definition ipv6_of_groups :: "nat list \<Rightarrow> ip_addr" where
  "ipv6_of_groups gs =
     V6 (of_nat (gs ! 0)) (of_nat (gs ! 1)) (of_nat (gs ! 2)) (of_nat (gs ! 3))
        (of_nat (gs ! 4)) (of_nat (gs ! 5)) (of_nat (gs ! 6)) (of_nat (gs ! 7))"

definition read_ip_addr :: "ip_addr parser" where
  "read_ip_addr s =
     (case read_ipv4_addr s of
        Some (vs, r) \<Rightarrow> Some (ipv4_of_octets vs, r)
      | None \<Rightarrow> map_option (\<lambda>(gs, r). (ipv6_of_groups gs, r)) (read_ipv6_addr s))"

text \<open>\<open>host.parse::<IpAddr>().ok()\<close>: the whole input must be consumed.\<close>

definition parse_ip :: "string \<Rightarrow> ip_addr option" where
  "parse_ip s =
     (case read_ip_addr s of Some (ip, []) \<Rightarrow> Some ip | _ \<Rightarrow> None)"

section \<open>Reading back what was printed\<close>

definition stops :: "nat \<Rightarrow> string \<Rightarrow> bool" where
  "stops radix rest \<longleftrightarrow> rest = [] \<or> to_digit radix (hd rest) = None"

lemma read_digits_show:
  assumes "radix = 10 \<or> radix = 16"
  shows "count + length (show_base radix n) \<le> m \<Longrightarrow>
    read_digits radix m count acc (show_base radix n @ rest) =
      read_digits radix m (count + length (show_base radix n))
        (acc * radix ^ length (show_base radix n) + n) rest"
  using assms
proof (induction radix n arbitrary: rest rule: show_base.induct)
  case (1 b n)
  then have b: "2 \<le> b" "b \<le> 16" by auto
  show ?case
  proof (cases "n < b")
    case True
    then have "show_base b n = [digit_char n]" by (subst show_base.simps) simp
    with 1(2) True b show ?thesis by (simp add: to_digit_digit_char)
  next
    case False
    then have eq: "show_base b n = show_base b (n div b) @ [digit_char (n mod b)]"
      using b by (subst show_base.simps) simp
    have "read_digits b m count acc (show_base b (n div b) @ digit_char (n mod b) # rest) =
      read_digits b m (count + length (show_base b (n div b)))
        (acc * b ^ length (show_base b (n div b)) + n div b) (digit_char (n mod b) # rest)"
      using 1 False b eq by simp
    also have "\<dots> = read_digits b m (count + length (show_base b n))
        (acc * b ^ length (show_base b n) + n) rest"
      using 1(2) b eq by (simp add: to_digit_digit_char algebra_simps)
    finally show ?thesis by (simp add: eq)
  qed
qed

lemma length_show_base: "2 \<le> b \<Longrightarrow> n < b ^ Suc k \<Longrightarrow> length (show_base b n) \<le> Suc k"
proof (induction k arbitrary: n)
  case 0
  then show ?case by (subst show_base.simps) simp
next
  case (Suc k)
  then have "n div b < b ^ Suc k" by (simp add: less_mult_imp_div_less mult.commute)
  with Suc have "length (show_base b (n div b)) \<le> Suc k" by simp
  then show ?case by (subst show_base.simps) simp
qed

lemma show_base_hd_nonzero: "2 \<le> b \<Longrightarrow> b \<le> 16 \<Longrightarrow> 0 < n \<Longrightarrow> hd (show_base b n) \<noteq> CHR ''0''"
proof (induction b n rule: show_base.induct)
  case (1 b n)
  show ?case
  proof (cases "n < b")
    case True
    have "(of_char (digit_char n) :: nat) \<noteq> of_char (CHR ''0'')"
      using True 1(3,4) by (cases "n < 10") (simp_all add: of_char_digit of_char_hex_digit)
    then have "digit_char n \<noteq> CHR ''0''" by metis
    with True show ?thesis by (simp add: show_base_single)
  next
    case False
    then have "0 < n div b" using 1(2) by (simp add: div_greater_zero_iff)
    with 1 False show ?thesis by (simp add: show_base_step)
  qed
qed

lemma show_base_leading_zero:
  "2 \<le> b \<Longrightarrow> b \<le> 16 \<Longrightarrow> hd (show_base b n) = CHR ''0'' \<Longrightarrow> length (show_base b n) = 1"
  using show_base_hd_nonzero [of b n] by (cases "n = 0") (simp_all add: show_base_single)

lemma read_digits_stop: "stops radix rest \<Longrightarrow> read_digits radix m count acc rest = Some (count, acc, rest)"
  by (cases rest) (auto simp: stops_def)

lemma read_number_show:
  assumes radix: "radix = 10 \<or> radix = 16"
    and len: "length (show_base radix n) \<le> m" and lim: "n < limit" and stop: "stops radix rest"
  shows "read_number radix m azp limit (show_base radix n @ rest) = Some (n, rest)"
proof -
  let ?t = "show_base radix n"
  have digits: "read_digits radix m 0 0 (?t @ rest) = Some (length ?t, n, rest)"
    using read_digits_show [OF radix, of 0 n m 0 rest] len stop by (simp add: read_digits_stop)
  have "length ?t = 1" if "take 1 (?t @ rest) = ''0''"
    using that radix show_base_leading_zero [of radix n] by (cases ?t) auto
  then have zero: "(\<not> azp \<and> take 1 (?t @ rest) = ''0'' \<and> length ?t > 1) = False" by auto
  have "(length ?t = 0) = False" by simp
  with zero lim show ?thesis
    by (simp only: read_number_def digits option.case prod.case if_True if_False)
qed

lemma stops_dot: "stops 10 (CHR ''.'' # rest)" and stops_Nil: "stops radix []"
  and stops_colon: "stops 16 (CHR '':'' # rest)"
  by (simp_all add: stops_def to_digit_def)

lemma length_show_u8: "length (show_nat (unat (b :: u8))) \<le> 3"
  using length_show_base [of 10 "unat b" 2] unsigned_less [of b, where 'a = nat] by simp

lemma read_u8_show: "stops 10 rest \<Longrightarrow> read_number 10 3 False 256 (show_u8 b @ rest) = Some (unat b, rest)"
  using unsigned_less [of b, where 'a = nat]
  by (simp add: show_u8_def read_number_show length_show_u8)

lemma read_octets_first:
  "stops 10 rest \<Longrightarrow> read_octets 0 (Suc k) (show_u8 b @ rest)
    = map_option (\<lambda>(vs, r). (unat b # vs, r)) (read_octets 1 k rest)"
  by (simp add: read_separator_def read_u8_show)

lemma read_octets_next:
  "0 < i \<Longrightarrow> stops 10 rest \<Longrightarrow> read_octets i (Suc k) (CHR ''.'' # show_u8 b @ rest)
    = map_option (\<lambda>(vs, r). (unat b # vs, r)) (read_octets (i + 1) k rest)"
  by (simp add: read_separator_def read_given_char_def strip_prefix_def read_u8_show)

lemma read_ipv4_show:
  assumes "stops 10 rest"
  shows "read_ipv4_addr (join ''.'' (map show_u8 [a, b, c, d]) @ rest)
    = Some (map unat [a, b, c, d], rest)"
proof -
  have four: "(4 :: nat) = Suc (Suc (Suc (Suc 0)))" by simp
  show ?thesis
    unfolding read_ipv4_addr_def four
    using assms
    by (simp add: read_octets_first read_octets_next stops_dot del: read_octets.simps(2))
qed

theorem parse_show_ipv4: "parse_ip (show_ip (V4 a b c d)) = Some (V4 a b c d)"
  using read_ipv4_show [OF stops_Nil, of a b c d]
  by (simp add: parse_ip_def read_ip_addr_def ipv4_of_octets_def)

section \<open>IPv6 round trip\<close>

text \<open>The zero run that \<open>Display\<close> elides lies inside the address and is all zeros.\<close>

definition zero_run :: "u16 list \<Rightarrow> nat \<times> nat \<Rightarrow> bool" where
  "zero_run ss span \<longleftrightarrow> fst span + snd span \<le> length ss
     \<and> (\<forall>j. fst span \<le> j \<and> j < fst span + snd span \<longrightarrow> ss ! j = 0)"

lemma zero_span_run:
  assumes "zero_run (done @ ss) longest" and "zero_run (done @ ss) current"
    and "snd current = 0 \<or> fst current + snd current = length done"
    and "i = length done"
  shows "zero_run (done @ ss) (zero_span i current longest ss)"
  using assms
proof (induction ss arbitrary: "done" i current longest)
  case (Cons s ss)
  let ?cur = "(if snd current = 0 then i else fst current, snd current + 1)"
  have IH: "zero_run (done @ s # ss) (zero_span (Suc i) c l ss)"
    if "zero_run (done @ s # ss) l" "zero_run (done @ s # ss) c"
      "snd c = 0 \<or> fst c + snd c = Suc (length done)" for c l
    using Cons.IH [of "done @ [s]" l c "Suc i"] that Cons.prems(4) by simp
  show ?case
  proof (cases "s = 0")
    case True
    have "zero_run (done @ s # ss) ?cur"
      using Cons.prems True by (auto simp: zero_run_def nth_append less_Suc_eq)
    with Cons.prems have "zero_run (done @ s # ss)
        (zero_span (Suc i) ?cur (if snd ?cur > snd longest then ?cur else longest) ss)"
      by (intro IH) auto
    with True show ?thesis by (simp add: Let_def split: if_splits)
  next
    case False
    have "zero_run (done @ s # ss) (zero_span (Suc i) (0, 0) longest ss)"
      using Cons.prems by (intro IH) (simp_all add: zero_run_def)
    with False show ?thesis by simp
  qed
qed simp

lemma zero_span_split:
  assumes "zero_span 0 (0, 0) (0, 0) ss = (start, len)"
  shows "start + len \<le> length ss" and "ss = take start ss @ replicate len 0 @ drop (start + len) ss"
proof -
  have run: "zero_run ss (start, len)"
    using zero_span_run [of "[]" ss "(0, 0)" "(0, 0)" 0] assms by (simp add: zero_run_def)
  then show le: "start + len \<le> length ss" by (simp add: zero_run_def)
  have "take len (drop start ss) = replicate len 0"
    using run le by (intro nth_equalityI) (auto simp: zero_run_def)
  then show "ss = take start ss @ replicate len 0 @ drop (start + len) ss"
    by (metis append_take_drop_id drop_drop add.commute)
qed

text \<open>Text with no dot holds no IPv4 address.\<close>

lemma read_digits_rest:
  "read_digits radix m count acc s = Some (c, v, rest) \<Longrightarrow> set rest \<subseteq> set s"
  by (induction s arbitrary: count acc) (fastforce split: option.splits if_splits)+

lemma read_number_rest: "read_number radix m azp limit s = Some (v, rest) \<Longrightarrow> set rest \<subseteq> set s"
  by (auto simp: read_number_def split: option.splits if_splits dest!: read_digits_rest)

lemma read_octets_no_dot: "0 < i \<Longrightarrow> CHR ''.'' \<notin> set s \<Longrightarrow> read_octets i (Suc k) s = None"
  by (cases s) (auto simp: read_separator_def read_given_char_def strip_prefix_def)

lemma read_ipv4_no_dot: "CHR ''.'' \<notin> set s \<Longrightarrow> read_ipv4_addr s = None"
proof -
  assume no_dot: "CHR ''.'' \<notin> set s"
  have four: "(4 :: nat) = Suc (Suc (Suc (Suc 0)))" by simp
  have "read_octets 1 (Suc (Suc (Suc 0))) r = None" if "set r \<subseteq> set s" for r
    using that no_dot by (intro read_octets_no_dot) auto
  then show ?thesis
    unfolding read_ipv4_addr_def four read_octets.simps(2) [of 0]
    by (auto simp: read_separator_def simp del: read_octets.simps split: option.splits
        dest!: read_number_rest)
qed

lemma read_separator_ipv4_no_dot:
  "CHR ''.'' \<notin> set s \<Longrightarrow> read_separator c i read_ipv4_addr s = None"
  by (cases s) (auto simp: read_separator_def read_given_char_def strip_prefix_def read_ipv4_no_dot)

text \<open>The text of the groups from slot \<open>i\<close> on, each but slot 0 preceded by a colon.\<close>

definition group_tail :: "u16 list \<Rightarrow> string" where
  "group_tail gs = concat (map (\<lambda>g. '':'' @ show_hex (unat g)) gs)"

definition group_text :: "nat \<Rightarrow> u16 list \<Rightarrow> string" where
  "group_text i gs =
     (if i = 0 then (case gs of [] \<Rightarrow> [] | g # gs' \<Rightarrow> show_hex (unat g) @ group_tail gs')
      else group_tail gs)"

lemma fmt_subslice_group_text: "fmt_subslice gs = group_text 0 gs"
  by (induction gs rule: induct_list012) (auto simp: fmt_subslice_def group_text_def group_tail_def)

lemma group_text_Cons:
  "group_text i (g # gs) = (if i = 0 then [] else '':'') @ show_hex (unat g) @ group_text (Suc i) gs"
  by (simp add: group_text_def group_tail_def)

lemma group_text_no_dot: "CHR ''.'' \<notin> set (group_text i gs)"
proof (induction gs arbitrary: i)
  case (Cons g gs)
  have "CHR ''.'' \<notin> set (show_hex (unat g))" using show_base_ascii [of 16 "unat g"] by auto
  with Cons show ?case by (simp add: group_text_Cons)
qed (simp add: group_text_def group_tail_def)

definition group_end :: "string \<Rightarrow> bool" where
  "group_end rest \<longleftrightarrow> rest = [] \<or> (\<exists>r. rest = ''::'' @ r)"

lemma read_group_end: "group_end rest \<Longrightarrow> read_separator (CHR '':'') i (read_number 16 4 True 65536) rest = None"
  by (auto simp: group_end_def read_separator_def read_given_char_def strip_prefix_def
      read_number_def to_digit_def)

lemma group_end_stops: "group_end rest \<Longrightarrow> stops 16 (group_text (Suc i) gs @ rest)"
  by (cases gs) (auto simp: group_end_def stops_colon stops_Nil group_text_Cons group_text_def group_tail_def)

lemma length_show_u16: "length (show_hex (unat (g :: u16))) \<le> 4"
  using length_show_base [of 16 "unat g" 3] unsigned_less [of g, where 'a = nat] by simp

lemma read_group_show:
  assumes "stops 16 rest"
  shows "read_separator (CHR '':'') i (read_number 16 4 True 65536)
      ((if i = 0 then [] else '':'') @ show_hex (unat (g :: u16)) @ rest) = Some (unat g, rest)"
  using assms unsigned_less [of g, where 'a = nat]
  by (simp add: read_separator_def read_given_char_def strip_prefix_def read_number_show length_show_u16)

lemma read_groups_text:
  assumes "length gs \<le> k" and "CHR ''.'' \<notin> set rest" and "group_end rest"
  shows "read_groups i k (group_text i gs @ rest) = (map unat gs, False, rest)"
  using assms
proof (induction gs arbitrary: i k)
  case Nil
  then show ?case
    by (cases k) (simp_all add: group_text_def group_tail_def read_separator_ipv4_no_dot read_group_end)
next
  case (Cons g gs)
  then obtain k' where k: "k = Suc k'" by (cases k) auto
  have "CHR ''.'' \<notin> set (group_text i (g # gs) @ rest)"
    using Cons.prems group_text_no_dot by simp
  then have v4: "read_separator (CHR '':'') i read_ipv4_addr (group_text i (g # gs) @ rest) = None"
    by (rule read_separator_ipv4_no_dot)
  have "read_separator (CHR '':'') i (read_number 16 4 True 65536) (group_text i (g # gs) @ rest)
      = Some (unat g, group_text (Suc i) gs @ rest)"
    using read_group_show [OF group_end_stops [OF Cons.prems(3)]] by (simp add: group_text_Cons)
  with v4 Cons k show ?case by simp
qed

lemma read_ipv6_show_segments:
  assumes "length ss = 8"
  shows "read_ipv6_addr (show_v6_segments ss) = Some (map unat ss, [])"
proof -
  obtain start len where span: "zero_span 0 (0, 0) (0, 0) ss = (start, len)"
    by (cases "zero_span 0 (0, 0) (0, 0) ss")
  note split = zero_span_split [OF span]
  show ?thesis
  proof (cases "len > 1")
    case False
    then have "read_groups 0 8 (show_v6_segments ss) = (map unat ss, False, [])"
      using assms read_groups_text [of ss 8 "[]" 0]
      by (simp add: show_v6_segments_def span fmt_subslice_group_text group_end_def)
    then show ?thesis by (simp add: read_ipv6_addr_def assms)
  next
    case True
    let ?head = "take start ss" and ?tail = "drop (start + len) ss"
    have shown: "show_v6_segments ss = group_text 0 ?head @ ''::'' @ group_text 0 ?tail"
      using True by (simp add: show_v6_segments_def span fmt_subslice_group_text)
    have len_head: "length ?head = start" using split(1) by simp
    have "read_groups 0 8 (show_v6_segments ss) = (map unat ?head, False, ''::'' @ group_text 0 ?tail)"
      using split(1) assms group_text_no_dot [of 0 ?tail]
      by (simp only: shown) (intro read_groups_text, auto simp: group_end_def)
    moreover have "read_groups 0 (8 - (start + 1)) (group_text 0 ?tail) = (map unat ?tail, False, [])"
      using read_groups_text [of ?tail "8 - (start + 1)" "[]" 0] split(1) assms True
      by (simp add: group_end_def)
    moreover have "map unat ?head @ replicate (8 - start - length ?tail) 0 @ map unat ?tail = map unat ss"
    proof -
      have "8 - start - length ?tail = len" using split(1) assms True by simp
      moreover have "map unat ss = map unat (?head @ replicate len 0 @ ?tail)"
        using split(2) by simp
      ultimately show ?thesis by simp
    qed
    ultimately show ?thesis
      using len_head split(1) assms True
      by (simp add: read_ipv6_addr_def read_given_char_def strip_prefix_def)
  qed
qed

text \<open>The IPv4-mapped form is read back through the embedded IPv4 address.\<close>

lemma read_ipv4_fails: "\<forall>c \<in> set (take 1 s). to_digit 10 c = None \<Longrightarrow> read_ipv4_addr s = None"
proof -
  assume "\<forall>c \<in> set (take 1 s). to_digit 10 c = None"
  then have "read_number 10 3 False 256 s = None"
    by (cases s) (simp_all add: read_number_def)
  moreover have "(4 :: nat) = Suc 3" by simp
  ultimately show ?thesis by (simp only: read_ipv4_addr_def read_octets.simps) (simp add: read_separator_def)
qed

lemma from_be_bytes_of_nat: "of_nat (unat hi * 256 + unat lo) = from_be_bytes hi lo"
proof -
  have "from_be_bytes hi lo = push_bit 8 (ucast hi) + ucast lo"
    unfolding from_be_bytes_def
    by (rule disjunctive_add [symmetric]) (auto simp: bit_simps dest: bit_imp_le_length)
  also have "\<dots> = of_nat (unat hi * 256 + unat lo)"
    by (simp add: push_bit_eq_mult)
  finally show ?thesis by simp
qed

lemma read_ipv6_mapped:
  "read_ipv6_addr (''::ffff:'' @ join ''.'' (map show_u8 [a, b, c, d]))
    = Some ([0, 0, 0, 0, 0, 65535, unat a * 256 + unat b, unat c * 256 + unat d], [])"
proof -
  let ?v4 = "join ''.'' (map show_u8 [a, b, c, d])"
  have eight: "(8 :: nat) = Suc 7" and seven: "(7 :: nat) = Suc (Suc 5)" by simp_all
  have head: "read_groups 0 8 (''::ffff:'' @ ?v4) = ([], False, ''::ffff:'' @ ?v4)"
    unfolding eight read_groups.simps
    by (simp add: read_separator_def read_ipv4_fails to_digit_def read_number_def del: join.simps)
  have f: "char_of (102 :: nat) = CHR ''f''" by code_simp
  have ffff: "read_number 16 4 True 65536 (''ffff:'' @ r) = Some (65535, CHR '':'' # r)" for r
    using read_number_show [of 16 65535 4 65536 "CHR '':'' # r" True]
    by (simp add: stops_colon show_base_step show_base_single digit_char_def f)
  have tail: "read_groups 0 7 (''ffff:'' @ ?v4)
      = ([65535, unat a * 256 + unat b, unat c * 256 + unat d], True, [])"
    unfolding seven read_groups.simps
    using read_ipv4_show [OF stops_Nil, of a b c d] ffff [of ?v4]
    by (simp add: read_separator_def read_ipv4_fails to_digit_def read_given_char_def strip_prefix_def
        del: join.simps)
  have "replicate 5 (0 :: nat) = [0, 0, 0, 0, 0]" by (simp add: eval_nat_numeral)
  then show ?thesis
    unfolding read_ipv6_addr_def head
    using tail by (simp add: read_given_char_def strip_prefix_def del: join.simps)
qed

theorem parse_show_ipv6:
  "parse_ip (show_ip (V6 a b c d e f g h)) = Some (V6 a b c d e f g h)"
proof (cases "[a, b, c, d, e] = [0, 0, 0, 0, 0] \<and> f = 0xFFFF")
  case True
  let ?v4 = "map show_u8 (to_be_bytes g @ to_be_bytes h)"
  have "read_ipv4_addr (''::ffff:'' @ join ''.'' ?v4) = None"
    by (rule read_ipv4_fails) (simp add: to_digit_def)
  with True show ?thesis
    using read_ipv6_mapped [of "ucast (drop_bit 8 g)" "ucast g" "ucast (drop_bit 8 h)" "ucast h"]
    by (simp add: parse_ip_def read_ip_addr_def to_be_bytes_def ipv6_of_groups_def
        from_be_bytes_of_nat from_to_be_bytes del: join.simps of_nat_add of_nat_mult)
next
  case False
  let ?ss = "[a, b, c, d, e, f, g, h]"
  have "CHR ''.'' \<notin> set (show_v6_segments ?ss)"
    using group_text_no_dot
    by (auto simp: show_v6_segments_def fmt_subslice_group_text split: prod.splits)
  then have "read_ipv4_addr (show_v6_segments ?ss) = None" by (rule read_ipv4_no_dot)
  moreover have "show_ip (V6 a b c d e f g h) = show_v6_segments ?ss"
    by (simp only: show_ip.simps False if_False)
  ultimately show ?thesis
    using read_ipv6_show_segments [of ?ss]
    by (simp add: parse_ip_def read_ip_addr_def ipv6_of_groups_def del: show_ip.simps)
qed

theorem parse_show_ip: "parse_ip (show_ip ip) = Some ip"
  by (cases ip) (simp_all only: parse_show_ipv4 parse_show_ipv6)

lemma read_number_nondigit:
  "to_digit radix c = None \<Longrightarrow> read_number radix m z limit (c # s) = None"
  by (simp add: read_number_def)

text \<open>A name that starts with neither a hexadecimal digit nor a colon is no address.\<close>

lemma parse_ip_name:
  assumes "to_digit 16 c = None" and "to_digit 10 c = None" and "c \<noteq> CHR '':''"
  shows "parse_ip (c # s) = None"
proof -
  have v4: "read_ipv4_addr (c # s) = None"
    using read_octets.simps(2) [of 0 3 "c # s"] assms(2)
    by (simp add: read_ipv4_addr_def read_separator_def read_number_nondigit)
  moreover have "read_groups 0 8 (c # s) = ([], False, c # s)"
    using read_groups.simps(2) [of 0 7 "c # s"] assms(1) v4
    by (simp add: read_separator_def read_number_nondigit)
  ultimately show ?thesis
    using assms(3) by (simp add: parse_ip_def read_ip_addr_def read_ipv6_addr_def read_given_char_def strip_prefix_def)
qed

end
