(* ===== verification/Stats.thy ===== *)
theory Stats
  imports Rust_Net "HOL-Library.Multiset"
begin

text \<open>
  The endpoint counters and the registry (\<open>src/stats.rs\<close>). An
  \<open>Arc<EndpointStats>\<close> is a handle: an index into the heap of counter cells, so
  that two tasks holding the handle of one host share its cell, and a handle
  outlives the removal of its host from the map. The \<open>HashMap\<close> of the registry is an association list in iteration
  order. Atomic \<open>fetch_add\<close> and \<open>fetch_sub\<close> wrap at 64 bits.
\<close>

section \<open>EndpointStats\<close>

record endpoint_stats =
  ingress :: u64
  egress :: u64
  connections :: u64
  ip_slot :: "ip_addr option"

definition default_stats :: endpoint_stats where
  "default_stats = \<lparr>ingress = 0, egress = 0, connections = 0, ip_slot = None\<rparr>"

definition add_ingress :: "u64 \<Rightarrow> endpoint_stats \<Rightarrow> endpoint_stats" where
  "add_ingress n s = s\<lparr>ingress := ingress s + n\<rparr>"

definition add_egress :: "u64 \<Rightarrow> endpoint_stats \<Rightarrow> endpoint_stats" where
  "add_egress n s = s\<lparr>egress := egress s + n\<rparr>"

definition add_connection :: "endpoint_stats \<Rightarrow> endpoint_stats" where
  "add_connection s = s\<lparr>connections := connections s + 1\<rparr>"

text \<open>\<open>get_or_insert\<close>: the first address observed wins.\<close>

definition observe_ip :: "ip_addr \<Rightarrow> endpoint_stats \<Rightarrow> endpoint_stats" where
  "observe_ip addr s =
     s\<lparr>ip_slot := (case ip_slot s of None \<Rightarrow> Some addr | Some a \<Rightarrow> Some a)\<rparr>"

section \<open>The registry\<close>

type_synonym handle = nat

record registry =
  heap :: "endpoint_stats list"
  endpoints :: "(string \<times> handle) list"
  open_connections :: u64
  conn_id_counter :: u64

definition new_registry :: registry where
  "new_registry = \<lparr>heap = [], endpoints = [], open_connections = 0, conn_id_counter = 0\<rparr>"

text \<open>The cell behind a handle, and an atomic update of it.\<close>

definition cell :: "registry \<Rightarrow> handle \<Rightarrow> endpoint_stats" where
  "cell r h = heap r ! h"

definition upd_cell :: "handle \<Rightarrow> (endpoint_stats \<Rightarrow> endpoint_stats) \<Rightarrow> registry \<Rightarrow> registry" where
  "upd_cell h f r = r\<lparr>heap := (heap r)[h := f (heap r ! h)]\<rparr>"

definition endpoint :: "string \<Rightarrow> registry \<Rightarrow> registry \<times> handle" where
  "endpoint host r =
     (case map_of (endpoints r) host of
        Some h \<Rightarrow> (r, h)
      | None \<Rightarrow>
          (r\<lparr>heap := heap r @ [default_stats],
             endpoints := AList.update host (length (heap r)) (endpoints r)\<rparr>,
           length (heap r)))"

text \<open>
  \<open>fetch_add(1) + 1\<close>: the counter wraps, the addition to the value it returned is
  an ordinary \<open>+\<close>.
\<close>

definition next_conn_id :: "bool \<Rightarrow> registry \<Rightarrow> registry \<times> u64 option" where
  "next_conn_id overflow_checks r =
     (r\<lparr>conn_id_counter := conn_id_counter r + 1\<rparr>,
      add_chk overflow_checks (conn_id_counter r) 1)"

definition track_open :: "registry \<Rightarrow> registry" where
  "track_open r = r\<lparr>open_connections := open_connections r + 1\<rparr>"

definition drop_guard :: "registry \<Rightarrow> registry" where
  "drop_guard r = r\<lparr>open_connections := open_connections r - 1\<rparr>"

text \<open>The merge branch of \<open>rename\<close>: the counters of \<open>h\<close> are added to \<open>existing\<close>, field by field.\<close>

definition merge_cell :: "handle \<Rightarrow> handle \<Rightarrow> registry \<Rightarrow> registry" where
  "merge_cell h existing r =
     (let r1 = upd_cell existing (add_ingress (ingress (cell r h))) r;
          r2 = upd_cell existing (add_egress (egress (cell r1 h))) r1;
          r3 = (upd_cell existing add_connection ^^ unat (connections (cell r2 h))) r2
      in case ip_slot (cell r3 h) of
           Some ip \<Rightarrow> upd_cell existing (observe_ip ip) r3
         | None \<Rightarrow> r3)"

definition rename :: "string \<Rightarrow> string \<Rightarrow> registry \<Rightarrow> registry" where
  "rename from to r =
     (if from = to then r
      else case map_of (endpoints r) from of
             None \<Rightarrow> r
           | Some h \<Rightarrow>
               (let r' = r\<lparr>endpoints := AList.delete from (endpoints r)\<rparr>
                in case map_of (endpoints r') to of
                     Some existing \<Rightarrow> merge_cell h existing r'
                   | None \<Rightarrow> r'\<lparr>endpoints := AList.update to h (endpoints r')\<rparr>))"

definition hosts :: "registry \<Rightarrow> (string \<times> handle) list" where
  "hosts r = endpoints r"

section \<open>Domain filter\<close>

definition filter_suffix :: "string \<Rightarrow> string" where
  "filter_suffix f =
     to_ascii_lowercase (trim_matches (CHR ''.'') (trim_start_pat ''*.'' f))"

definition matches_domain :: "string \<Rightarrow> string option \<Rightarrow> bool" where
  "matches_domain name flt =
     (case flt of
        None \<Rightarrow> True
      | Some f \<Rightarrow>
          (let d = to_ascii_lowercase (trim_end_matches (CHR ''.'') name);
               f' = filter_suffix f
           in if f' = [] then True else d = f' \<or> ends_with d (''.'' @ f')))"

section \<open>Snapshot\<close>

record endpoint_view =
  domain :: string
  ip_address :: "ip_addr option"
  ingress_bytes :: u64
  egress_bytes :: u64
  conns :: u64
  matches_filter :: bool

text \<open>\<open>std::cmp::Ordering\<close>, \<open>Ord::cmp\<close> and \<open>then_with\<close>.\<close>

datatype ordering = Less | Equal | Greater

definition cmp :: "'a::linorder \<Rightarrow> 'a \<Rightarrow> ordering" where
  "cmp a b = (if a < b then Less else if a = b then Equal else Greater)"

fun then_with :: "ordering \<Rightarrow> ordering \<Rightarrow> ordering" where
  "then_with Equal o2 = o2"
| "then_with o1 o2 = o1"

definition cmp_endpoint :: "endpoint_view \<Rightarrow> endpoint_view \<Rightarrow> ordering" where
  "cmp_endpoint a b =
     then_with (then_with (cmp (ingress_bytes b) (ingress_bytes a))
                          (cmp (egress_bytes b) (egress_bytes a)))
               (cmp (domain a) (domain b))"

text \<open>\<open>slice::sort_by\<close>: a stable sort by a comparison function.\<close>

fun insert_by :: "('a \<Rightarrow> 'a \<Rightarrow> ordering) \<Rightarrow> 'a \<Rightarrow> 'a list \<Rightarrow> 'a list" where
  "insert_by c x [] = [x]"
| "insert_by c x (y # ys) = (if c x y = Greater then y # insert_by c x ys else x # y # ys)"

definition sort_by :: "('a \<Rightarrow> 'a \<Rightarrow> ordering) \<Rightarrow> 'a list \<Rightarrow> 'a list" where
  "sort_by c xs = foldr (insert_by c) xs []"

definition view_of :: "string option \<Rightarrow> string \<Rightarrow> endpoint_stats \<Rightarrow> endpoint_view" where
  "view_of flt name s =
     \<lparr>domain = name, ip_address = ip_slot s, ingress_bytes = ingress s,
      egress_bytes = egress s, conns = connections s, matches_filter = matches_domain name flt\<rparr>"

definition snapshot :: "string option \<Rightarrow> registry \<Rightarrow> endpoint_view list" where
  "snapshot flt r =
     sort_by cmp_endpoint (map (\<lambda>(name, h). view_of flt name (cell r h)) (hosts r))"

section \<open>Invariant\<close>

text \<open>
  Hosts are distinct, every handle of the map points at a cell, and no two hosts
  share a cell.
\<close>

definition registry_ok :: "registry \<Rightarrow> bool" where
  "registry_ok r \<longleftrightarrow> keys_distinct (endpoints r) \<and> distinct (map snd (endpoints r))
     \<and> (\<forall>h \<in> snd ` set (endpoints r). h < length (heap r))"

text \<open>The counters recorded under a host: what the rest of the program sees.\<close>

definition row :: "registry \<Rightarrow> string \<Rightarrow> endpoint_stats option" where
  "row r host = map_option (cell r) (map_of (endpoints r) host)"

lemma registry_ok_lt: "registry_ok r \<Longrightarrow> map_of (endpoints r) k = Some h \<Longrightarrow> h < length (heap r)"
  unfolding registry_ok_def using map_of_SomeD by fastforce

lemma registry_ok_inj:
  assumes "registry_ok r" "map_of (endpoints r) k = Some h" "map_of (endpoints r) k' = Some h"
  shows "k = k'"
proof -
  from assms have "(k, h) \<in> set (endpoints r)" "(k', h) \<in> set (endpoints r)"
    by (auto dest: map_of_SomeD)
  moreover from assms(1) have "inj_on snd (set (endpoints r))"
    by (simp add: registry_ok_def distinct_map)
  ultimately show ?thesis by (metis inj_onD prod.inject snd_conv)
qed

lemma registry_okI:
  assumes "keys_distinct (endpoints r)"
    and "\<And>k h. map_of (endpoints r) k = Some h \<Longrightarrow> h < length (heap r)"
    and "\<And>k k' h. map_of (endpoints r) k = Some h \<Longrightarrow> map_of (endpoints r) k' = Some h \<Longrightarrow> k = k'"
  shows "registry_ok r"
proof -
  have in_map: "map_of (endpoints r) k = Some h" if "(k, h) \<in> set (endpoints r)" for k h
    using assms(1) that by simp
  have "inj_on snd (set (endpoints r))"
  proof (rule inj_onI)
    fix x y assume "x \<in> set (endpoints r)" "y \<in> set (endpoints r)" "snd x = snd y"
    then have "map_of (endpoints r) (fst x) = Some (snd x)" "map_of (endpoints r) (fst y) = Some (snd x)"
      using in_map by (metis prod.collapse)+
    then show "x = y" using assms(3) \<open>snd x = snd y\<close> by (metis prod_eqI)
  qed
  moreover have "\<forall>h \<in> snd ` set (endpoints r). h < length (heap r)"
    using in_map assms(2) by fastforce
  moreover have "distinct (endpoints r)" using assms(1) by (simp add: distinct_map)
  ultimately show ?thesis using assms(1) by (simp add: registry_ok_def distinct_map)
qed

lemma keys_distinct_ok: "registry_ok r \<Longrightarrow> keys_distinct (endpoints r)"
  by (simp add: registry_ok_def)

lemma registry_ok_new: "registry_ok new_registry"
  by (simp add: registry_ok_def new_registry_def)

lemma registry_ok_endpoint: "registry_ok r \<Longrightarrow> registry_ok (fst (endpoint k r))"
proof (cases "map_of (endpoints r) k")
  case None
  assume ok: "registry_ok r"
  show ?thesis
  proof (rule registry_okI)
    show "keys_distinct (endpoints (fst (endpoint k r)))"
      using ok None by (simp add: endpoint_def keys_distinct_ok hm.invar_insert)
  next
    fix k' h assume "map_of (endpoints (fst (endpoint k r))) k' = Some h"
    then show "h < length (heap (fst (endpoint k r)))"
      using ok None registry_ok_lt [OF ok, of k' h]
      by (auto simp: endpoint_def update_conv' split: if_splits)
  next
    fix k1 k2 h
    assume "map_of (endpoints (fst (endpoint k r))) k1 = Some h"
      "map_of (endpoints (fst (endpoint k r))) k2 = Some h"
    then show "k1 = k2"
      using None registry_ok_inj [OF ok, of k1 h k2] registry_ok_lt [OF ok, of k1 h]
        registry_ok_lt [OF ok, of k2 h]
      by (auto simp: endpoint_def update_conv' split: if_splits)
  qed
qed (simp add: endpoint_def)

lemma upd_cell_simps [simp, stats_simps]:
  "endpoints (upd_cell h f r) = endpoints r"
  "length (heap (upd_cell h f r)) = length (heap r)"
  "open_connections (upd_cell h f r) = open_connections r"
  "conn_id_counter (upd_cell h f r) = conn_id_counter r"
  by (simp_all add: upd_cell_def)

lemma cell_upd_cell [stats_simps]:
  "h < length (heap r) \<Longrightarrow> cell (upd_cell h f r) h' = (if h' = h then f (cell r h) else cell r h')"
  by (simp add: cell_def upd_cell_def nth_list_update)

lemma registry_ok_cong: "endpoints r' = endpoints r \<Longrightarrow> length (heap r') = length (heap r) \<Longrightarrow>
    registry_ok r' = registry_ok r"
  by (simp add: registry_ok_def)

lemma registry_ok_upd_cell [simp]: "registry_ok (upd_cell h f r) = registry_ok r"
  by (rule registry_ok_cong) simp_all

lemma registry_ok_guards [simp]:
  "registry_ok (track_open r) = registry_ok r"
  "registry_ok (drop_guard r) = registry_ok r"
  "registry_ok (fst (next_conn_id c r)) = registry_ok r"
  by (simp_all add: registry_ok_def track_open_def drop_guard_def next_conn_id_def)

lemma row_cong: "endpoints r' = endpoints r \<Longrightarrow> heap r' = heap r \<Longrightarrow> row r' = row r"
proof -
  assume same: "endpoints r' = endpoints r" "heap r' = heap r"
  then have "cell r' = cell r" by (simp add: fun_eq_iff cell_def)
  with same show ?thesis by (intro ext) (simp add: row_def)
qed

lemma row_guards [simp]:
  "row (track_open r) = row r" "row (drop_guard r) = row r" "row (fst (next_conn_id c r)) = row r"
  by (rule row_cong; simp add: track_open_def drop_guard_def next_conn_id_def)+

section \<open>Rows\<close>

lemma endpoint_handle [stats_simps]:
  "map_of (endpoints (fst (endpoint k r))) k = Some (snd (endpoint k r))"
  by (auto simp: endpoint_def update_conv' split: option.splits)

text \<open>A first request creates a row of zeros; a later one changes nothing.\<close>

lemma row_endpoint [stats_simps]:
  assumes "registry_ok r"
  shows "row (fst (endpoint k r)) =
    (row r)(k := (case row r k of None \<Rightarrow> Some default_stats | Some s \<Rightarrow> Some s))"
proof (cases "map_of (endpoints r) k")
  case None
  show ?thesis
  proof
    fix k'
    show "row (fst (endpoint k r)) k' =
      ((row r)(k := (case row r k of None \<Rightarrow> Some default_stats | Some s \<Rightarrow> Some s))) k'"
      using None assms registry_ok_lt [OF assms, of k']
      by (cases "map_of (endpoints r) k'")
        (auto simp: row_def cell_def endpoint_def update_conv' nth_append)
  qed
qed (auto simp: row_def endpoint_def)

lemma row_upd_cell [stats_simps]:
  assumes "registry_ok r" and "map_of (endpoints r) k = Some h"
  shows "row (upd_cell h f r) = (row r)(k := map_option f (row r k))"
proof
  fix k'
  show "row (upd_cell h f r) k' = ((row r)(k := map_option f (row r k))) k'"
    using assms registry_ok_lt [OF assms] registry_ok_inj [OF assms, of k']
    by (cases "map_of (endpoints r) k'") (auto simp: row_def cell_upd_cell)
qed

section \<open>Rename\<close>

lemma funpow_upd_cell:
  assumes "h < length (heap r)"
  shows "(upd_cell h add_connection ^^ n) r =
    upd_cell h (\<lambda>s. s\<lparr>connections := connections s + of_nat n\<rparr>) r"
proof (induction n)
  case (Suc n)
  then show ?case
    using assms by (simp add: upd_cell_def add_connection_def algebra_simps)
qed (simp add: upd_cell_def)

text \<open>The counters after a merge: sums, and the address that was there first.\<close>

definition merged :: "endpoint_stats \<Rightarrow> endpoint_stats \<Rightarrow> endpoint_stats" where
  "merged s e =
     \<lparr>ingress = ingress e + ingress s, egress = egress e + egress s,
      connections = connections e + connections s,
      ip_slot = (case ip_slot e of Some a \<Rightarrow> Some a | None \<Rightarrow> ip_slot s)\<rparr>"

lemma stats_eta:
  "s\<lparr>ingress := i, egress := e, connections := c\<rparr> =
     \<lparr>ingress = i, egress = e, connections = c, ip_slot = ip_slot s\<rparr>"
  "s\<lparr>ingress := i, egress := e, connections := c, ip_slot := a\<rparr> =
     \<lparr>ingress = i, egress = e, connections = c, ip_slot = a\<rparr>"
  by (cases s; simp)+

lemma merge_cell_eq:
  assumes "h < length (heap r)" and "e < length (heap r)" and "h \<noteq> e"
  shows "merge_cell h e r = upd_cell e (merged (cell r h)) r"
  using assms
  by (auto simp: merge_cell_def Let_def funpow_upd_cell cell_upd_cell add_ingress_def add_egress_def
      observe_ip_def merged_def upd_cell_def cell_def stats_eta split: option.splits)

lemma rename_absent: "row r from = None \<Longrightarrow> rename from to r = r"
  by (simp add: rename_def row_def)

lemma rename_self: "rename k k r = r"
  by (simp add: rename_def)

lemma registry_ok_delete: "registry_ok r \<Longrightarrow> registry_ok (r\<lparr>endpoints := AList.delete k (endpoints r)\<rparr>)"
  using registry_ok_lt [of r] registry_ok_inj [of r]
  by (intro registry_okI) (auto simp: keys_distinct_ok hm.invar_remove delete_conv' split: if_splits)

lemma row_delete:
  "row (r\<lparr>endpoints := AList.delete k (endpoints r)\<rparr>) = (row r)(k := None)"
  by (rule ext) (simp add: row_def delete_conv' cell_def [abs_def])

lemma row_rename [stats_simps]:
  assumes ok: "registry_ok r" and "from \<noteq> to" and present: "row r from = Some s"
  shows "row (rename from to r) =
    (row r)(from := None, to := Some (case row r to of None \<Rightarrow> s | Some e \<Rightarrow> merged s e))"
    and "registry_ok (rename from to r)"
proof -
  let ?r = "r\<lparr>endpoints := AList.delete from (endpoints r)\<rparr>"
  obtain h where h: "map_of (endpoints r) from = Some h" and s: "s = cell r h"
    using present by (auto simp: row_def)
  have ok': "registry_ok ?r" using ok by (rule registry_ok_delete)
  have to': "map_of (endpoints ?r) to = map_of (endpoints r) to"
    using \<open>from \<noteq> to\<close> by (simp add: delete_conv')
  have "row (rename from to r) =
      (row r)(from := None, to := Some (case row r to of None \<Rightarrow> s | Some e \<Rightarrow> merged s e))
    \<and> registry_ok (rename from to r)"
  proof (cases "map_of (endpoints r) to")
    case None
    let ?r2 = "r\<lparr>endpoints := AList.update to h (AList.delete from (endpoints r))\<rparr>"
    have eq: "rename from to r = ?r2"
      using h None to' \<open>from \<noteq> to\<close> by (simp add: rename_def)
    have "registry_ok ?r2"
      using registry_ok_lt [OF ok] registry_ok_inj [OF ok] h
      by (intro registry_okI)
        (auto simp: keys_distinct_ok [OF ok] hm.invar_remove hm.invar_insert update_conv' delete_conv'
          split: if_splits)
    moreover have "row ?r2 = (row r)(from := None, to := Some s)"
      using h s by (intro ext) (auto simp: row_def update_conv' delete_conv' cell_def [abs_def])
    ultimately show ?thesis using None eq by (simp add: row_def)
  next
    case (Some e)
    have "h \<noteq> e" using registry_ok_inj [OF ok h, of to] Some \<open>from \<noteq> to\<close> by auto
    then have eq: "rename from to r = upd_cell e (merged s) ?r"
      using h Some to' \<open>from \<noteq> to\<close> registry_ok_lt [OF ok h] registry_ok_lt [OF ok Some] s
      by (simp add: rename_def merge_cell_eq cell_def)
    have "row (upd_cell e (merged s) ?r) = (row ?r)(to := map_option (merged s) (row ?r to))"
      using ok' Some to' by (intro row_upd_cell) simp_all
    then show ?thesis
      using eq ok' Some \<open>from \<noteq> to\<close> by (simp add: row_delete row_def)
  qed
  then show "row (rename from to r) =
      (row r)(from := None, to := Some (case row r to of None \<Rightarrow> s | Some e \<Rightarrow> merged s e))"
    and "registry_ok (rename from to r)" by simp_all
qed

lemma registry_ok_rename: "registry_ok r \<Longrightarrow> registry_ok (rename from to r)"
  by (cases "from = to"; cases "row r from") (simp_all add: rename_self rename_absent row_rename)

section \<open>Totals\<close>

text \<open>The sum of a counter over every host of the registry, as a 64-bit value.\<close>

definition total :: "(endpoint_stats \<Rightarrow> u64) \<Rightarrow> registry \<Rightarrow> u64" where
  "total f r = sum_list (map (\<lambda>(k, h). f (cell r h)) (endpoints r))"

lemma dom_row: "dom (row r) = fst ` set (endpoints r)"
  by (simp add: dom_map_of_conv_image_fst [symmetric]) (auto simp: row_def dom_def)

lemma total_row:
  assumes "registry_ok r"
  shows "total f r = (\<Sum>k \<in> dom (row r). f (the (row r k)))"
proof -
  have "the (row r (fst kh)) = cell r (snd kh)" if "kh \<in> set (endpoints r)" for kh
    using that map_of_is_SomeI [OF keys_distinct_ok [OF assms], of "fst kh" "snd kh"]
    by (simp add: row_def)
  then have "total f r = sum_list (map ((\<lambda>k. f (the (row r k))) \<circ> fst) (endpoints r))"
    unfolding total_def by (intro arg_cong [where f = sum_list] map_cong) (auto split: prod.splits)
  also have "\<dots> = (\<Sum>k \<in> set (map fst (endpoints r)). f (the (row r k)))"
    using keys_distinct_ok [OF assms] by (subst sum_list_distinct_conv_sum_set [symmetric]) simp_all
  finally show ?thesis by (simp add: dom_row)
qed

lemma finite_dom_row: "finite (dom (row r))"
  by (simp add: dom_row)

definition additive :: "(endpoint_stats \<Rightarrow> u64) \<Rightarrow> bool" where
  "additive f \<longleftrightarrow> (\<forall>s e. f (merged s e) = f e + f s)"

lemma additive_counters: "additive ingress" "additive egress" "additive connections"
  by (simp_all add: additive_def merged_def)

lemma total_rename:
  assumes ok: "registry_ok r" and add: "additive f"
  shows "total f (rename from to r) = total f r"
proof (cases "from = to \<or> row r from = None")
  case False
  then obtain s where s: "row r from = Some s" and "from \<noteq> to" by auto
  let ?g = "\<lambda>R k. f (the (R k))"
  define A where "A = dom (row r) - {from, to}"
  have A: "finite A" "from \<notin> A" "to \<notin> A" by (simp_all add: A_def finite_dom_row)
  have row': "row (rename from to r) =
      (row r)(from := None, to := Some (case row r to of None \<Rightarrow> s | Some e \<Rightarrow> merged s e))"
    using row_rename [OF ok \<open>from \<noteq> to\<close> s] by simp
  have "dom (row (rename from to r)) = insert to A"
    using \<open>from \<noteq> to\<close> by (auto simp: row' A_def)
  moreover have "sum (?g (row (rename from to r))) A = sum (?g (row r)) A"
    using A by (intro sum.cong) (auto simp: row')
  ultimately have "total f (rename from to r) = ?g (row (rename from to r)) to + sum (?g (row r)) A"
    using A by (simp add: total_row registry_ok_rename ok)
  also have "\<dots> = total f r"
  proof (cases "row r to")
    case None
    then have "dom (row r) = insert from A" using s \<open>from \<noteq> to\<close> by (auto simp: A_def)
    then have "total f r = ?g (row r) from + sum (?g (row r)) A"
      using A by (simp add: total_row [OF ok])
    then show ?thesis using None s by (simp add: row')
  next
    case (Some e)
    then have "dom (row r) = insert from (insert to A)" using s by (auto simp: A_def)
    then have "total f r = ?g (row r) from + (?g (row r) to + sum (?g (row r)) A)"
      using A \<open>from \<noteq> to\<close> by (simp add: total_row [OF ok])
    then show ?thesis using Some s add by (simp add: row' additive_def algebra_simps)
  qed
  finally show ?thesis .
qed (auto simp: rename_self rename_absent)

section \<open>Comparison sorts\<close>

text \<open>
  The contract of a comparison function passed to \<open>sort_by\<close>: a total preorder. It
  gives a sorted permutation; where distinct elements never compare equal, the result
  depends on the elements alone and not on the order they came in.
\<close>

locale comparison =
  fixes c :: "'a \<Rightarrow> 'a \<Rightarrow> ordering"
  assumes c_total: "c x y = Greater \<Longrightarrow> c y x \<noteq> Greater"
    and c_trans: "c x y \<noteq> Greater \<Longrightarrow> c y z \<noteq> Greater \<Longrightarrow> c x z \<noteq> Greater"
begin

lemma mset_insert_by: "mset (insert_by c x xs) = add_mset x (mset xs)"
  by (induction xs) auto

lemma mset_sort_by: "mset (sort_by c xs) = mset xs"
  by (induction xs) (simp_all add: sort_by_def mset_insert_by)

lemma set_sort_by: "set (sort_by c xs) = set xs"
  using mset_sort_by [of xs] by (rule mset_eq_setD)

lemma sorted_insert_by:
  "sorted_wrt (\<lambda>a b. c a b \<noteq> Greater) xs \<Longrightarrow> sorted_wrt (\<lambda>a b. c a b \<noteq> Greater) (insert_by c x xs)"
proof (induction xs)
  case (Cons y ys)
  have "set (insert_by c x ys) = insert x (set ys)"
    using mset_insert_by [of x ys] by (metis set_mset_add_mset_insert set_mset_mset)
  with Cons show ?case by (auto dest: c_total c_trans)
qed simp

lemma sorted_sort_by: "sorted_wrt (\<lambda>a b. c a b \<noteq> Greater) (sort_by c xs)"
  by (induction xs) (simp_all add: sort_by_def sorted_insert_by)

lemma sorted_unique:
  assumes "sorted_wrt (\<lambda>a b. c a b \<noteq> Greater) xs" "sorted_wrt (\<lambda>a b. c a b \<noteq> Greater) ys"
    and "mset xs = mset ys"
    and "\<And>a b. a \<in> set xs \<Longrightarrow> b \<in> set xs \<Longrightarrow> c a b \<noteq> Greater \<Longrightarrow> c b a \<noteq> Greater \<Longrightarrow> a = b"
  shows "xs = ys"
  using assms
proof (induction xs arbitrary: ys)
  case (Cons x xs)
  then obtain y ys' where ys: "ys = y # ys'" by (cases ys) auto
  have sets: "set (x # xs) = set (y # ys')" using Cons.prems(3) ys by (metis mset_eq_setD)
  have "x = y"
  proof (rule ccontr)
    assume "x \<noteq> y"
    with sets have "x \<in> set ys'" "y \<in> set xs" by auto
    with Cons.prems(1,2) ys have "c x y \<noteq> Greater" "c y x \<noteq> Greater" by auto
    with Cons.prems(4) [of x y] \<open>y \<in> set xs\<close> \<open>x \<noteq> y\<close> show False by simp
  qed
  with Cons ys show ?case by simp
qed simp

lemma sort_by_order_free:
  assumes "mset xs = mset ys"
    and "\<And>a b. a \<in> set xs \<Longrightarrow> b \<in> set xs \<Longrightarrow> c a b \<noteq> Greater \<Longrightarrow> c b a \<noteq> Greater \<Longrightarrow> a = b"
  shows "sort_by c xs = sort_by c ys"
  using assms by (intro sorted_unique sorted_sort_by) (simp_all add: mset_sort_by set_sort_by)

end

lemma cmp_not_Greater: "cmp a b \<noteq> Greater \<longleftrightarrow> a \<le> b"
  by (auto simp: cmp_def)

lemma cmp_endpoint_le:
  "cmp_endpoint a b \<noteq> Greater \<longleftrightarrow>
     ingress_bytes b < ingress_bytes a \<or> ingress_bytes a = ingress_bytes b \<and>
       (egress_bytes b < egress_bytes a \<or> egress_bytes a = egress_bytes b \<and> domain a \<le> domain b)"
  by (auto simp: cmp_endpoint_def cmp_def)

interpretation by_traffic: comparison cmp_endpoint
proof
  fix x y assume "cmp_endpoint x y = Greater"
  then have "\<not> cmp_endpoint x y \<noteq> Greater" by simp
  then show "cmp_endpoint y x \<noteq> Greater" unfolding cmp_endpoint_le by auto
next
  fix x y z assume "cmp_endpoint x y \<noteq> Greater" "cmp_endpoint y z \<noteq> Greater"
  then show "cmp_endpoint x z \<noteq> Greater" unfolding cmp_endpoint_le by auto
qed

lemma cmp_endpoint_antisym:
  "cmp_endpoint a b \<noteq> Greater \<Longrightarrow> cmp_endpoint b a \<noteq> Greater \<Longrightarrow> domain a = domain b"
  unfolding cmp_endpoint_le by auto

section \<open>Snapshots\<close>

lemma snapshot_set:
  assumes "registry_ok r"
  shows "set (snapshot flt r) = {view_of flt k s | k s. row r k = Some s}"
  using keys_distinct_ok [OF assms]
  by (auto simp: snapshot_def by_traffic.set_sort_by hosts_def row_def image_iff split: prod.splits)

lemma snapshot_mset: "mset (snapshot flt r) = mset (map (\<lambda>(k, h). view_of flt k (cell r h)) (endpoints r))"
  by (simp add: snapshot_def by_traffic.mset_sort_by hosts_def)

lemma domain_view_of [simp]: "domain (view_of flt k s) = k"
  by (simp add: view_of_def)

lemma snapshot_domains: "mset (map domain (snapshot flt r)) = mset (map fst (endpoints r))"
proof -
  have "mset (map domain (snapshot flt r)) = image_mset domain (mset (snapshot flt r))" by simp
  also have "\<dots> = mset (map fst (endpoints r))"
    by (simp only: snapshot_mset) (simp add: image_mset.compositionality comp_def split_def)
  finally show ?thesis .
qed

lemma snapshot_distinct: "registry_ok r \<Longrightarrow> distinct (map domain (snapshot flt r))"
  using snapshot_domains [of flt r] keys_distinct_ok by (metis mset_eq_imp_distinct_iff)

section \<open>Label boundaries\<close>

fun join_char :: "char \<Rightarrow> string list \<Rightarrow> string" where
  "join_char c [] = []"
| "join_char c [s] = s"
| "join_char c (s # ss) = s @ c # join_char c ss"

lemma join_char_Cons: "ss \<noteq> [] \<Longrightarrow> join_char c (s # ss) = s @ c # join_char c ss"
  by (cases ss) simp_all

lemma join_char_append:
  "ps \<noteq> [] \<Longrightarrow> qs \<noteq> [] \<Longrightarrow> join_char c (ps @ qs) = join_char c ps @ c # join_char c qs"
  by (induction ps rule: induct_list012) (simp_all add: join_char_Cons)

lemma join_split_on [simp]: "join_char c (split_on c s) = s"
proof (induction s)
  case (Cons x s)
  then show ?case
  proof (cases "split_on c s")
    case (Cons p ps)
    with Cons.IH show ?thesis
      by (cases ps) (auto simp: join_char_Cons)
  qed simp
qed simp

lemma split_on_append: "split_on c (p @ c # s) = split_on c p @ split_on c s"
  by (induction p) (auto split: list.splits)

text \<open>
  A string ends in a dot and then \<open>f\<close>, or is \<open>f\<close>, exactly when its list of labels
  ends in the labels of \<open>f\<close>.
\<close>

lemma suffix_labels:
  "suffix (split_on c f) (split_on c d) \<longleftrightarrow> d = f \<or> suffix (c # f) d"
proof
  assume "suffix (split_on c f) (split_on c d)"
  then obtain ps where ps: "split_on c d = ps @ split_on c f" by (auto simp: suffix_def)
  show "d = f \<or> suffix (c # f) d"
  proof (cases "ps = []")
    case True
    with ps have "join_char c (split_on c d) = join_char c (split_on c f)" by simp
    then show ?thesis by simp
  next
    case False
    then have "join_char c (split_on c d) = join_char c ps @ c # join_char c (split_on c f)"
      using ps by (simp add: join_char_append)
    then have "d = join_char c ps @ c # f" by simp
    then show ?thesis by (auto simp: suffix_def)
  qed
next
  assume "d = f \<or> suffix (c # f) d"
  then show "suffix (split_on c f) (split_on c d)"
    by (auto simp: suffix_def split_on_append)
qed

lemma matches_domain_labels:
  "matches_domain name (Some f) \<longleftrightarrow> filter_suffix f = []
    \<or> suffix (split_on (CHR ''.'') (filter_suffix f))
             (split_on (CHR ''.'') (to_ascii_lowercase (trim_end_matches (CHR ''.'') name)))"
  by (auto simp: matches_domain_def Let_def ends_with_def suffix_labels)

section \<open>Interleavings\<close>

text \<open>
  The atomic additions that the tasks of the proxy perform on the cells, in the order
  in which they happen.
\<close>

datatype count_op = AddIngress handle u64 | AddEgress handle u64 | AddConnection handle

fun apply_count :: "count_op \<Rightarrow> registry \<Rightarrow> registry" where
  "apply_count (AddIngress h n) = upd_cell h (add_ingress n)"
| "apply_count (AddEgress h n) = upd_cell h (add_egress n)"
| "apply_count (AddConnection h) = upd_cell h add_connection"

lemma upd_cell_commute:
  assumes "\<And>s. f (g s) = g (f s)"
  shows "upd_cell h f (upd_cell h' g r) = upd_cell h' g (upd_cell h f r)"
  using assms
  by (cases "h < length (heap r)"; cases "h' < length (heap r)"; cases "h = h'")
     (simp_all add: upd_cell_def list_update_swap list_update_beyond)

lemma apply_count_commute: "apply_count a (apply_count b r) = apply_count b (apply_count a r)"
  by (cases a; cases b; simp; rule upd_cell_commute)
     (simp_all add: add_ingress_def add_egress_def add_connection_def algebra_simps)

lemma run_counts_order_free:
  assumes "mset ops = mset ops'"
  shows "fold apply_count ops r = fold apply_count ops' r"
proof -
  have "fold apply_count ops = fold apply_count ops'"
    using assms by (intro fold_multiset_equiv) (auto simp: fun_eq_iff apply_count_commute)
  then show ?thesis by simp
qed

section \<open>The accounting interface\<close>

text \<open>
  What the proxy and the relay rely on: opening a row hands out a handle that keeps
  meaning that row, and a bump through the handle changes that row and no other.
\<close>

locale accounting =
  fixes ok :: "'r \<Rightarrow> bool"
    and row_of :: "'r \<Rightarrow> 'k \<Rightarrow> 's option"
    and handle_of :: "'r \<Rightarrow> 'k \<Rightarrow> 'h option"
    and open_row :: "'k \<Rightarrow> 'r \<Rightarrow> 'r \<times> 'h"
    and bump :: "'h \<Rightarrow> ('s \<Rightarrow> 's) \<Rightarrow> 'r \<Rightarrow> 'r"
    and fresh :: 's
  assumes open_ok: "ok r \<Longrightarrow> ok (fst (open_row k r))"
    and open_handle: "ok r \<Longrightarrow> handle_of (fst (open_row k r)) k = Some (snd (open_row k r))"
    and open_keeps: "ok r \<Longrightarrow> handle_of r k' = Some h \<Longrightarrow> handle_of (fst (open_row k r)) k' = Some h"
    and open_row_of: "ok r \<Longrightarrow> row_of (fst (open_row k r)) =
          (row_of r)(k := Some (case row_of r k of None \<Rightarrow> fresh | Some s \<Rightarrow> s))"
    and bump_ok: "ok (bump h f r) = ok r"
    and bump_handle: "handle_of (bump h f r) = handle_of r"
    and bump_row: "ok r \<Longrightarrow> handle_of r k = Some h \<Longrightarrow>
          row_of (bump h f r) = (row_of r)(k := map_option f (row_of r k))"
begin

text \<open>Opening a row and bumping it through the handle it returned.\<close>

lemma charge:
  assumes "ok r"
  shows "row_of (bump (snd (open_row k r)) f (fst (open_row k r))) =
      (row_of r)(k := Some (f (case row_of r k of None \<Rightarrow> fresh | Some s \<Rightarrow> s)))"
    and "ok (bump (snd (open_row k r)) f (fst (open_row k r)))"
    and "handle_of (bump (snd (open_row k r)) f (fst (open_row k r))) k = Some (snd (open_row k r))"
  using assms bump_row [OF open_ok open_handle, OF assms assms]
  by (simp_all add: open_row_of bump_ok bump_handle open_ok open_handle)

text \<open>A run of bumps through one handle is one bump by their composition.\<close>

lemma bump_run:
  assumes "ok r" and "handle_of r k = Some h"
  shows "row_of (fold (bump h) fs r) = (row_of r)(k := map_option (fold (\<lambda>f. f) fs) (row_of r k))
    \<and> ok (fold (bump h) fs r) \<and> handle_of (fold (bump h) fs r) = handle_of r"
  using assms
proof (induction fs arbitrary: r)
  case (Cons f fs)
  have "ok (bump h f r)" "handle_of (bump h f r) k = Some h"
    using Cons.prems by (simp_all add: bump_ok bump_handle)
  note step = Cons.IH [OF this]
  show ?case
    using step Cons.prems by (auto simp: bump_row bump_handle option.map_comp comp_def fun_eq_iff)
qed (simp add: option.map_id)

end

interpretation reg: accounting registry_ok row "\<lambda>r. map_of (endpoints r)" endpoint upd_cell default_stats
proof
  fix r k k' h assume "registry_ok r" "map_of (endpoints r) k' = Some h"
  then show "map_of (endpoints (fst (endpoint k r))) k' = Some h"
    by (auto simp: endpoint_def update_conv' split: option.splits)
next
  fix r k assume "registry_ok r"
  then show "row (fst (endpoint k r)) =
      (row r)(k := Some (case row r k of None \<Rightarrow> default_stats | Some s \<Rightarrow> s))"
    by (simp add: row_endpoint split: option.splits)
qed (simp_all add: registry_ok_endpoint endpoint_handle row_upd_cell)

section \<open>Connection ids and guards\<close>

text \<open>The ids handed out by \<open>n\<close> successive calls.\<close>

fun take_ids :: "bool \<Rightarrow> nat \<Rightarrow> registry \<Rightarrow> u64 option list" where
  "take_ids c 0 r = []"
| "take_ids c (Suc n) r = snd (next_conn_id c r) # take_ids c n (fst (next_conn_id c r))"

lemma take_ids_from:
  assumes "unat (conn_id_counter r) + n < 2 ^ 64"
  shows "take_ids c n r = map (\<lambda>i. Some (conn_id_counter r + of_nat i)) [1..<Suc n]"
  using assms
proof (induction n arbitrary: r)
  case (Suc n)
  let ?r = "fst (next_conn_id c r)"
  have one: "unat (conn_id_counter r) + unat (1 :: u64) < 2 ^ LENGTH(64)" using Suc.prems by simp
  then have "unat (conn_id_counter ?r) = Suc (unat (conn_id_counter r))"
    using unat_add_exact [OF one] by (simp add: next_conn_id_def)
  then have IH: "take_ids c n ?r = map (\<lambda>i. Some (conn_id_counter ?r + of_nat i)) [1..<Suc n]"
    using Suc by simp
  have "[1..<Suc (Suc n)] = 1 # map Suc [1..<Suc n]"
    by (simp add: upt_conv_Cons map_Suc_upt del: upt_Suc)
  then show ?case
    using IH add_chk_exact(1) [OF one, of c]
    by (simp add: next_conn_id_def comp_def algebra_simps del: upt_Suc)
qed simp

text \<open>Guards taken and dropped by the connection tasks, in the order in which it happens.\<close>

datatype guard_op = Take_Guard | Drop_Guard

fun apply_guard :: "guard_op \<Rightarrow> registry \<Rightarrow> registry" where
  "apply_guard Take_Guard = track_open"
| "apply_guard Drop_Guard = drop_guard"

lemma open_connections_run:
  "open_connections (fold apply_guard gs r) =
     open_connections r + of_nat (count_list gs Take_Guard) - of_nat (count_list gs Drop_Guard)"
proof (induction gs arbitrary: r)
  case (Cons g gs)
  then show ?case
    by (cases g) (simp_all add: track_open_def drop_guard_def algebra_simps)
qed simp

section \<open>Reachable registries\<close>

text \<open>Every operation the program performs on a registry, as one step.\<close>

inductive reg_step :: "registry \<Rightarrow> registry \<Rightarrow> bool" where
  step_endpoint: "reg_step r (fst (endpoint host r))"
| step_count: "reg_step r (apply_count c r)"
| step_observe: "reg_step r (upd_cell h (observe_ip a) r)"
| step_rename: "reg_step r (rename from to r)"
| step_id: "reg_step r (fst (next_conn_id chk r))"
| step_guard: "reg_step r (apply_guard g r)"

inductive reg_reachable :: "registry \<Rightarrow> bool" where
  reach_new: "reg_reachable new_registry"
| reach_step: "reg_reachable r \<Longrightarrow> reg_step r r' \<Longrightarrow> reg_reachable r'"

lemma reg_step_ok: "reg_step r r' \<Longrightarrow> registry_ok r \<Longrightarrow> registry_ok r'"
proof (induction rule: reg_step.induct)
  case (step_count r c)
  then show ?case by (cases c) simp_all
next
  case (step_guard r g)
  then show ?case by (cases g) simp_all
qed (simp_all add: registry_ok_endpoint registry_ok_rename)

lemma reg_reachable_ok: "reg_reachable r \<Longrightarrow> registry_ok r"
  by (induction rule: reg_reachable.induct) (auto intro: registry_ok_new reg_step_ok)

section \<open>Properties\<close>

text \<open>A registry with two hosts, used as the concrete input of the witnesses below.\<close>

definition two_hosts :: registry where
  "two_hosts = \<lparr>heap = [\<lparr>ingress = 5, egress = 7, connections = 1, ip_slot = None\<rparr>,
                        \<lparr>ingress = 9, egress = 2, connections = 3, ip_slot = Some (V4 1 2 3 4)\<rparr>],
      endpoints = [(''1.2.3.4'', 0), (''b.dev'', 1)], open_connections = 0, conn_id_counter = 0\<rparr>"

lemma registry_ok_two_hosts: "registry_ok two_hosts"
  by (simp add: registry_ok_def two_hosts_def)

text \<open>
  The report rows do not depend on the iteration order of the hash map: two
  registries with the same cells and the same entries, in whatever order, give the
  same snapshot.
\<close>

theorem snapshot_order_free:
  assumes "registry_ok r" and "heap r' = heap r" and "mset (endpoints r') = mset (endpoints r)"
  shows "snapshot flt r' = snapshot flt r"
proof -
  let ?views = "\<lambda>r. map (\<lambda>(name, h). view_of flt name (cell r h)) (hosts r)"
  have "cell r' = cell r" using assms(2) by (simp add: fun_eq_iff cell_def)
  then have same: "mset (?views r') = mset (?views r)" using assms(3) by (simp add: hosts_def)
  moreover have "a = b" if "a \<in> set (?views r')" "b \<in> set (?views r')"
    "cmp_endpoint a b \<noteq> Greater" "cmp_endpoint b a \<noteq> Greater" for a b
  proof -
    have "domain a = domain b" using that(3,4) by (rule cmp_endpoint_antisym)
    moreover have "a \<in> set (?views r)" "b \<in> set (?views r)"
      using that(1,2) mset_eq_setD [OF same] by simp_all
    ultimately show ?thesis
      using keys_distinct_ok [OF assms(1)]
      by (auto simp: hosts_def dest: eq_key_imp_eq_value)
  qed
  ultimately show ?thesis
    unfolding snapshot_def by (rule by_traffic.sort_by_order_free)
qed

theorem snapshot_order_free_witness:
  "snapshot None (two_hosts\<lparr>endpoints := [(''b.dev'', 1), (''1.2.3.4'', 0)]\<rparr>) = snapshot None two_hosts"
  by (rule snapshot_order_free [OF registry_ok_two_hosts]) (simp_all add: two_hosts_def)



text \<open>
  Replacing an address by its host name moves traffic between rows and never
  creates or loses any: the total ingress, egress and connections are unchanged.
\<close>

theorem rename_conserves_totals:
  assumes "registry_ok r"
  shows "total ingress (rename from to r) = total ingress r
    \<and> total egress (rename from to r) = total egress r
    \<and> total connections (rename from to r) = total connections r"
  using assms by (simp add: total_rename additive_counters)

theorem rename_conserves_totals_witness:
  "total ingress (rename ''1.2.3.4'' ''b.dev'' two_hosts) = 14"
  using rename_conserves_totals [OF registry_ok_two_hosts, of "''1.2.3.4''" "''b.dev''"]
  by (simp add: total_def two_hosts_def cell_def)

text \<open>
  \<open>rename\<close> removes the old host and leaves its counters under the new one,
  added to the counters already there (the address observed first is kept); no
  third host changes.
\<close>

theorem rename_merges:
  assumes "registry_ok r" and "from \<noteq> to" and "row r from = Some s"
  shows "row (rename from to r) from = None
    \<and> row (rename from to r) to = Some (case row r to of None \<Rightarrow> s | Some e \<Rightarrow> merged s e)
    \<and> (\<forall>k. k \<noteq> from \<and> k \<noteq> to \<longrightarrow> row (rename from to r) k = row r k)"
  using row_rename(1) [OF assms] \<open>from \<noteq> to\<close> by simp

theorem rename_merges_witness:
  "row (rename ''1.2.3.4'' ''b.dev'' two_hosts) ''b.dev'' =
     Some \<lparr>ingress = 14, egress = 9, connections = 4, ip_slot = Some (V4 1 2 3 4)\<rparr>"
  using rename_merges [OF registry_ok_two_hosts, of "''1.2.3.4''" "''b.dev''"
      "\<lparr>ingress = 5, egress = 7, connections = 1, ip_slot = None\<rparr>"]
  by (simp add: row_def two_hosts_def cell_def merged_def)

text \<open>
  The counters do not depend on how the connection tasks interleave: any two
  orders of the same atomic additions lead to the same registry.
\<close>

theorem counting_order_free:
  assumes "mset ops = mset ops'"
  shows "fold apply_count ops r = fold apply_count ops' r"
  using assms by (rule run_counts_order_free)

theorem counting_order_free_witness:
  "fold apply_count [AddIngress 0 3, AddConnection 1, AddIngress 0 4] two_hosts =
   fold apply_count [AddIngress 0 4, AddIngress 0 3, AddConnection 1] two_hosts"
  by (rule counting_order_free) simp

text \<open>
  C29: A host falls under a non-empty filter exactly when its list of labels (lower
  case, trailing dots dropped) ends in the labels of the filter; so a match never
  cuts a label, and \<open>notamazonaws.com\<close> is not under \<open>amazonaws.com\<close>.
\<close>

theorem matches_domain_by_labels:
  assumes "filter_suffix f \<noteq> []"
  shows "matches_domain name (Some f) \<longleftrightarrow>
    (\<exists>labels. split_on (CHR ''.'') (to_ascii_lowercase (trim_end_matches (CHR ''.'') name))
       = labels @ split_on (CHR ''.'') (filter_suffix f))"
  using assms by (simp add: matches_domain_labels suffix_def)

theorem matches_domain_by_labels_witness:
  "matches_domain ''S3.amazonaws.com.'' (Some ''*.AmazonAWS.com'')
    \<and> \<not> matches_domain ''notamazonaws.com'' (Some ''amazonaws.com'')"
proof -
  have "filter_suffix ''*.AmazonAWS.com'' \<noteq> []" "filter_suffix ''amazonaws.com'' \<noteq> []"
    by code_simp+
  note by_labels = matches_domain_by_labels [OF this(1), of "''S3.amazonaws.com.''"]
    matches_domain_by_labels [OF this(2), of "''notamazonaws.com''"]
  have "split_on (CHR ''.'') (to_ascii_lowercase (trim_end_matches (CHR ''.'') ''S3.amazonaws.com.''))
      = [''s3''] @ split_on (CHR ''.'') (filter_suffix ''*.AmazonAWS.com'')" by code_simp
  moreover have "split_on (CHR ''.'') (to_ascii_lowercase (trim_end_matches (CHR ''.'') ''notamazonaws.com''))
      = [''notamazonaws'', ''com'']"
    and "split_on (CHR ''.'') (filter_suffix ''amazonaws.com'') = [''amazonaws'', ''com'']" by code_simp+
  moreover have "\<not> (\<exists>ls. [''notamazonaws'', ''com''] = ls @ [''amazonaws'', ''com''])"
    by (auto simp: Cons_eq_append_conv)
  ultimately show ?thesis unfolding by_labels by (simp only:) blast
qed

text \<open>
  Case, trailing dots of the host, and a leading wildcard or dot of the filter
  never change whether a host matches.
\<close>

theorem matches_domain_normalises:
  "matches_domain (to_ascii_lowercase name) (Some f) = matches_domain name (Some f)
    \<and> matches_domain (name @ ''.'') (Some f) = matches_domain name (Some f)
    \<and> matches_domain name (Some (''*.'' @ f)) = matches_domain name (Some f)"
proof -
  have "trim_start_pat ''*.'' (''*.'' @ f) = trim_start_pat ''*.'' f"
    by (subst trim_start_pat.simps) simp
  then have "filter_suffix (''*.'' @ f) = filter_suffix f" by (simp add: filter_suffix_def)
  then show ?thesis by (simp add: matches_domain_def trim_end_dot_lower)
qed

text \<open>
  Handles are shared per host: asking for a host twice yields the same handle,
  an update through the first is seen through the second, and no other row changes.
\<close>

theorem endpoint_shares_counters:
  assumes "registry_ok r"
    and "endpoint host r = (r1, h)" and "endpoint host (upd_cell h f r1) = (r2, h2)"
  shows "h2 = h \<and> row r2 host = Some (f (case row r host of None \<Rightarrow> default_stats | Some s \<Rightarrow> s))
    \<and> (\<forall>k. k \<noteq> host \<longrightarrow> row r2 k = row r k)"
proof -
  have h: "h = snd (endpoint host r)" and r1: "r1 = fst (endpoint host r)" using assms(2) by simp_all
  have "map_of (endpoints (upd_cell h f r1)) host = Some h"
    unfolding h r1 by (rule reg.charge(3) [OF assms(1)])
  then have "r2 = upd_cell h f r1" "h2 = h" using assms(3) by (auto simp: endpoint_def)
  moreover have "row (upd_cell h f r1) =
      (row r)(host := Some (f (case row r host of None \<Rightarrow> default_stats | Some s \<Rightarrow> s)))"
    unfolding h r1 by (rule reg.charge(1) [OF assms(1)])
  ultimately show ?thesis by simp
qed

theorem endpoint_shares_counters_witness:
  "\<exists>r1 h r2. endpoint ''a'' new_registry = (r1, h) \<and> endpoint ''a'' (upd_cell h (add_egress 4) r1) = (r2, h)
    \<and> row r2 ''a'' = Some (default_stats\<lparr>egress := 4\<rparr>)"
proof -
  obtain r1 h where 1: "endpoint ''a'' new_registry = (r1, h)" by (cases "endpoint ''a'' new_registry")
  obtain r2 h2 where 2: "endpoint ''a'' (upd_cell h (add_egress 4) r1) = (r2, h2)"
    by (cases "endpoint ''a'' (upd_cell h (add_egress 4) r1)")
  have "h2 = h \<and> row r2 ''a'' = Some (default_stats\<lparr>egress := 4\<rparr>)"
    using endpoint_shares_counters [OF registry_ok_new 1 2]
    by (simp add: row_def new_registry_def add_egress_def default_stats_def)
  with 1 2 show ?thesis by blast
qed

text \<open>
  In every registry the program can reach, hosts are distinct, every handle
  points at a cell, and no two hosts share one.
\<close>

theorem reachable_registry_ok: "reg_reachable r \<Longrightarrow> registry_ok r"
  by (rule reg_reachable_ok)

theorem reachable_registry_ok_witness: "registry_ok (rename ''a'' ''b'' (fst (endpoint ''a'' new_registry)))"
  by (rule reachable_registry_ok) (intro reach_step [OF _ step_rename] reach_step [OF _ step_endpoint] reach_new)

text \<open>
  Connection ids count up from 1 and never repeat within a run, in a build with
  or without overflow checks, for as long as fewer than 2^64 are handed out.
\<close>

theorem conn_ids_count_up:
  assumes "n < 2 ^ 64"
  shows "take_ids c n new_registry = map (\<lambda>i. Some (of_nat i)) [1..<Suc n]
    \<and> distinct (take_ids c n new_registry)"
proof
  show ids: "take_ids c n new_registry = map (\<lambda>i. Some (of_nat i)) [1..<Suc n]"
    using take_ids_from [of new_registry n c] assms by (simp add: new_registry_def)
  have "inj_on (\<lambda>i. Some (of_nat i :: u64)) (set [1..<Suc n])"
  proof (rule inj_onI)
    fix i j assume "i \<in> set [1..<Suc n]" "j \<in> set [1..<Suc n]"
      and "Some (of_nat i :: u64) = Some (of_nat j)"
    then show "i = j" using assms by (auto simp: of_nat_inverse dest!: arg_cong [where f = unat])
  qed
  then show "distinct (take_ids c n new_registry)" unfolding ids by (simp only: distinct_map) simp
qed

theorem conn_ids_count_up_witness: "take_ids True 3 new_registry = [Some 1, Some 2, Some 3]"
  using conn_ids_count_up [of 3 True] by (simp add: upt_rec)

text \<open>
  The in-flight count is the number of guards taken and not yet dropped; it is
  zero exactly when every guard has been dropped.
\<close>

theorem open_connections_outstanding:
  assumes "count_list gs Drop_Guard \<le> count_list gs Take_Guard" and "count_list gs Take_Guard < 2 ^ 64"
  shows "unat (open_connections (fold apply_guard gs new_registry))
    = count_list gs Take_Guard - count_list gs Drop_Guard"
proof -
  have "open_connections (fold apply_guard gs new_registry)
      = of_nat (count_list gs Take_Guard - count_list gs Drop_Guard)"
    using assms(1) by (simp add: open_connections_run new_registry_def)
  then show ?thesis using assms(2) by (simp add: unat_of_nat)
qed

theorem open_connections_outstanding_witness:
  "unat (open_connections (fold apply_guard [Take_Guard, Take_Guard, Drop_Guard] new_registry)) = 1"
  using open_connections_outstanding [of "[Take_Guard, Take_Guard, Drop_Guard]"] by simp

end
