(* ===== verification/Io.thy ===== *)
theory Io
  imports Stats
begin

text \<open>
  The stream adapters of the data path (\<open>src/io.rs\<close>): \<open>ConnLog\<close>, \<open>Counting\<close> and
  \<open>Rewind\<close>. The wrapped stream is a parameter, given by its poll functions
  (\<open>stream_ops\<close>, tokio's \<open>AsyncRead\<close> and \<open>AsyncWrite\<close>); an adapter maps the
  operations of the inner stream to its own, so that \<open>Counting<Rewind<S>>\<close> is the
  composition of the two. What tokio documents of \<open>poll_read\<close> is the locale
  \<open>async_read\<close>.
\<close>

section \<open>Polls and buffers\<close>

datatype 'a poll = Pending | Ready 'a

record read_buf =
  filled :: bytes
  capacity :: nat

definition buf_remaining :: "read_buf \<Rightarrow> nat" where
  "buf_remaining b = capacity b - length (filled b)"

definition put_slice :: "bytes \<Rightarrow> read_buf \<Rightarrow> read_buf" where
  "put_slice bs b = b\<lparr>filled := filled b @ bs\<rparr>"

record 's stream_ops =
  op_read :: "'s \<Rightarrow> read_buf \<Rightarrow> 's \<times> read_buf \<times> (io_error, unit) result poll"
  op_write :: "'s \<Rightarrow> bytes \<Rightarrow> 's \<times> (io_error, nat) result poll"
  op_write_vectored :: "'s \<Rightarrow> bytes list \<Rightarrow> 's \<times> (io_error, nat) result poll"
  op_is_write_vectored :: "'s \<Rightarrow> bool"
  op_flush :: "'s \<Rightarrow> 's \<times> (io_error, unit) result poll"
  op_shutdown :: "'s \<Rightarrow> 's \<times> (io_error, unit) result poll"

section \<open>ConnLog\<close>

text \<open>
  A log line is the connection id and the body; the wall-clock prefix of the line is
  left out. Lines are collected in the order in which they are written to stderr.
\<close>

record conn_log =
  log_id :: u64
  target :: string

definition new_conn_log :: "u64 \<Rightarrow> string \<Rightarrow> conn_log" where
  "new_conn_log i tgt = \<lparr>log_id = i, target = tgt\<rparr>"

type_synonym log_line = "u64 \<times> string"

definition log_event :: "conn_log \<Rightarrow> string \<Rightarrow> log_line" where
  "log_event l body = (log_id l, body)"

definition log_tx :: "conn_log \<Rightarrow> nat \<Rightarrow> log_line" where
  "log_tx l n = log_event l (''TX    -> '' @ show_nat n @ '' bytes '' @ target l)"

definition log_rx :: "conn_log \<Rightarrow> nat \<Rightarrow> log_line" where
  "log_rx l n = log_event l (''RX    <- '' @ show_nat n @ '' bytes '' @ target l)"

definition log_opt :: "conn_log option \<Rightarrow> (conn_log \<Rightarrow> log_line) \<Rightarrow> log_line list" where
  "log_opt l f = (case l of None \<Rightarrow> [] | Some l' \<Rightarrow> [f l'])"

section \<open>Counting\<close>

datatype side = Client | Upstream

record 's counting =
  c_inner :: 's
  c_stats :: handle
  c_side :: side
  c_log :: "conn_log option"

definition new_counting :: "'s \<Rightarrow> handle \<Rightarrow> side \<Rightarrow> conn_log option \<Rightarrow> 's counting" where
  "new_counting s h sd l = \<lparr>c_inner = s, c_stats = h, c_side = sd, c_log = l\<rparr>"

text \<open>A counting stream together with what it shares: the registry and stderr.\<close>

type_synonym 's counted = "'s counting \<times> registry \<times> log_line list"

definition on_read :: "'s counting \<Rightarrow> nat \<Rightarrow> registry \<times> log_line list \<Rightarrow> registry \<times> log_line list" where
  "on_read c n = (\<lambda>(r, out).
     if n = 0 then (r, out)
     else case c_side c of
       Client \<Rightarrow> (upd_cell (c_stats c) (add_egress (of_nat n)) r, out @ log_opt (c_log c) (\<lambda>l. log_tx l n))
     | Upstream \<Rightarrow> (upd_cell (c_stats c) (add_ingress (of_nat n)) r, out @ log_opt (c_log c) (\<lambda>l. log_rx l n)))"

definition on_write :: "'s counting \<Rightarrow> nat \<Rightarrow> registry \<times> log_line list \<Rightarrow> registry \<times> log_line list" where
  "on_write c n = (\<lambda>(r, out).
     if n = 0 then (r, out)
     else case c_side c of
       Client \<Rightarrow> (upd_cell (c_stats c) (add_ingress (of_nat n)) r, out @ log_opt (c_log c) (\<lambda>l. log_rx l n))
     | Upstream \<Rightarrow> (upd_cell (c_stats c) (add_egress (of_nat n)) r, out @ log_opt (c_log c) (\<lambda>l. log_tx l n)))"

definition counting_read ::
  "'s stream_ops \<Rightarrow> 's counted \<Rightarrow> read_buf \<Rightarrow> 's counted \<times> read_buf \<times> (io_error, unit) result poll" where
  "counting_read ops = (\<lambda>(c, sh) b.
     let before = length (filled b) in
     case op_read ops (c_inner c) b of (s', b', p) \<Rightarrow>
       ((c\<lparr>c_inner := s'\<rparr>,
         (case p of Ready (Inr _) \<Rightarrow> on_read c (length (filled b') - before) sh | _ \<Rightarrow> sh)),
        b', p))"

definition counting_write ::
  "'s stream_ops \<Rightarrow> 's counted \<Rightarrow> bytes \<Rightarrow> 's counted \<times> (io_error, nat) result poll" where
  "counting_write ops = (\<lambda>(c, sh) buf.
     case op_write ops (c_inner c) buf of (s', p) \<Rightarrow>
       ((c\<lparr>c_inner := s'\<rparr>, (case p of Ready (Inr n) \<Rightarrow> on_write c n sh | _ \<Rightarrow> sh)), p))"

definition counting_write_vectored ::
  "'s stream_ops \<Rightarrow> 's counted \<Rightarrow> bytes list \<Rightarrow> 's counted \<times> (io_error, nat) result poll" where
  "counting_write_vectored ops = (\<lambda>(c, sh) bufs.
     case op_write_vectored ops (c_inner c) bufs of (s', p) \<Rightarrow>
       ((c\<lparr>c_inner := s'\<rparr>, (case p of Ready (Inr n) \<Rightarrow> on_write c n sh | _ \<Rightarrow> sh)), p))"

definition counting_ops :: "'s stream_ops \<Rightarrow> ('s counted) stream_ops" where
  "counting_ops ops =
     \<lparr>op_read = counting_read ops,
      op_write = counting_write ops,
      op_write_vectored = counting_write_vectored ops,
      op_is_write_vectored = (\<lambda>(c, sh). op_is_write_vectored ops (c_inner c)),
      op_flush = (\<lambda>(c, sh). case op_flush ops (c_inner c) of (s', p) \<Rightarrow> ((c\<lparr>c_inner := s'\<rparr>, sh), p)),
      op_shutdown = (\<lambda>(c, sh). case op_shutdown ops (c_inner c) of (s', p) \<Rightarrow> ((c\<lparr>c_inner := s'\<rparr>, sh), p))\<rparr>"

section \<open>Rewind\<close>

record 's rewind =
  rw_prefix :: "bytes option"
  rw_offset :: nat
  rw_inner :: 's

definition new_rewind :: "bytes \<Rightarrow> 's \<Rightarrow> 's rewind" where
  "new_rewind pre s =
     \<lparr>rw_prefix = (if pre \<noteq> [] then Some pre else None), rw_offset = 0, rw_inner = s\<rparr>"

definition rewind_read ::
  "'s stream_ops \<Rightarrow> 's rewind \<Rightarrow> read_buf \<Rightarrow> 's rewind \<times> read_buf \<times> (io_error, unit) result poll" where
  "rewind_read ops rw b =
     (case rw_prefix rw of
        Some bs \<Rightarrow>
          (let rest = drop (rw_offset rw) bs;
               n = min (length rest) (buf_remaining b);
               offset' = rw_offset rw + n
           in (rw\<lparr>rw_offset := offset',
                  rw_prefix := (if offset' = length bs then None else Some bs)\<rparr>,
               put_slice (take n rest) b, Ready (Ok ())))
      | None \<Rightarrow>
          (case op_read ops (rw_inner rw) b of (s', b', p) \<Rightarrow> (rw\<lparr>rw_inner := s'\<rparr>, b', p)))"

definition rewind_ops :: "'s stream_ops \<Rightarrow> ('s rewind) stream_ops" where
  "rewind_ops ops =
     \<lparr>op_read = rewind_read ops,
      op_write = (\<lambda>rw buf. case op_write ops (rw_inner rw) buf of (s', p) \<Rightarrow> (rw\<lparr>rw_inner := s'\<rparr>, p)),
      op_write_vectored =
        (\<lambda>rw bufs. case op_write_vectored ops (rw_inner rw) bufs of (s', p) \<Rightarrow> (rw\<lparr>rw_inner := s'\<rparr>, p)),
      op_is_write_vectored = (\<lambda>rw. op_is_write_vectored ops (rw_inner rw)),
      op_flush = (\<lambda>rw. case op_flush ops (rw_inner rw) of (s', p) \<Rightarrow> (rw\<lparr>rw_inner := s'\<rparr>, p)),
      op_shutdown = (\<lambda>rw. case op_shutdown ops (rw_inner rw) of (s', p) \<Rightarrow> (rw\<lparr>rw_inner := s'\<rparr>, p))\<rparr>"

section \<open>Sequences of polls\<close>

text \<open>
  A client of a stream (tokio's copy loop, hyper) is a sequence of polls; the
  outcome of each is what the poll returned. A read outcome keeps the buffer before
  and after.
\<close>

datatype poll_op =
    Poll_Read read_buf
  | Poll_Write bytes
  | Poll_Write_Vectored "bytes list"
  | Poll_Flush
  | Poll_Shutdown

datatype outcome =
    Read_Out read_buf read_buf "(io_error, unit) result poll"
  | Write_Out "(io_error, nat) result poll"
  | Unit_Out "(io_error, unit) result poll"

fun poll_step :: "'s stream_ops \<Rightarrow> poll_op \<Rightarrow> 's \<Rightarrow> 's \<times> outcome" where
  "poll_step ops (Poll_Read b) s = (case op_read ops s b of (s', b', p) \<Rightarrow> (s', Read_Out b b' p))"
| "poll_step ops (Poll_Write bs) s = (case op_write ops s bs of (s', p) \<Rightarrow> (s', Write_Out p))"
| "poll_step ops (Poll_Write_Vectored bss) s = (case op_write_vectored ops s bss of (s', p) \<Rightarrow> (s', Write_Out p))"
| "poll_step ops Poll_Flush s = (case op_flush ops s of (s', p) \<Rightarrow> (s', Unit_Out p))"
| "poll_step ops Poll_Shutdown s = (case op_shutdown ops s of (s', p) \<Rightarrow> (s', Unit_Out p))"

fun run_polls :: "'s stream_ops \<Rightarrow> poll_op list \<Rightarrow> 's \<Rightarrow> 's \<times> outcome list" where
  "run_polls ops [] s = (s, [])"
| "run_polls ops (p # ps) s =
     (case poll_step ops p s of (s', o1) \<Rightarrow> case run_polls ops ps s' of (s'', os) \<Rightarrow> (s'', o1 # os))"

text \<open>The bytes that the reads delivered, and the number of bytes that the writes accepted.\<close>

fun read_bytes :: "outcome \<Rightarrow> bytes" where
  "read_bytes (Read_Out b b' (Ready (Inr _))) = drop (length (filled b)) (filled b')"
| "read_bytes _ = []"

fun written :: "outcome \<Rightarrow> nat" where
  "written (Write_Out (Ready (Inr n))) = n"
| "written _ = 0"

definition all_read :: "outcome list \<Rightarrow> bytes" where
  "all_read os = concat (map read_bytes os)"

definition all_written :: "outcome list \<Rightarrow> nat" where
  "all_written os = sum_list (map written os)"

section \<open>Counting is transparent and exact\<close>

text \<open>What a read of \<open>nr\<close> and a write of \<open>nw\<close> bytes add to a cell, seen from a side.\<close>

definition tally :: "side \<Rightarrow> nat \<Rightarrow> nat \<Rightarrow> endpoint_stats \<Rightarrow> endpoint_stats" where
  "tally sd nr nw s =
     (case sd of
        Client \<Rightarrow> s\<lparr>egress := egress s + of_nat nr, ingress := ingress s + of_nat nw\<rparr>
      | Upstream \<Rightarrow> s\<lparr>ingress := ingress s + of_nat nr, egress := egress s + of_nat nw\<rparr>)"

lemma tally_0 [simp]: "tally sd 0 0 s = s"
  by (cases sd) (simp_all add: tally_def)

lemma tally_00 [simp]: "tally sd 0 0 = (\<lambda>s. s)"
  by (rule ext) simp

lemma tally_tally: "tally sd a b (tally sd a' b' s) = tally sd (a' + a) (b' + b) s"
  by (cases sd) (simp_all add: tally_def algebra_simps)

lemma upd_cell_id [simp]: "upd_cell h (\<lambda>s. s) r = r"
  by (simp add: upd_cell_def)

lemma upd_cell_upd_cell: "upd_cell h f (upd_cell h g r) = upd_cell h (\<lambda>s. f (g s)) r"
  by (cases "h < length (heap r)") (simp_all add: upd_cell_def list_update_beyond)

lemma on_read_registry: "fst (on_read c n (r, out)) = upd_cell (c_stats c) (tally (c_side c) n 0) r"
  by (cases "n = 0"; cases "c_side c")
     (simp_all add: on_read_def upd_cell_def tally_def add_egress_def add_ingress_def)

lemma on_write_registry: "fst (on_write c n (r, out)) = upd_cell (c_stats c) (tally (c_side c) 0 n) r"
  by (cases "n = 0"; cases "c_side c")
     (simp_all add: on_write_def upd_cell_def tally_def add_egress_def add_ingress_def)

lemmas stream_op_defs =
  counting_ops_def counting_read_def counting_write_def counting_write_vectored_def

lemma counting_step:
  "case poll_step ops p (c_inner c) of (s', oc) \<Rightarrow>
     \<exists>out'. poll_step (counting_ops ops) p (c, r, out) =
       ((c\<lparr>c_inner := s'\<rparr>, upd_cell (c_stats c) (tally (c_side c) (length (read_bytes oc)) (written oc)) r, out'), oc)"
proof (cases p)
  case (Poll_Read b)
  obtain s' b' q where op: "op_read ops (c_inner c) b = (s', b', q)" by (cases "op_read ops (c_inner c) b")
  show ?thesis
  proof (cases "q = Ready (Ok ())")
    case True
    let ?n = "length (filled b') - length (filled b)"
    obtain out' where "on_read c ?n (r, out) = (upd_cell (c_stats c) (tally (c_side c) ?n 0) r, out')"
      using on_read_registry [of c ?n r out] by (metis prod.collapse)
    then show ?thesis
      using True op by (simp add: Poll_Read stream_op_defs)
  next
    case False
    then have "read_bytes (Read_Out b b' q) = []"
      by (cases "Read_Out b b' q" rule: read_bytes.cases) auto
    then show ?thesis
      using False op by (auto simp: Poll_Read stream_op_defs split: poll.splits sum.splits unit.splits)
  qed
next
  case (Poll_Write bs)
  then show ?thesis
    using on_write_registry [of c _ r out]
    by (auto simp: stream_op_defs prod_eq_iff split: prod.splits poll.splits sum.splits)
next
  case (Poll_Write_Vectored bss)
  then show ?thesis
    using on_write_registry [of c _ r out]
    by (auto simp: stream_op_defs prod_eq_iff split: prod.splits poll.splits sum.splits)
qed (auto simp: stream_op_defs split: prod.splits)

lemma counting_run:
  "case run_polls ops ps (c_inner c) of (s', os) \<Rightarrow>
     \<exists>out'. run_polls (counting_ops ops) ps (c, r, out) =
       ((c\<lparr>c_inner := s'\<rparr>,
         upd_cell (c_stats c) (tally (c_side c) (length (all_read os)) (all_written os)) r, out'), os)"
proof (induction ps arbitrary: c r out)
  case (Cons p ps)
  obtain s1 o1 where 1: "poll_step ops p (c_inner c) = (s1, o1)" by (cases "poll_step ops p (c_inner c)")
  let ?r = "upd_cell (c_stats c) (tally (c_side c) (length (read_bytes o1)) (written o1)) r"
  obtain out1 where step: "poll_step (counting_ops ops) p (c, r, out) = ((c\<lparr>c_inner := s1\<rparr>, ?r, out1), o1)"
    using counting_step [of ops p c r out] 1 by auto
  obtain s2 os where 2: "run_polls ops ps s1 = (s2, os)" by (cases "run_polls ops ps s1")
  obtain out2 where "run_polls (counting_ops ops) ps (c\<lparr>c_inner := s1\<rparr>, ?r, out1) =
      ((c\<lparr>c_inner := s2\<rparr>, upd_cell (c_stats c) (tally (c_side c) (length (all_read os)) (all_written os)) ?r, out2), os)"
    using Cons.IH [of "c\<lparr>c_inner := s1\<rparr>" ?r out1] 2 by auto
  then show ?case
    using 1 2 step
    by (simp add: upd_cell_upd_cell tally_tally all_read_def all_written_def)
qed (simp add: all_read_def all_written_def)

section \<open>The AsyncRead contract\<close>

text \<open>
  What tokio documents of \<open>poll_read\<close>, with \<open>pending s\<close> the bytes that the stream
  will still deliver: a successful read appends some of them, in order, to the
  buffer and within its capacity; a read that is pending or fails delivers nothing;
  the write side takes nothing from the read side.
\<close>

locale async_read =
  fixes ops :: "'s stream_ops" and pending :: "'s \<Rightarrow> bytes" and invar :: "'s \<Rightarrow> bool"
  assumes read_ready: "invar s \<Longrightarrow> op_read ops s b = (s', b', Ready (Ok ())) \<Longrightarrow>
      \<exists>bs. b' = put_slice bs b \<and> length bs \<le> buf_remaining b \<and> pending s = bs @ pending s' \<and> invar s'"
    and read_else: "invar s \<Longrightarrow> op_read ops s b = (s', b', p) \<Longrightarrow> p \<noteq> Ready (Ok ()) \<Longrightarrow>
      b' = b \<and> pending s' = pending s \<and> invar s'"
    and write_keeps: "invar s \<Longrightarrow> op_write ops s bs = (s', q) \<Longrightarrow> pending s' = pending s \<and> invar s'"
    and write_vectored_keeps:
      "invar s \<Longrightarrow> op_write_vectored ops s bss = (s', q) \<Longrightarrow> pending s' = pending s \<and> invar s'"
    and flush_keeps: "invar s \<Longrightarrow> op_flush ops s = (s', u) \<Longrightarrow> pending s' = pending s \<and> invar s'"
    and shutdown_keeps: "invar s \<Longrightarrow> op_shutdown ops s = (s', u) \<Longrightarrow> pending s' = pending s \<and> invar s'"
begin

lemma step_delivers:
  assumes "invar s" and "poll_step ops p s = (s', oc)"
  shows "pending s = read_bytes oc @ pending s' \<and> invar s'"
proof (cases p)
  case (Poll_Read b)
  obtain b' q where op: "op_read ops s b = (s', b', q)" and oc: "oc = Read_Out b b' q"
    using assms(2) Poll_Read by (auto split: prod.splits)
  show ?thesis
  proof (cases "q = Ready (Ok ())")
    case True
    then show ?thesis using read_ready [OF assms(1), of b s' b'] op oc by (auto simp: put_slice_def)
  next
    case False
    then have "read_bytes oc = []" using oc by (cases oc rule: read_bytes.cases) auto
    with False show ?thesis using read_else [OF assms(1) op] by simp
  qed
qed (use assms(2) in \<open>auto split: prod.splits dest: write_keeps [OF assms(1)]
      write_vectored_keeps [OF assms(1)] flush_keeps [OF assms(1)] shutdown_keeps [OF assms(1)]\<close>)

lemma run_delivers:
  "invar s \<Longrightarrow> run_polls ops ps s = (s', os) \<Longrightarrow> pending s = all_read os @ pending s' \<and> invar s'"
proof (induction ps arbitrary: s os)
  case (Cons p ps)
  then obtain s1 o1 os1 where "poll_step ops p s = (s1, o1)" "run_polls ops ps s1 = (s', os1)" "os = o1 # os1"
    by (auto split: prod.splits)
  with step_delivers [OF Cons.prems(1)] Cons.IH [of s1 os1] show ?case
    by (simp add: all_read_def)
qed (simp add: all_read_def)

end

text \<open>Both adapters keep the contract: a rewound stream delivers its prefix first.\<close>

definition rewind_pending :: "('s \<Rightarrow> bytes) \<Rightarrow> 's rewind \<Rightarrow> bytes" where
  "rewind_pending pending rw =
     (case rw_prefix rw of None \<Rightarrow> [] | Some bs \<Rightarrow> drop (rw_offset rw) bs) @ pending (rw_inner rw)"

definition rewind_invar :: "('s \<Rightarrow> bool) \<Rightarrow> 's rewind \<Rightarrow> bool" where
  "rewind_invar invar rw \<longleftrightarrow> invar (rw_inner rw)
     \<and> (case rw_prefix rw of None \<Rightarrow> True | Some bs \<Rightarrow> rw_offset rw < length bs)"

definition counted_pending :: "('s \<Rightarrow> bytes) \<Rightarrow> 's counted \<Rightarrow> bytes" where
  "counted_pending pending = (\<lambda>(c, sh). pending (c_inner c))"

definition counted_invar :: "('s \<Rightarrow> bool) \<Rightarrow> 's counted \<Rightarrow> bool" where
  "counted_invar invar = (\<lambda>(c, sh). invar (c_inner c))"

lemma rewind_read_prefix:
  assumes "rw_prefix rw = Some bs" and "rewind_invar invar rw"
    and "op_read (rewind_ops ops) rw b = (rw', b', p)"
  shows "\<exists>ds. p = Ready (Ok ()) \<and> b' = put_slice ds b \<and> length ds \<le> buf_remaining b
    \<and> rewind_pending pending rw = ds @ rewind_pending pending rw' \<and> rewind_invar invar rw'"
proof -
  let ?rest = "drop (rw_offset rw) bs"
  let ?n = "min (length ?rest) (buf_remaining b)"
  have rw': "rw' = rw\<lparr>rw_offset := rw_offset rw + ?n,
      rw_prefix := (if rw_offset rw + ?n = length bs then None else Some bs)\<rparr>"
    and res: "b' = put_slice (take ?n ?rest) b" "p = Ready (Ok ())"
    using assms by (simp_all add: rewind_ops_def rewind_read_def Let_def)
  have "?rest = take ?n ?rest @ drop (rw_offset rw + ?n) bs"
    by (metis append_take_drop_id drop_drop add.commute)
  moreover have "drop (rw_offset rw + ?n) bs = [] \<longleftrightarrow> rw_offset rw + ?n = length bs"
    using assms(1,2) by (auto simp: rewind_invar_def)
  ultimately have "rewind_pending pending rw = take ?n ?rest @ rewind_pending pending rw'"
    using assms(1) by (simp add: rewind_pending_def rw')
  moreover have "rewind_invar invar rw'"
    using assms(1,2) by (auto simp: rewind_invar_def rw')
  ultimately show ?thesis using res by (intro exI [of _ "take ?n ?rest"]) simp
qed

context async_read
begin

lemma rewound: "async_read (rewind_ops ops) (rewind_pending pending) (rewind_invar invar)"
proof
  fix s b s' b'
  assume "rewind_invar invar s" "op_read (rewind_ops ops) s b = (s', b', Ready (Ok ()))"
  then show "\<exists>bs. b' = put_slice bs b \<and> length bs \<le> buf_remaining b
      \<and> rewind_pending pending s = bs @ rewind_pending pending s' \<and> rewind_invar invar s'"
  proof (cases "rw_prefix s")
    case None
    with \<open>rewind_invar invar s\<close> \<open>op_read (rewind_ops ops) s b = _\<close> show ?thesis
      using read_ready [of "rw_inner s" b]
      by (auto simp: rewind_ops_def rewind_read_def rewind_pending_def rewind_invar_def
          split: prod.splits)
  qed (use rewind_read_prefix [of s _ invar ops b s' b' _ pending] in auto)
next
  fix s b s' b' p
  assume "rewind_invar invar s" "op_read (rewind_ops ops) s b = (s', b', p)" "p \<noteq> Ready (Ok ())"
  then show "b' = b \<and> rewind_pending pending s' = rewind_pending pending s \<and> rewind_invar invar s'"
  proof (cases "rw_prefix s")
    case None
    with \<open>rewind_invar invar s\<close> \<open>op_read (rewind_ops ops) s b = _\<close> \<open>p \<noteq> _\<close> show ?thesis
      using read_else [of "rw_inner s" b]
      by (auto simp: rewind_ops_def rewind_read_def rewind_pending_def rewind_invar_def
          split: prod.splits)
  qed (use rewind_read_prefix [of s _ invar ops b s' b' p pending] in auto)
qed (auto simp: rewind_ops_def rewind_pending_def rewind_invar_def split: prod.splits option.splits
      dest: write_keeps write_vectored_keeps flush_keeps shutdown_keeps)

text \<open>Every run over a stream with a replayed prefix delivers the prefix and then the stream.\<close>

lemma rewound_run:
  assumes "invar s" and "run_polls (rewind_ops ops) ps (new_rewind pre s) = (rw, os)"
  shows "pre @ pending s = all_read os @ rewind_pending pending rw" and "rewind_invar invar rw"
proof -
  have "rewind_invar invar (new_rewind pre s)"
    using assms(1) by (simp add: rewind_invar_def new_rewind_def)
  note run = async_read.run_delivers [OF rewound this assms(2)]
  from run show "rewind_invar invar rw" by simp
  from run show "pre @ pending s = all_read os @ rewind_pending pending rw"
    by (simp add: rewind_pending_def new_rewind_def split: if_splits)
qed

end

lemma counted_read_inner:
  assumes "op_read (counting_ops ops) cs b = (cs', b', p)"
  shows "\<exists>s'. op_read ops (c_inner (fst cs)) b = (s', b', p) \<and> c_inner (fst cs') = s'"
  using assms by (cases cs) (auto simp: stream_op_defs Let_def split: prod.splits)

context async_read
begin

lemma counted: "async_read (counting_ops ops) (counted_pending pending) (counted_invar invar)"
proof
  fix cs b cs' b'
  assume inv: "counted_invar invar cs" and rd: "op_read (counting_ops ops) cs b = (cs', b', Ready (Ok ()))"
  from counted_read_inner [OF rd]
  have "op_read ops (c_inner (fst cs)) b = (c_inner (fst cs'), b', Ready (Ok ()))" by auto
  from read_ready [OF _ this] inv
  show "\<exists>bs. b' = put_slice bs b \<and> length bs \<le> buf_remaining b
      \<and> counted_pending pending cs = bs @ counted_pending pending cs' \<and> counted_invar invar cs'"
    by (auto simp: counted_invar_def counted_pending_def split_beta)
next
  fix cs b cs' b' p
  assume inv: "counted_invar invar cs" and rd: "op_read (counting_ops ops) cs b = (cs', b', p)"
    and p: "p \<noteq> Ready (Ok ())"
  from counted_read_inner [OF rd] have "op_read ops (c_inner (fst cs)) b = (c_inner (fst cs'), b', p)" by auto
  from read_else [OF _ this p] inv
  show "b' = b \<and> counted_pending pending cs' = counted_pending pending cs \<and> counted_invar invar cs'"
    by (auto simp: counted_invar_def counted_pending_def split_beta)
qed (auto simp: stream_op_defs counted_invar_def counted_pending_def split: prod.splits
      dest: write_keeps write_vectored_keeps flush_keeps shutdown_keeps)

end

text \<open>
  A tunnel endpoint is a stream under both adapters: the rewound stream, the counted
  one, and \<open>Counting<Rewind<S>>\<close>, keep the contract of the stream they wrap.
\<close>

locale tunnel_stream = async_read ops pending invar
  for ops :: "'s stream_ops" and pending :: "'s \<Rightarrow> bytes" and invar :: "'s \<Rightarrow> bool"

sublocale tunnel_stream \<subseteq> rw: async_read "rewind_ops ops" "rewind_pending pending" "rewind_invar invar"
  by (rule rewound)

sublocale tunnel_stream \<subseteq> cr: async_read "counting_ops (rewind_ops ops)"
    "counted_pending (rewind_pending pending)" "counted_invar (rewind_invar invar)"
  by (rule rw.counted)

text \<open>
  The in-memory stream that the unit tests wrap (\<open>std::io::Cursor\<close> for reading,
  \<open>Vec<u8>\<close> for writing): the bytes still to be read, and the bytes written.
\<close>

type_synonym cursor = "bytes \<times> bytes"

definition cursor_ops :: "cursor stream_ops" where
  "cursor_ops =
     \<lparr>op_read = (\<lambda>(rd, wr) b. let n = min (length rd) (buf_remaining b)
                              in ((drop n rd, wr), put_slice (take n rd) b, Ready (Ok ()))),
      op_write = (\<lambda>(rd, wr) bs. ((rd, wr @ bs), Ready (Ok (length bs)))),
      op_write_vectored = (\<lambda>(rd, wr) bss. ((rd, wr @ concat bss), Ready (Ok (length (concat bss))))),
      op_is_write_vectored = (\<lambda>_. True),
      op_flush = (\<lambda>s. (s, Ready (Ok ()))),
      op_shutdown = (\<lambda>s. (s, Ready (Ok ())))\<rparr>"

interpretation cursor: tunnel_stream cursor_ops fst "\<lambda>_. True"
  by unfold_locales (auto simp: cursor_ops_def Let_def)

section \<open>Properties\<close>

text \<open>
  C16: Wrapping a stream in \<open>Counting\<close> changes nothing its user can see: for every
  sequence of polls the outcomes, and the state the inner stream ends in, are those
  of the inner stream alone.
\<close>

theorem counting_transparent:
  "snd (run_polls (counting_ops ops) ps (c, r, out)) = snd (run_polls ops ps (c_inner c))
    \<and> c_inner (fst (fst (run_polls (counting_ops ops) ps (c, r, out)))) = fst (run_polls ops ps (c_inner c))"
  using counting_run [of ops ps c r out] by (auto split: prod.splits)

text \<open>
  C15: \<open>Counting\<close> is exact: over any sequence of polls, the row of the endpoint grows
  by the number of bytes the reads delivered and by the number the writes accepted,
  read bytes as egress on the client side and as ingress on the upstream side, and no
  other row changes.
\<close>

theorem counting_exact:
  assumes "registry_ok r" and "map_of (endpoints r) host = Some (c_stats c)" and "row r host = Some s"
    and "run_polls (counting_ops ops) ps (c, r, out) = ((c', r', out'), os)"
  shows "row r' = (row r)(host \<mapsto>
    (case c_side c of
       Client \<Rightarrow> s\<lparr>egress := egress s + of_nat (length (all_read os)),
                    ingress := ingress s + of_nat (all_written os)\<rparr>
     | Upstream \<Rightarrow> s\<lparr>ingress := ingress s + of_nat (length (all_read os)),
                      egress := egress s + of_nat (all_written os)\<rparr>))"
proof -
  have "r' = upd_cell (c_stats c) (tally (c_side c) (length (all_read os)) (all_written os)) r"
    using counting_run [of ops ps c r out] assms(4) by (auto split: prod.splits)
  then show ?thesis using assms(1-3) by (simp add: reg.bump_row tally_def split: side.splits)
qed

theorem counting_exact_witness:
  "row (fst (snd (fst (run_polls (counting_ops cursor_ops)
      [Poll_Read \<lparr>filled = [], capacity = 2\<rparr>, Poll_Write [7, 8, 9], Poll_Read \<lparr>filled = [], capacity = 2\<rparr>]
      (new_counting ([1, 2, 3], []) 0 Client None, two_hosts, [])))))
    = (row two_hosts)(''1.2.3.4'' \<mapsto> \<lparr>ingress = 8, egress = 10, connections = 1, ip_slot = None\<rparr>)"
proof -
  let ?ps = "[Poll_Read \<lparr>filled = [], capacity = 2\<rparr>, Poll_Write [7, 8, 9], Poll_Read \<lparr>filled = [], capacity = 2\<rparr>]"
  let ?c = "new_counting ([1, 2, 3], []) 0 Client None :: cursor counting"
  obtain c' r' out' os where run: "run_polls (counting_ops cursor_ops) ?ps (?c, two_hosts, []) = ((c', r', out'), os)"
    by (metis prod.collapse)
  have "os = snd (run_polls cursor_ops ?ps ([1, 2, 3], []))"
    using counting_run [of cursor_ops ?ps ?c two_hosts "[]"] run
    by (auto simp: new_counting_def split: prod.splits)
  then have "length (all_read os) = 3" "all_written os = 3"
    by (simp_all add: cursor_ops_def buf_remaining_def put_slice_def all_read_def all_written_def)
  moreover have "map_of (endpoints two_hosts) ''1.2.3.4'' = Some (c_stats ?c)"
      "row two_hosts ''1.2.3.4'' = Some \<lparr>ingress = 5, egress = 7, connections = 1, ip_slot = None\<rparr>"
    by (simp_all add: two_hosts_def row_def cell_def new_counting_def)
  ultimately have "row r' = (row two_hosts)(''1.2.3.4'' \<mapsto> \<lparr>ingress = 8, egress = 10, connections = 1, ip_slot = None\<rparr>)"
    using counting_exact [OF registry_ok_two_hosts _ _ run] by (simp add: new_counting_def)
  then show ?thesis by (simp only: run fst_conv snd_conv)
qed

text \<open>
  C17: \<open>Rewind\<close> neither loses nor repeats nor reorders bytes: for every inner stream
  that keeps tokio's read contract and every sequence of polls, what was read
  followed by what is still to come is the replayed prefix followed by the bytes of
  the inner stream.
\<close>

theorem rewind_replays:
  assumes "async_read ops pending invar" and "invar s"
    and "run_polls (rewind_ops ops) ps (new_rewind pre s) = (rw, os)"
  shows "pre @ pending s = all_read os @ rewind_pending pending rw"
  by (rule async_read.rewound_run(1) [OF assms])

theorem rewind_replays_witness:
  "\<exists>rw os. run_polls (rewind_ops cursor_ops) [Poll_Read \<lparr>filled = [], capacity = 3\<rparr>,
      Poll_Read \<lparr>filled = [], capacity = 3\<rparr>] (new_rewind [1, 2] ([3, 4], [])) = (rw, os)
    \<and> [1, 2] @ [3, 4] = all_read os @ rewind_pending fst rw"
proof -
  obtain rw os where run: "run_polls (rewind_ops cursor_ops) [Poll_Read \<lparr>filled = [], capacity = 3\<rparr>,
      Poll_Read \<lparr>filled = [], capacity = 3\<rparr>] (new_rewind [1, 2] ([3, 4], [])) = (rw, os)"
    by (metis prod.collapse)
  show ?thesis
    using rewind_replays [OF cursor.async_read_axioms _ run] run by auto
qed

end
