(* ===== verification/Socks.thy ===== *)
theory Socks
  imports Rust_Net
begin

text \<open>
  The SOCKS5 codec (\<open>src/socks.rs\<close>): the handshake of a control connection, the
  relay header of a datagram, and the replies. The connection is a parameter, given
  by tokio's \<open>read_exact\<close> and \<open>write_all\<close> (\<open>sock_ops\<close>); what tokio documents of
  them is the locale \<open>byte_stream\<close>, and of a connection on which no transport error
  occurs the locale \<open>healthy_stream\<close>. The wire grammar of RFC 1928 addresses
  (\<open>address\<close>, \<open>address_bytes\<close>) is the specification the codec is proved against.
\<close>

section \<open>Constants and data\<close>

definition VERSION :: u8 where "VERSION = 0x05"
definition GREETING_BYTE :: u8 where "GREETING_BYTE = VERSION"
definition METHOD_NONE :: u8 where "METHOD_NONE = 0x00"
definition METHOD_UNACCEPTABLE :: u8 where "METHOD_UNACCEPTABLE = 0xFF"
definition CMD_CONNECT :: u8 where "CMD_CONNECT = 0x01"
definition CMD_UDP_ASSOCIATE :: u8 where "CMD_UDP_ASSOCIATE = 0x03"
definition ATYP_IPV4 :: u8 where "ATYP_IPV4 = 0x01"
definition ATYP_DOMAIN :: u8 where "ATYP_DOMAIN = 0x03"
definition ATYP_IPV6 :: u8 where "ATYP_IPV6 = 0x04"
definition UDP_HEADER_PREFIX :: nat where "UDP_HEADER_PREFIX = 4"
definition REP_SUCCESS :: u8 where "REP_SUCCESS = 0x00"
definition REP_GENERAL_FAILURE :: u8 where "REP_GENERAL_FAILURE = 0x01"
definition REP_CONNECTION_REFUSED :: u8 where "REP_CONNECTION_REFUSED = 0x05"
definition REP_COMMAND_NOT_SUPPORTED :: u8 where "REP_COMMAND_NOT_SUPPORTED = 0x07"
definition REP_ADDRESS_NOT_SUPPORTED :: u8 where "REP_ADDRESS_NOT_SUPPORTED = 0x08"

lemmas socks_consts [wire_defs] =
  VERSION_def GREETING_BYTE_def METHOD_NONE_def METHOD_UNACCEPTABLE_def CMD_CONNECT_def
  CMD_UDP_ASSOCIATE_def ATYP_IPV4_def ATYP_DOMAIN_def ATYP_IPV6_def UDP_HEADER_PREFIX_def
  REP_SUCCESS_def REP_GENERAL_FAILURE_def REP_CONNECTION_REFUSED_def
  REP_COMMAND_NOT_SUPPORTED_def REP_ADDRESS_NOT_SUPPORTED_def

record request =
  req_host :: string
  req_port :: u16

datatype command = Connect request | UdpAssociate request

datatype socks_error =
    Io_Error io_error
  | UnsupportedVersion u8
  | NoAcceptableMethod
  | UnsupportedCommand u8
  | UnsupportedAddressType u8

fun reply_code :: "socks_error \<Rightarrow> u8" where
  "reply_code (UnsupportedCommand _) = REP_COMMAND_NOT_SUPPORTED"
| "reply_code (UnsupportedAddressType _) = REP_ADDRESS_NOT_SUPPORTED"
| "reply_code _ = REP_GENERAL_FAILURE"

text \<open>
  The format \<open>{:#04x}\<close> of a byte: a prefix and two hexadecimal digits. The text of an
  \<open>io::Error\<close> comes from the operating system and is an argument.
\<close>

definition fmt_04x :: "u8 \<Rightarrow> string" where
  "fmt_04x b = ''0x'' @ (if b < 16 then ''0'' else []) @ show_hex (unat b)"

fun fmt_error :: "(io_error \<Rightarrow> string) \<Rightarrow> socks_error \<Rightarrow> string" where
  "fmt_error show_io (Io_Error e) = ''socks5 handshake io error: '' @ show_io e"
| "fmt_error show_io (UnsupportedVersion v) = ''unsupported socks version '' @ fmt_04x v"
| "fmt_error show_io NoAcceptableMethod = ''client offered no acceptable authentication method''"
| "fmt_error show_io (UnsupportedCommand c) = ''unsupported socks command '' @ fmt_04x c"
| "fmt_error show_io (UnsupportedAddressType a) = ''unsupported address type '' @ fmt_04x a"

text \<open>\<open>Error::source\<close>.\<close>

fun error_source :: "socks_error \<Rightarrow> io_error option" where
  "error_source (Io_Error e) = Some e"
| "error_source _ = None"

record datagram =
  dg_host :: string
  dg_port :: u16
  payload :: bytes

datatype datagram_error =
    Truncated
  | UnsupportedDatagramAddress u8
  | Fragmented u8

fun fmt_datagram_error :: "datagram_error \<Rightarrow> string" where
  "fmt_datagram_error Truncated = ''truncated udp relay header''"
| "fmt_datagram_error (UnsupportedDatagramAddress a) = ''unsupported address type '' @ fmt_04x a"
| "fmt_datagram_error (Fragmented frag) =
     ''fragmented datagram (FRAG '' @ fmt_04x frag @ '') is not supported''"

section \<open>The handshake\<close>

record 's sock_ops =
  read_exact :: "'s \<Rightarrow> nat \<Rightarrow> 's \<times> (io_error, bytes) result"
  write_all :: "'s \<Rightarrow> bytes \<Rightarrow> 's \<times> (io_error, unit) result"

text \<open>
  The operator \<open>?\<close> on a call that also changes the stream: \<open>and_then\<close> passes an error
  on, \<open>try_io\<close> first converts it with \<open>From<io::Error> for Error\<close>.
\<close>

definition and_then ::
  "'s \<times> ('e, 'a) result \<Rightarrow> ('s \<Rightarrow> 'a \<Rightarrow> 's \<times> ('e, 'b) result) \<Rightarrow> 's \<times> ('e, 'b) result" where
  "and_then m k = (case m of (s, Inl e) \<Rightarrow> (s, Inl e) | (s, Inr a) \<Rightarrow> k s a)"

definition try_io ::
  "'s \<times> (io_error, 'a) result \<Rightarrow> ('s \<Rightarrow> 'a \<Rightarrow> 's \<times> (socks_error, 'b) result)
    \<Rightarrow> 's \<times> (socks_error, 'b) result" where
  "try_io m k = (case m of (s, Inl e) \<Rightarrow> (s, Inl (Io_Error e)) | (s, Inr a) \<Rightarrow> k s a)"

text \<open>How both codecs turn the bytes of a domain name into a host.\<close>

definition normal_host :: "bytes \<Rightarrow> string" where
  "normal_host bs = to_ascii_lowercase (trim_end_matches (CHR ''.'') (from_utf8_lossy bs))"

definition read_host ::
  "('s, 'x) sock_ops_scheme \<Rightarrow> u8 \<Rightarrow> 's \<Rightarrow> 's \<times> (socks_error, string) result" where
  "read_host ops atyp s =
     (if atyp = ATYP_IPV4 then
        try_io (read_exact ops s 4) (\<lambda>s o4. (s, Ok (show_ip (ipv4_from o4))))
      else if atyp = ATYP_IPV6 then
        try_io (read_exact ops s 16) (\<lambda>s o16. (s, Ok (show_ip (ipv6_from o16))))
      else if atyp = ATYP_DOMAIN then
        try_io (read_exact ops s 1) (\<lambda>s len.
        try_io (read_exact ops s (unat (len ! 0))) (\<lambda>s name. (s, Ok (normal_host name))))
      else (s, Err (UnsupportedAddressType atyp)))"

definition command_of :: "u8 \<Rightarrow> request \<Rightarrow> (socks_error, command) result" where
  "command_of cmd req =
     (if cmd = CMD_CONNECT then Ok (Connect req)
      else if cmd = CMD_UDP_ASSOCIATE then Ok (UdpAssociate req)
      else Err (UnsupportedCommand cmd))"

definition accept ::
  "('s, 'x) sock_ops_scheme \<Rightarrow> 's \<Rightarrow> 's \<times> (socks_error, command) result" where
  "accept ops s =
     try_io (read_exact ops s 2) (\<lambda>s greeting.
       if greeting ! 0 \<noteq> VERSION then (s, Err (UnsupportedVersion (greeting ! 0)))
       else try_io (read_exact ops s (unat (greeting ! 1))) (\<lambda>s methods.
         if METHOD_NONE \<notin> set methods then
           try_io (write_all ops s [VERSION, METHOD_UNACCEPTABLE]) (\<lambda>s _. (s, Err NoAcceptableMethod))
         else try_io (write_all ops s [VERSION, METHOD_NONE]) (\<lambda>s _.
           try_io (read_exact ops s 4) (\<lambda>s header.
             if header ! 0 \<noteq> VERSION then (s, Err (UnsupportedVersion (header ! 0)))
             else and_then (read_host ops (header ! 3) s) (\<lambda>s host.
               try_io (read_exact ops s 2) (\<lambda>s port.
                 (s, command_of (header ! 1)
                       \<lparr>req_host = host, req_port = from_be_bytes (port ! 0) (port ! 1)\<rparr>)))))))"

section \<open>Datagrams\<close>

definition read_slice :: "nat \<Rightarrow> bytes \<Rightarrow> nat \<Rightarrow> (datagram_error, bytes \<times> nat) result" where
  "read_slice n buf cursor =
     (if cursor + n \<le> length buf then Ok (take n (drop cursor buf), cursor + n) else Err Truncated)"

definition then_result ::
  "('e, 'a) result \<Rightarrow> ('a \<Rightarrow> ('e, 'b) result) \<Rightarrow> ('e, 'b) result" where
  "then_result m k = (case m of Inl e \<Rightarrow> Inl e | Inr a \<Rightarrow> k a)"

definition parse_host :: "bytes \<Rightarrow> u8 \<Rightarrow> nat \<Rightarrow> (datagram_error, string \<times> nat) result" where
  "parse_host buf atyp cursor =
     (if atyp = ATYP_IPV4 then
        then_result (read_slice 4 buf cursor) (\<lambda>(o4, cursor). Ok (show_ip (ipv4_from o4), cursor))
      else if atyp = ATYP_IPV6 then
        then_result (read_slice 16 buf cursor) (\<lambda>(o16, cursor). Ok (show_ip (ipv6_from o16), cursor))
      else if atyp = ATYP_DOMAIN then
        then_result (read_slice 1 buf cursor) (\<lambda>(len, cursor).
          let end = cursor + unat (len ! 0) in
          if end \<le> length buf
          then Ok (normal_host (take (unat (len ! 0)) (drop cursor buf)), end)
          else Err Truncated)
      else Err (UnsupportedDatagramAddress atyp))"

definition parse_datagram :: "bytes \<Rightarrow> (datagram_error, datagram) result" where
  "parse_datagram buf =
     (if length buf < UDP_HEADER_PREFIX then Err Truncated
      else if buf ! 2 \<noteq> 0 then Err (Fragmented (buf ! 2))
      else then_result (parse_host buf (buf ! 3) UDP_HEADER_PREFIX) (\<lambda>(host, cursor).
           then_result (read_slice 2 buf cursor) (\<lambda>(port, cursor).
             Ok \<lparr>dg_host = host, dg_port = from_be_bytes (port ! 0) (port ! 1),
                 payload = drop cursor buf\<rparr>)))"

text \<open>The address and port fields that \<open>encode_datagram\<close> and \<open>reply_bound\<close> append.\<close>

definition addr_field :: "ip_addr \<Rightarrow> bytes" where
  "addr_field ip = (case ip of V4 _ _ _ _ \<Rightarrow> ATYP_IPV4 | V6 _ _ _ _ _ _ _ _ \<Rightarrow> ATYP_IPV6) # octets ip"

text \<open>The third argument is the reused output buffer.\<close>

definition encode_datagram :: "socket_addr \<Rightarrow> bytes \<Rightarrow> bytes \<Rightarrow> bytes" where
  "encode_datagram from data out =
     (let out = [];
          out = out @ [0x00, 0x00, 0x00];
          out = out @ addr_field (sa_ip from);
          out = out @ to_be_bytes (sa_port from)
      in out @ data)"

section \<open>Replies\<close>

definition reply :: "('s, 'x) sock_ops_scheme \<Rightarrow> 's \<Rightarrow> u8 \<Rightarrow> 's \<times> (io_error, unit) result" where
  "reply ops s code = write_all ops s [VERSION, code, 0x00, ATYP_IPV4, 0, 0, 0, 0, 0, 0]"

definition reply_bound ::
  "('s, 'x) sock_ops_scheme \<Rightarrow> 's \<Rightarrow> u8 \<Rightarrow> socket_addr \<Rightarrow> 's \<times> (io_error, unit) result" where
  "reply_bound ops s code bound =
     (let out = [VERSION, code, 0x00];
          out = out @ addr_field (sa_ip bound);
          out = out @ to_be_bytes (sa_port bound)
      in write_all ops s out)"

section \<open>The wire grammar\<close>

text \<open>
  RFC 1928: \<open>ATYP\<close> and \<open>DST.ADDR\<close> of an address, the client's half of a handshake,
  and the relay header of a datagram.
\<close>

datatype address = Ip ip_addr | Name bytes

fun address_bytes :: "address \<Rightarrow> bytes" where
  "address_bytes (Ip (V4 a b c d)) = 1 # octets (V4 a b c d)"
| "address_bytes (Ip (V6 a b c d e f g h)) = 4 # octets (V6 a b c d e f g h)"
| "address_bytes (Name n) = 3 # of_nat (length n) # n"

fun address_ok :: "address \<Rightarrow> bool" where
  "address_ok (Ip _) = True"
| "address_ok (Name n) = (length n < 256)"

fun address_host :: "address \<Rightarrow> string" where
  "address_host (Ip ip) = show_ip ip"
| "address_host (Name n) = normal_host n"

definition handshake_bytes :: "bytes \<Rightarrow> u8 \<Rightarrow> u8 \<Rightarrow> address \<Rightarrow> u16 \<Rightarrow> bytes" where
  "handshake_bytes ms cmd rsv a p =
     [5, of_nat (length ms)] @ ms @ [5, cmd, rsv] @ address_bytes a @ to_be_bytes p"

definition datagram_bytes :: "u8 \<Rightarrow> u8 \<Rightarrow> address \<Rightarrow> u16 \<Rightarrow> bytes \<Rightarrow> bytes" where
  "datagram_bytes r0 r1 a p data = [r0, r1, 0] @ address_bytes a @ to_be_bytes p @ data"

lemma addr_field_bytes: "addr_field ip = address_bytes (Ip ip)"
  by (cases ip) (simp_all add: addr_field_def wire_defs)

lemma unat_of_length: "length xs < 256 \<Longrightarrow> unat (of_nat (length xs) :: u8) = length xs"
  by (simp add: unat_of_nat)

lemma of_nat_length_take: "n = unat (w :: u8) \<Longrightarrow> n \<le> length xs \<Longrightarrow> of_nat (length (take n xs)) = w"
  by (simp add: min_absorb2)

lemma octets_ipv4_from:
  assumes "length bs = 4"
  shows "address_bytes (Ip (ipv4_from bs)) = 1 # bs"
  using assms by (auto simp: length_4_conv ipv4_from_def)

lemma length_16_halves:
  assumes "length bs = 16"
  shows "\<exists>a b c d e f g h i j k l m n q r. bs = [a, b, c, d, e, f, g, h, i, j, k, l, m, n, q, r]"
proof -
  have "length (take 4 bs) = 4" "length (take 4 (drop 4 bs)) = 4"
    "length (take 4 (drop 8 bs)) = 4" "length (drop 12 bs) = 4"
    using assms by simp_all
  moreover have "bs = take 4 bs @ take 4 (drop 4 bs) @ take 4 (drop 8 bs) @ drop 12 bs"
    using take_drop_join [of 4 4 bs] take_drop_join [of 4 8 bs] by simp
  ultimately show ?thesis unfolding length_4_conv by fastforce
qed

lemma octets_ipv6_from:
  assumes "length bs = 16"
  shows "address_bytes (Ip (ipv6_from bs)) = 4 # bs"
  using length_16_halves [OF assms] by (auto simp: ipv6_from_def to_from_be_bytes)

lemma length_address_bytes:
  "length (address_bytes (Ip (V4 a b c d))) = 5"
  "length (address_bytes (Ip (V6 k l m n e f g h))) = 17"
  "length (address_bytes (Name bs)) = 2 + length bs"
  by simp_all

section \<open>The datagram parser follows the grammar\<close>

lemma parse_host_sound:
  assumes "parse_host buf atyp i = Ok (host, j)" and "i \<le> length buf"
  shows "\<exists>a. address_ok a \<and> atyp # drop i buf = address_bytes a @ drop j buf \<and> j \<le> length buf
    \<and> host = address_host a"
proof -
  let ?at = "\<lambda>n. take n (drop i buf)"
  consider (v4) "atyp = 1" "i + 4 \<le> length buf" "j = i + 4" "host = show_ip (ipv4_from (?at 4))"
    | (v6) "atyp = 4" "i + 16 \<le> length buf" "j = i + 16" "host = show_ip (ipv6_from (?at 16))"
    | (name) len where "atyp = 3" "i + 1 \<le> length buf" "?at 1 = [len]" "j = i + 1 + unat len"
        "j \<le> length buf" "host = normal_host (take (unat len) (drop (i + 1) buf))"
  proof -
    have "take (Suc 0) (drop i buf) = [drop i buf ! 0]" if "i + 1 \<le> length buf"
      using that by (simp add: take_Suc hd_drop_conv_nth neq_Nil_conv)
    then show ?thesis
      using assms that
      by (auto simp: parse_host_def read_slice_def then_result_def wire_defs Let_def split: if_splits)
  qed
  then show ?thesis
  proof cases
    case v4
    then have "address_bytes (Ip (ipv4_from (?at 4))) @ drop j buf = atyp # drop i buf"
      using octets_ipv4_from [of "?at 4"] by simp
    then show ?thesis using v4 by (intro exI [of _ "Ip (ipv4_from (?at 4))"]) simp
  next
    case v6
    then have "address_bytes (Ip (ipv6_from (?at 16))) @ drop j buf = atyp # drop i buf"
      using octets_ipv6_from [of "?at 16"] by simp
    then show ?thesis using v6 by (intro exI [of _ "Ip (ipv6_from (?at 16))"]) simp
  next
    case name
    let ?n = "take (unat len) (drop (i + 1) buf)"
    have "length ?n = unat len" using name by simp
    moreover have "unat len < 256" using unsigned_less [of len, where 'a = nat] by simp
    moreover have "drop i buf = len # ?n @ drop j buf"
      using name(3,4) take_drop_join [of 1 i buf] take_drop_join [of "unat len" "i + 1" buf] by simp
    ultimately show ?thesis
      using name by (intro exI [of _ "Name ?n"]) simp
  qed
qed

lemma parse_host_complete:
  assumes "drop i buf = tl (address_bytes a) @ rest" and "address_ok a" and "i \<le> length buf"
  shows "parse_host buf (hd (address_bytes a)) i = Ok (address_host a, length buf - length rest)"
proof -
  have len: "length buf = i + length (tl (address_bytes a)) + length rest"
    using arg_cong [OF assms(1), of length] assms(3) by simp
  show ?thesis
  proof (cases a rule: address_bytes.cases)
    case (1 b c d e)
    then show ?thesis
      using assms len
      by (simp add: parse_host_def read_slice_def then_result_def wire_defs ipv4_from_octets [simplified])
  next
    case (2 b c d e f g h j)
    then show ?thesis
      using assms(1) len ipv6_from_octets [of b c d e f g h j]
      by (simp add: parse_host_def read_slice_def then_result_def wire_defs)
  next
    case (3 n)
    moreover have "drop (Suc i) buf = n @ rest"
      using assms(1) 3 by (metis address_bytes.simps(3) append_Cons drop_Suc drop_tl list.sel(3))
    ultimately show ?thesis
      using assms(1,2) len unat_of_length [of n]
      by (simp add: parse_host_def read_slice_def then_result_def wire_defs)
  qed
qed

lemma address_bytes_ne [simp]: "address_bytes a \<noteq> []"
  by (cases a rule: address_bytes.cases) simp_all

lemma hd_address_bytes: "hd (address_bytes a) \<in> {1, 3, 4}"
  by (cases a rule: address_bytes.cases) simp_all

lemma parse_datagram_sound:
  assumes "parse_datagram buf = Ok d"
  shows "\<exists>r0 r1 a. address_ok a \<and> buf = datagram_bytes r0 r1 a (dg_port d) (payload d)
    \<and> dg_host d = address_host a"
proof -
  from assms obtain host i port j where
    long: "4 \<le> length buf" and frag: "buf ! 2 = 0" and host: "parse_host buf (buf ! 3) 4 = Ok (host, i)"
    and port: "read_slice 2 buf i = Ok (port, j)"
    and d: "d = \<lparr>dg_host = host, dg_port = from_be_bytes (port ! 0) (port ! 1), payload = drop j buf\<rparr>"
    by (auto simp: parse_datagram_def then_result_def wire_defs split: if_splits sum.splits)
  obtain a where a: "address_ok a" "buf ! 3 # drop 4 buf = address_bytes a @ drop i buf" "host = address_host a"
    using parse_host_sound [OF host long] by auto
  have "buf = [buf ! 0, buf ! 1, 0] @ buf ! 3 # drop 4 buf" using head_4 [OF long] frag by simp
  then have "buf = [buf ! 0, buf ! 1, 0] @ address_bytes a @ drop i buf" using a(2) by simp
  moreover have "drop i buf = to_be_bytes (dg_port d) @ payload d"
  proof -
    have "length port = 2" "drop i buf = port @ drop j buf"
      using port take_drop_join [of 2 i buf] by (auto simp: read_slice_def split: if_splits)
    then show ?thesis by (auto simp: length_2_conv d to_from_be_bytes)
  qed
  ultimately show ?thesis using a d by (auto simp: datagram_bytes_def)
qed

lemma parse_datagram_complete:
  assumes "address_ok a"
  shows "parse_datagram (datagram_bytes r0 r1 a p data) = Ok \<lparr>dg_host = address_host a, dg_port = p, payload = data\<rparr>"
proof -
  let ?rest = "to_be_bytes p @ data"
  let ?buf = "[r0, r1, 0] @ address_bytes a @ ?rest"
  have drp: "drop 4 ?buf = tl (address_bytes a) @ ?rest" and nth: "?buf ! 2 = 0" "?buf ! 3 = hd (address_bytes a)"
    by (cases "address_bytes a"; simp)+
  have len: "length ?buf - length ?rest = 3 + length (address_bytes a)" by simp
  have "4 \<le> length ?buf" by (cases "address_bytes a") simp_all
  from parse_host_complete [OF drp assms this] len
  have host: "parse_host ?buf (hd (address_bytes a)) 4 = Ok (address_host a, 3 + length (address_bytes a))"
    by simp
  have "drop (3 + length (address_bytes a)) ?buf = ?rest"
    using drop_length_append [of "3 + length (address_bytes a)" "[r0, r1, 0] @ address_bytes a" ?rest] by simp
  then have slice: "read_slice 2 ?buf (3 + length (address_bytes a)) = Ok (to_be_bytes p, 5 + length (address_bytes a))"
    by (simp add: read_slice_def)
  have "drop (5 + length (address_bytes a)) ?buf = data"
    using drop_length_append [of "5 + length (address_bytes a)" "[r0, r1, 0] @ address_bytes a @ to_be_bytes p" data]
    by simp
  then show ?thesis
    using \<open>4 \<le> length ?buf\<close> nth host slice
    by (simp add: parse_datagram_def datagram_bytes_def then_result_def wire_defs to_be_bytes_def from_to_be_bytes
        del: append_Cons)
qed

lemma parse_datagram_fragmented:
  "parse_datagram buf = Err (Fragmented f) \<longleftrightarrow> 4 \<le> length buf \<and> buf ! 2 = f \<and> f \<noteq> 0"
  by (auto simp: parse_datagram_def parse_host_def read_slice_def then_result_def wire_defs Let_def
      split: if_splits sum.splits)

lemma parse_datagram_unsupported:
  "parse_datagram buf = Err (UnsupportedDatagramAddress t) \<longleftrightarrow>
     4 \<le> length buf \<and> buf ! 2 = 0 \<and> buf ! 3 = t \<and> t \<notin> {1, 3, 4}"
  by (auto simp: parse_datagram_def parse_host_def read_slice_def then_result_def wire_defs Let_def
      split: if_splits sum.splits)

lemma parse_datagram_prefix:
  assumes "strict_prefix buf (datagram_bytes r0 r1 a p [])" and "address_ok a"
  shows "parse_datagram buf = Err Truncated"
proof -
  from assms(1) obtain z where z: "datagram_bytes r0 r1 a p [] = buf @ z" "z \<noteq> []"
    by (auto simp: strict_prefix_def prefix_def)
  have pre: "buf ! 2 = 0 \<and> buf ! 3 = hd (address_bytes a)" if "4 \<le> length buf"
  proof -
    have "buf ! 2 = (buf @ z) ! 2" "buf ! 3 = (buf @ z) ! 3" using that by (simp_all add: nth_append)
    then show ?thesis by (cases "address_bytes a") (auto simp: z(1) [symmetric] datagram_bytes_def)
  qed
  show ?thesis
  proof (cases "parse_datagram buf")
    case (Inl e)
    have "e \<noteq> Fragmented f" "e \<noteq> UnsupportedDatagramAddress f" for f
      using Inl pre hd_address_bytes [of a] parse_datagram_fragmented [of buf f]
        parse_datagram_unsupported [of buf f] by auto
    then show ?thesis using Inl by (cases e) auto
  next
    case (Inr d)
    from parse_datagram_sound [OF this] obtain s0 s1 a' where
      a': "address_ok a'" "buf = datagram_bytes s0 s1 a' (dg_port d) (payload d)" by auto
    then have "datagram_bytes r0 r1 a p [] = datagram_bytes s0 s1 a' (dg_port d) (payload d @ z)"
      using z(1) by (simp add: datagram_bytes_def)
    then show ?thesis
      using parse_datagram_complete [OF assms(2), of r0 r1 p "[]"]
        parse_datagram_complete [OF a'(1), of s0 s1 "dg_port d" "payload d @ z"] z(2) by auto
  qed
qed

section \<open>Connections\<close>

text \<open>
  The in-memory connection of the unit tests (one end of \<open>tokio::io::duplex\<close>, the
  other end closed after its bytes): the bytes still to be read and those written.
\<close>

definition mem_ops :: "(bytes \<times> bytes) sock_ops" where
  "mem_ops =
     \<lparr>read_exact = (\<lambda>(inp, out) n.
        if n \<le> length inp then ((drop n inp, out), Ok (take n inp)) else (([], out), Err UnexpectedEof)),
      write_all = (\<lambda>(inp, out) bs. ((inp, out @ bs), Ok ()))\<rparr>"

text \<open>
  \<open>read_exact\<close> either fills the buffer with the next bytes or fails, \<open>write_all\<close>
  either writes the whole buffer or fails after some part of it.
\<close>

locale byte_stream =
  fixes ops :: "('s, 'x) sock_ops_scheme" and incoming :: "'s \<Rightarrow> bytes" and outgoing :: "'s \<Rightarrow> bytes"
  assumes read_ok: "read_exact ops s n = (s', Ok bs) \<Longrightarrow>
      length bs = n \<and> incoming s = bs @ incoming s' \<and> outgoing s' = outgoing s"
    and read_err: "read_exact ops s n = (s', Err e) \<Longrightarrow> outgoing s' = outgoing s"
    and write_ok: "write_all ops s bs = (s', Ok u) \<Longrightarrow>
      outgoing s' = outgoing s @ bs \<and> incoming s' = incoming s"
    and write_err: "write_all ops s bs = (s', Err e) \<Longrightarrow>
      incoming s' = incoming s \<and> (\<exists>k. outgoing s' = outgoing s @ take k bs)"

text \<open>No transport error: a read only fails at the end of the stream, a write never.\<close>

locale healthy_stream = byte_stream ops incoming outgoing
  for ops :: "('s, 'x) sock_ops_scheme" and incoming :: "'s \<Rightarrow> bytes" and outgoing :: "'s \<Rightarrow> bytes" +
  assumes read_ready: "n \<le> length (incoming s) \<Longrightarrow> \<not> isl (snd (read_exact ops s n))"
    and read_eof: "length (incoming s) < n \<Longrightarrow> snd (read_exact ops s n) = Err UnexpectedEof"
    and write_ready: "\<not> isl (snd (write_all ops s bs))"

text \<open>
  A run over any connection is followed step by step by the run over the in-memory
  connection with the same bytes, until it fails with a transport error.
\<close>

context byte_stream
begin

definition mem_of :: "'s \<Rightarrow> bytes \<times> bytes" where
  "mem_of s = (incoming s, outgoing s)"

definition follows :: "'s \<times> (socks_error, 'a) result \<Rightarrow> (bytes \<times> bytes) \<times> (socks_error, 'a) result \<Rightarrow> bool" where
  "follows x y \<longleftrightarrow> (\<exists>e. snd x = Err (Io_Error e)) \<or> (mem_of (fst x) = fst y \<and> snd x = snd y)"

lemma follows_pure: "follows (s, r) (mem_of s, r)"
  by (simp add: follows_def)

lemma follows_read:
  assumes "\<And>s bs. length bs = n \<Longrightarrow> follows (k s bs) (k' (mem_of s) bs)"
  shows "follows (try_io (read_exact ops s n) k) (try_io (read_exact mem_ops (mem_of s) n) k')"
proof (cases "read_exact ops s n")
  case (Pair s' r)
  show ?thesis
  proof (cases r)
    case (Inr bs)
    with Pair have "length bs = n" "incoming s = bs @ incoming s'" "outgoing s' = outgoing s"
      using read_ok by auto
    then show ?thesis
      using assms [of bs s'] Pair Inr by (simp add: try_io_def mem_ops_def mem_of_def)
  qed (simp add: Pair try_io_def follows_def)
qed

lemma follows_write:
  assumes "\<And>s u. follows (k s u) (k' (mem_of s) u)"
  shows "follows (try_io (write_all ops s bs) k) (try_io (write_all mem_ops (mem_of s) bs) k')"
proof (cases "write_all ops s bs")
  case (Pair s' r)
  show ?thesis
  proof (cases r)
    case (Inr u)
    with Pair have "outgoing s' = outgoing s @ bs" "incoming s' = incoming s"
      using write_ok by auto
    then show ?thesis
      using assms [of s' u] Pair Inr by (simp add: try_io_def mem_ops_def mem_of_def)
  qed (simp add: Pair try_io_def follows_def)
qed

lemma follows_and_then:
  assumes "follows x y" and "\<And>s a. follows (k s a) (k' (mem_of s) a)"
  shows "follows (and_then x k) (and_then y k')"
proof (cases "snd x")
  case (Inl e)
  then show ?thesis using assms(1) by (cases x; cases y) (auto simp: follows_def and_then_def)
next
  case (Inr a)
  then have "and_then x k = k (fst x) a" "and_then y k' = k' (mem_of (fst x)) a"
    using assms(1) by (cases x; cases y; simp add: follows_def and_then_def)+
  then show ?thesis using assms(2) by simp
qed

lemma follows_if:
  "(c \<Longrightarrow> follows x y) \<Longrightarrow> (\<not> c \<Longrightarrow> follows x' y') \<Longrightarrow> follows (if c then x else x') (if c then y else y')"
  by simp

lemmas follows_intros = follows_if follows_read follows_write follows_pure

lemma follows_read_host: "follows (read_host ops atyp s) (read_host mem_ops atyp (mem_of s))"
  unfolding read_host_def by (intro follows_intros)

lemma accept_follows: "follows (accept ops s) (accept mem_ops (mem_of s))"
  unfolding accept_def by (intro follows_intros follows_and_then follows_read_host)

end

context healthy_stream
begin

definition same :: "'s \<times> (socks_error, 'a) result \<Rightarrow> (bytes \<times> bytes) \<times> (socks_error, 'a) result \<Rightarrow> bool" where
  "same x y \<longleftrightarrow> follows x y \<and> snd x = snd y \<and> outgoing (fst x) = snd (fst y)"

lemma same_pure: "same (s, r) (mem_of s, r)"
  by (simp add: same_def follows_def mem_of_def)

lemma same_read:
  assumes "\<And>s bs. length bs = n \<Longrightarrow> same (k s bs) (k' (mem_of s) bs)"
  shows "same (try_io (read_exact ops s n) k) (try_io (read_exact mem_ops (mem_of s) n) k')"
proof (cases "read_exact ops s n")
  case (Pair s' r)
  show ?thesis
  proof (cases r)
    case (Inr bs)
    with Pair have "length bs = n" "incoming s = bs @ incoming s'" "outgoing s' = outgoing s"
      using read_ok by auto
    then show ?thesis
      using assms [of bs s'] Pair Inr by (simp add: try_io_def mem_ops_def mem_of_def)
  next
    case (Inl e)
    then have "length (incoming s) < n" using read_ready [of n s] Pair by (cases "n \<le> length (incoming s)") auto
    then show ?thesis
      using read_eof [of s n] read_err [of s n s' e] Pair Inl
      by (simp add: try_io_def mem_ops_def mem_of_def same_def follows_def)
  qed
qed

lemma same_write:
  assumes "\<And>s u. same (k s u) (k' (mem_of s) u)"
  shows "same (try_io (write_all ops s bs) k) (try_io (write_all mem_ops (mem_of s) bs) k')"
proof -
  obtain s' u where w: "write_all ops s bs = (s', Ok u)"
    using write_ready [of s bs] by (cases "write_all ops s bs"; cases "snd (write_all ops s bs)") auto
  then show ?thesis
    using assms [of s' u] write_ok [OF w] by (simp add: try_io_def mem_ops_def mem_of_def)
qed

lemma same_and_then:
  assumes "same x y" and "\<And>s a. same (k s a) (k' (mem_of s) a)"
  shows "same (and_then x k) (and_then y k')"
proof (cases "snd x")
  case (Inl e)
  then show ?thesis using assms(1) by (cases x; cases y) (auto simp: same_def follows_def and_then_def)
next
  case (Inr a)
  then have "and_then x k = k (fst x) a" "and_then y k' = k' (mem_of (fst x)) a"
    using assms(1) by (cases x; cases y; simp add: same_def follows_def and_then_def)+
  then show ?thesis using assms(2) by simp
qed

lemma same_if:
  "(c \<Longrightarrow> same x y) \<Longrightarrow> (\<not> c \<Longrightarrow> same x' y') \<Longrightarrow> same (if c then x else x') (if c then y else y')"
  by simp

lemmas same_intros = same_if same_read same_write same_pure

lemma same_read_host: "same (read_host ops atyp s) (read_host mem_ops atyp (mem_of s))"
  unfolding read_host_def by (intro same_intros)

lemma accept_same: "same (accept ops s) (accept mem_ops (mem_of s))"
  unfolding accept_def by (intro same_intros same_and_then same_read_host)

end

interpretation mem: healthy_stream mem_ops fst snd
  by unfold_locales (auto simp: mem_ops_def split: if_splits)

section \<open>The handshake follows the grammar\<close>

lemma and_then_simps:
  "and_then (s, Inl e) k = (s, Inl e)" "and_then (s, Inr x) k = k s x"
  "and_then (if c then m else m') k = (if c then and_then m k else and_then m' k)"
  by (simp_all add: and_then_def)

lemma mem_read_take:
  assumes "n = length xs"
  shows "try_io (read_exact mem_ops (take k (xs @ ys), out) n) f =
    (if k < n then (([], out), Err (Io_Error UnexpectedEof)) else f (take (k - n) ys, out) xs)"
  using assms by (auto simp: try_io_def mem_ops_def)

lemma mem_write: "try_io (write_all mem_ops (inp, out) bs) f = f (inp, out @ bs) ()"
  by (simp add: try_io_def mem_ops_def)

lemma mem_read_host_take:
  assumes "address_ok a"
  shows "read_host mem_ops (hd (address_bytes a)) (take k (tl (address_bytes a) @ ys), out) =
    (if k < length (tl (address_bytes a)) then (([], out), Err (Io_Error UnexpectedEof))
     else ((take (k - length (tl (address_bytes a))) ys, out), Ok (address_host a)))"
proof (cases a rule: address_bytes.cases)
  case (1 b c d e)
  then show ?thesis
    using ipv4_from_octets [of b c d e]
    by (simp add: read_host_def wire_defs mem_read_take [of 4 "[b, c, d, e]", simplified])
       (simp add: eval_nat_numeral)
next
  case (2 b c d e f g h i)
  then show ?thesis
    using length_octets_V6 [of b c d e f g h i]
    by (simp add: read_host_def wire_defs mem_read_take [of 16 "octets (V6 b c d e f g h i)"] ipv6_from_octets
        del: octets.simps take_append show_ip.simps)
next
  case (3 n)
  then show ?thesis
    using assms
    by (auto simp: read_host_def wire_defs unat_of_length mem_read_take
        mem_read_take [of 1 "[of_nat (length n)]", simplified] simp del: take_append)
qed

lemma if_branches: "c = c' \<Longrightarrow> x = x' \<Longrightarrow> y = y' \<Longrightarrow> (if c then x else y) = (if c' then x' else y')"
  by simp

lemma nested_lengths:
  fixes k n l :: nat
  shows "(if k < 2 then x else if k - 2 < n then x else if k - 2 - n < 4 then y
     else if k - 2 - n - 4 < l then y else if k - 2 - n - 4 - l < 2 then y else f (k - 2 - n - 4 - l - 2))
    = (if k < n + 2 then x else if k < 2 + (n + (4 + (l + 2))) then y
       else f (k - (2 + (n + (4 + (l + 2))))))"
proof -
  consider "k < 2" | "2 \<le> k" "k < n + 2" | "n + 2 \<le> k" "k < 8 + n + l" | "8 + n + l \<le> k"
    by linarith
  then show ?thesis by cases auto
qed

lemma mem_accept_take:
  assumes "address_ok a" and "length ms < 256" and "0 \<in> set ms"
  shows "accept mem_ops (take k (handshake_bytes ms cmd rsv a p @ rest), out) =
    (if k < length ms + 2 then (([], out), Err (Io_Error UnexpectedEof))
     else if k < length (handshake_bytes ms cmd rsv a p)
     then (([], out @ [5, 0]), Err (Io_Error UnexpectedEof))
     else ((take (k - length (handshake_bytes ms cmd rsv a p)) rest, out @ [5, 0]),
           command_of cmd \<lparr>req_host = address_host a, req_port = p\<rparr>))"
proof -
  let ?A = "tl (address_bytes a)" and ?P = "to_be_bytes p" and ?n = "length ms"
  let ?t = "hd (address_bytes a)"
  have t: "address_bytes a = ?t # ?A" by simp
  have input: "handshake_bytes ms cmd rsv a p @ rest =
      5 # of_nat ?n # ms @ 5 # cmd # rsv # ?t # ?A @ ?P @ rest"
    by (simp add: handshake_bytes_def)
  have "length (address_bytes a) = Suc (length ?A)" by (subst t) simp
  then have len: "length (handshake_bytes ms cmd rsv a p) = 2 + (?n + (4 + (length ?A + 2)))"
    by (simp add: handshake_bytes_def)
  note reads =
    mem_read_take [of 2 "[5, of_nat ?n]", simplified]
    mem_read_take [of ?n ms]
    mem_read_take [of 4 "[5, cmd, rsv, ?t]", simplified]
    mem_read_take [of 2 ?P]
  have "accept mem_ops (take k (handshake_bytes ms cmd rsv a p @ rest), out) =
    (if k < 2 then (([], out), Err (Io_Error UnexpectedEof))
     else if k - 2 < ?n then (([], out), Err (Io_Error UnexpectedEof))
     else if k - 2 - ?n < 4 then (([], out @ [5, 0]), Err (Io_Error UnexpectedEof))
     else if k - 2 - ?n - 4 < length ?A then (([], out @ [5, 0]), Err (Io_Error UnexpectedEof))
     else if k - 2 - ?n - 4 - length ?A < 2 then (([], out @ [5, 0]), Err (Io_Error UnexpectedEof))
     else ((take (k - 2 - ?n - 4 - length ?A - 2) rest, out @ [5, 0]),
           command_of cmd \<lparr>req_host = address_host a, req_port = p\<rparr>))"
    unfolding input accept_def using assms(2,3)
    by (simp add: reads mem_write mem_read_host_take [OF assms(1)] unat_of_length wire_defs and_then_simps
        be_bytes_nth del: length_tl take_append diff_diff_left cong: if_branches split del: if_split)
  also have "\<dots> = (if k < ?n + 2 then (([], out), Err (Io_Error UnexpectedEof))
     else if k < 2 + (?n + (4 + (length ?A + 2)))
     then (([], out @ [5, 0]), Err (Io_Error UnexpectedEof))
     else ((take (k - (2 + (?n + (4 + (length ?A + 2))))) rest, out @ [5, 0]),
           command_of cmd \<lparr>req_host = address_host a, req_port = p\<rparr>))"
    by (rule nested_lengths)
  finally show ?thesis by (simp only: len)
qed

lemma mem_read_eq:
  "try_io (read_exact mem_ops (inp, out) n) f =
    (if n \<le> length inp then f (drop n inp, out) (take n inp) else (([], out), Err (Io_Error UnexpectedEof)))"
  by (simp add: try_io_def mem_ops_def)

lemma mem_read_host_sound:
  assumes "read_host mem_ops t (inp, out) = ((inp', out'), Ok host)"
  shows "\<exists>a. address_ok a \<and> t # inp = address_bytes a @ inp' \<and> host = address_host a \<and> out' = out"
proof -
  consider (v4) "t = 1" "4 \<le> length inp" "inp' = drop 4 inp" "host = show_ip (ipv4_from (take 4 inp))"
    | (v6) "t = 4" "16 \<le> length inp" "inp' = drop 16 inp" "host = show_ip (ipv6_from (take 16 inp))"
    | (name) len inp1 where "t = 3" "inp = len # inp1" "unat len \<le> length inp1"
        "inp' = drop (unat len) inp1" "host = normal_host (take (unat len) inp1)"
    using assms
    by (cases inp) (auto simp: read_host_def mem_read_eq wire_defs split: if_splits)
  moreover have "out' = out"
    using assms by (auto simp: read_host_def mem_read_eq wire_defs split: if_splits)
  ultimately show ?thesis
  proof cases
    case v4
    then have "address_bytes (Ip (ipv4_from (take 4 inp))) @ inp' = t # inp"
      by (simp add: octets_ipv4_from)
    then show ?thesis using v4 \<open>out' = out\<close> by (intro exI [of _ "Ip (ipv4_from (take 4 inp))"]) simp
  next
    case v6
    then have "address_bytes (Ip (ipv6_from (take 16 inp))) @ inp' = t # inp"
      by (simp add: octets_ipv6_from)
    then show ?thesis using v6 \<open>out' = out\<close> by (intro exI [of _ "Ip (ipv6_from (take 16 inp))"]) simp
  next
    case name
    moreover have "unat len < 256" using unsigned_less [of len, where 'a = nat] by simp
    ultimately show ?thesis
      using \<open>out' = out\<close> by (intro exI [of _ "Name (take (unat len) inp1)"]) simp
  qed
qed

lemma mem_accept_sound:
  assumes "accept mem_ops (inp, out) = ((inp', out'), Ok c)"
  shows "\<exists>ms cmd rsv a p. length ms < 256 \<and> 0 \<in> set ms \<and> address_ok a
    \<and> inp = handshake_bytes ms cmd rsv a p @ inp' \<and> out' = out @ [5, 0]
    \<and> command_of cmd \<lparr>req_host = address_host a, req_port = p\<rparr> = Ok c"
proof -
  have unwrap: "\<exists>s a. x = (s, Ok a) \<and> k s a = (s', Ok b)" if "and_then x k = (s', Ok b)"
    for x :: "(bytes \<times> bytes) \<times> (socks_error, string) result" and k s' and b :: command
    using that by (auto simp: and_then_def split: prod.splits sum.splits)
  let ?n = "unat (inp ! 1)" and ?in2 = "drop (unat (inp ! 1)) (drop 2 inp)"
  have greet: "2 \<le> length inp" "inp ! 0 = 5" "?n \<le> length (drop 2 inp)" "0 \<in> set (take ?n (drop 2 inp))"
      "4 \<le> length ?in2" "?in2 ! 0 = 5"
    and req: "and_then (read_host mem_ops (?in2 ! 3) (drop 4 ?in2, out @ [5, 0])) (\<lambda>s host.
        try_io (read_exact mem_ops s 2) (\<lambda>s port. (s, command_of (?in2 ! 1)
          \<lparr>req_host = host, req_port = from_be_bytes (port ! 0) (port ! 1)\<rparr>))) = ((inp', out'), Ok c)"
    using assms unfolding accept_def mem_read_eq mem_write
    by (auto simp: wire_defs mem_read_eq mem_write split: if_splits)
  from unwrap [OF req] obtain in3 out3 host where
    host: "read_host mem_ops (?in2 ! 3) (drop 4 ?in2, out @ [5, 0]) = ((in3, out3), Ok host)"
    and tail: "2 \<le> length in3" "inp' = drop 2 in3" "out' = out3"
      "command_of (?in2 ! 1) \<lparr>req_host = host, req_port = from_be_bytes (in3 ! 0) (in3 ! 1)\<rparr> = Ok c"
    by (auto simp: mem_read_eq split: if_splits)
  obtain a where a: "address_ok a" "?in2 ! 3 # drop 4 ?in2 = address_bytes a @ in3" "host = address_host a"
      "out3 = out @ [5, 0]"
    using mem_read_host_sound [OF host] by auto
  let ?ms = "take ?n (drop 2 inp)" and ?p = "from_be_bytes (in3 ! 0) (in3 ! 1)"
  have "inp = [5, of_nat (length ?ms)] @ drop 2 inp"
    using greet(1-3) by (cases inp; cases "tl inp") (auto simp: min_absorb2)
  moreover have "drop 2 inp = ?ms @ ?in2" by (rule append_take_drop_id [symmetric])
  moreover have "?in2 = [5, ?in2 ! 1, ?in2 ! 2] @ ?in2 ! 3 # drop 4 ?in2"
    using head_4 [OF greet(5)] greet(6) by simp
  moreover have "in3 = to_be_bytes ?p @ inp'"
    using tail(1,2) by (cases in3; cases "tl in3") (auto simp: to_from_be_bytes)
  ultimately have "inp = handshake_bytes ?ms (?in2 ! 1) (?in2 ! 2) a ?p @ inp'"
    using a(2) by (simp add: handshake_bytes_def)
  moreover have "length ?ms < 256" using unsigned_less [of "inp ! 1", where 'a = nat] by simp
  ultimately show ?thesis using greet(4) a tail by blast
qed

lemma handshake_length: "length ms + 2 \<le> length (handshake_bytes ms cmd rsv a p)"
  by (simp add: handshake_bytes_def)

text \<open>What the client has been sent when the handshake ends, outcome by outcome.\<close>

lemma mem_accept_sent:
  assumes "accept mem_ops (inp, out) = ((inp', out'), r)"
  shows "case r of
      Inr _ \<Rightarrow> out' = out @ [5, 0]
    | Inl NoAcceptableMethod \<Rightarrow> out' = out @ [5, 0xFF] \<and> 2 + unat (inp ! 1) \<le> length inp
        \<and> 0 \<notin> set (take (unat (inp ! 1)) (drop 2 inp))
    | Inl (UnsupportedCommand c) \<Rightarrow> out' = out @ [5, 0] \<and> c \<notin> {1, 3}
    | Inl (UnsupportedAddressType t) \<Rightarrow> out' = out @ [5, 0] \<and> t \<notin> {1, 3, 4}
    | Inl (UnsupportedVersion v) \<Rightarrow> v \<noteq> 5 \<and> out' \<in> {out, out @ [5, 0]}
    | Inl (Io_Error e) \<Rightarrow> out' \<in> {out, out @ [5, 0]}"
  using assms
  by (auto simp: accept_def read_host_def command_of_def mem_read_eq mem_write and_then_simps wire_defs
      split: if_splits)

lemma accept_reads:
  assumes "healthy_stream ops incoming outgoing"
    and "incoming s = handshake_bytes ms cmd rsv a p @ rest"
    and "address_ok a" and "length ms < 256" and "METHOD_NONE \<in> set ms"
  shows "\<exists>s'. accept ops s = (s', command_of cmd \<lparr>req_host = address_host a, req_port = p\<rparr>)
    \<and> incoming s' = rest \<and> outgoing s' = outgoing s @ [VERSION, METHOD_NONE]"
proof -
  have run: "accept mem_ops (incoming s, outgoing s) =
      ((rest, outgoing s @ [5, 0]), command_of cmd \<lparr>req_host = address_host a, req_port = p\<rparr>)"
    using mem_accept_take [of a ms "length (incoming s)" cmd rsv p rest "outgoing s"] assms(2-)
      handshake_length [of ms cmd rsv a p]
    by (simp add: METHOD_NONE_def)
  have "byte_stream ops incoming outgoing" using assms(1) by (rule healthy_stream.axioms)
  moreover have "snd (accept ops s) \<noteq> Err (Io_Error e)" for e
    using healthy_stream.accept_same [OF assms(1), of s] run
    by (simp add: healthy_stream.same_def [OF assms(1)] byte_stream.mem_of_def [OF calculation] command_of_def)
  ultimately show ?thesis
    using byte_stream.accept_follows [of ops incoming outgoing s] run
    by (cases "accept ops s")
       (auto simp: byte_stream.follows_def byte_stream.mem_of_def wire_defs)
qed

section \<open>Properties\<close>

text \<open>
  C23: On a connection without transport errors, a well-formed handshake that offers
  the no-authentication method is read to its last byte and no further, is answered
  with exactly the method selection, and gives the command it encodes, or
  \<open>UnsupportedCommand\<close> for a command the proxy does not serve.
\<close>

theorem accept_complete:
  assumes "healthy_stream ops incoming outgoing"
    and "incoming s = handshake_bytes ms cmd rsv a p @ rest"
    and "address_ok a" and "length ms < 256" and "METHOD_NONE \<in> set ms"
  shows "\<exists>s'. accept ops s = (s', command_of cmd \<lparr>req_host = address_host a, req_port = p\<rparr>)
    \<and> incoming s' = rest \<and> outgoing s' = outgoing s @ [VERSION, METHOD_NONE]"
  by (rule accept_reads [OF assms])

theorem accept_complete_witness:
  "\<exists>s'. accept mem_ops (handshake_bytes [2, 0] 1 0 (Name (str_bytes ''API.dev.'')) 443 @ [7], [])
      = (s', Ok (Connect \<lparr>req_host = ''api.dev'', req_port = 443\<rparr>))
    \<and> fst s' = [7] \<and> snd s' = [] @ [VERSION, METHOD_NONE]"
proof -
  have "address_host (Name (str_bytes ''API.dev.'')) = ''api.dev''" by code_simp
  moreover have "command_of 1 \<lparr>req_host = ''api.dev'', req_port = 443\<rparr>
      = Ok (Connect \<lparr>req_host = ''api.dev'', req_port = 443\<rparr>)" by (simp add: command_of_def wire_defs)
  ultimately show ?thesis
    using accept_complete [OF mem.healthy_stream_axioms, of
        "(handshake_bytes [2, 0] 1 0 (Name (str_bytes ''API.dev.'')) 443 @ [7], [])"
        "[2, 0]" 1 0 "Name (str_bytes ''API.dev.'')" 443 "[7]"]
    by (simp add: METHOD_NONE_def)
qed

text \<open>
  C24: A command is accepted only from a well-formed handshake: on every connection,
  transport errors included, if the handshake succeeds then the bytes consumed are
  those of a handshake in the grammar that encodes the returned command, and the
  client was sent the method selection and nothing else.
\<close>

theorem accept_sound:
  assumes "byte_stream ops incoming outgoing" and "accept ops s = (s', Ok c)"
  shows "\<exists>ms cmd rsv a p. length ms < 256 \<and> METHOD_NONE \<in> set ms \<and> address_ok a
    \<and> incoming s = handshake_bytes ms cmd rsv a p @ incoming s'
    \<and> outgoing s' = outgoing s @ [VERSION, METHOD_NONE]
    \<and> command_of cmd \<lparr>req_host = address_host a, req_port = p\<rparr> = Ok c"
proof -
  have "accept mem_ops (incoming s, outgoing s) = ((incoming s', outgoing s'), Ok c)"
    using byte_stream.accept_follows [OF assms(1), of s] assms(2)
    by (cases "accept mem_ops (incoming s, outgoing s)")
       (auto simp: byte_stream.follows_def [OF assms(1)] byte_stream.mem_of_def [OF assms(1)])
  from mem_accept_sound [OF this] show ?thesis by (simp add: wire_defs)
qed

theorem accept_sound_witness:
  "\<exists>s' ms cmd rsv a p. accept mem_ops ([5, 1, 0, 5, 3, 0, 1, 10, 0, 0, 7, 0, 53], [])
      = (s', Ok (UdpAssociate \<lparr>req_host = ''10.0.0.7'', req_port = 53\<rparr>))
    \<and> [5, 1, 0, 5, 3, 0, 1, 10, 0, 0, 7, 0, 53] = handshake_bytes ms cmd rsv a p @ fst s' \<and> METHOD_NONE \<in> set ms"
proof -
  have run: "accept mem_ops ([5, 1, 0, 5, 3, 0, 1, 10, 0, 0, 7, 0, 53], [])
      = (([], [5, 0]), Ok (UdpAssociate \<lparr>req_host = ''10.0.0.7'', req_port = 53\<rparr>))"
    by code_simp
  from accept_sound [OF mem.byte_stream_axioms run, unfolded fst_conv snd_conv] obtain ms cmd rsv a p where
    "METHOD_NONE \<in> set ms"
    "[5, 1, 0, 5, 3, 0, 1, 10, 0, 0, 7, 0, 53] = handshake_bytes ms cmd rsv a p @ []"
    by blast
  then show ?thesis
    by (intro exI [of _ "([], [5, 0])"] exI [of _ ms] exI [of _ cmd] exI [of _ rsv] exI [of _ a] exI [of _ p] conjI run)
       (simp_all only: fst_conv)
qed

text \<open>
  A truncated handshake is never accepted: if the connection ends anywhere inside
  a well-formed handshake, the result is the I/O error \<open>UnexpectedEof\<close>.
\<close>

theorem accept_truncated:
  assumes "healthy_stream ops incoming outgoing"
    and "strict_prefix (incoming s) (handshake_bytes ms cmd rsv a p)"
    and "address_ok a" and "length ms < 256" and "METHOD_NONE \<in> set ms"
  shows "snd (accept ops s) = Err (Io_Error UnexpectedEof)"
proof -
  let ?k = "length (incoming s)"
  have "incoming s = take ?k (handshake_bytes ms cmd rsv a p)" and lt: "?k < length (handshake_bytes ms cmd rsv a p)"
    using assms(2) by (auto simp: strict_prefix_def prefix_def)
  then have "accept mem_ops (incoming s, outgoing s)
      = accept mem_ops (take ?k (handshake_bytes ms cmd rsv a p @ []), outgoing s)"
    by simp
  then have "snd (accept mem_ops (incoming s, outgoing s)) = Err (Io_Error UnexpectedEof)"
    using mem_accept_take [of a ms ?k cmd rsv p "[]" "outgoing s"] assms(3-) lt
    by (simp add: METHOD_NONE_def)
  then show ?thesis
    using healthy_stream.accept_same [OF assms(1), of s]
    by (simp add: healthy_stream.same_def [OF assms(1)]
        byte_stream.mem_of_def [OF healthy_stream.axioms(1) [OF assms(1)]])
qed

theorem accept_truncated_witness:
  "snd (accept mem_ops ([5, 1, 0, 5, 1], [])) = Err (Io_Error UnexpectedEof)"
proof (rule accept_truncated [OF mem.healthy_stream_axioms])
  show "strict_prefix (fst ([5, 1, 0, 5, 1], [])) (handshake_bytes [0] 1 0 (Ip (V4 10 0 0 7)) 53)"
    by (simp add: handshake_bytes_def)
qed (simp_all add: METHOD_NONE_def)



text \<open>
  C26: The datagram parser accepts exactly the grammar: \<open>parse_datagram\<close> succeeds with a
  host, port and payload if and only if the buffer is two reserved bytes, a zero
  fragment number, a well-formed address that denotes the host, the port and the
  payload.
\<close>

theorem parse_datagram_grammar:
  "parse_datagram buf = Ok d \<longleftrightarrow>
    (\<exists>r0 r1 a. address_ok a \<and> buf = datagram_bytes r0 r1 a (dg_port d) (payload d) \<and> dg_host d = address_host a)"
proof
  assume "\<exists>r0 r1 a. address_ok a \<and> buf = datagram_bytes r0 r1 a (dg_port d) (payload d) \<and> dg_host d = address_host a"
  then show "parse_datagram buf = Ok d" using parse_datagram_complete by fastforce
qed (rule parse_datagram_sound)

text \<open>
  C27: A datagram that \<open>encode_datagram\<close> wraps for a client is read back by
  \<open>parse_datagram\<close> as the same address, port and payload, whatever was in the reused
  buffer; the address survives its textual form.
\<close>

theorem datagram_roundtrip:
  "parse_datagram (encode_datagram from data out)
      = Ok \<lparr>dg_host = show_ip (sa_ip from), dg_port = sa_port from, payload = data\<rparr>
    \<and> parse_ip (show_ip (sa_ip from)) = Some (sa_ip from)"
  using parse_datagram_complete [of "Ip (sa_ip from)" 0 0 "sa_port from" data]
  by (simp add: encode_datagram_def addr_field_bytes datagram_bytes_def parse_show_ip)

text \<open>
  A datagram cut anywhere inside its header is rejected as \<open>Truncated\<close>: no read
  leaves the buffer, and nothing of a cut header is taken for payload.
\<close>

theorem datagram_truncated:
  assumes "strict_prefix buf (datagram_bytes r0 r1 a p [])" and "address_ok a"
  shows "parse_datagram buf = Err Truncated"
  using assms by (rule parse_datagram_prefix)

theorem datagram_truncated_witness: "parse_datagram [0, 0, 0, 3, 200, 97, 98] = Err Truncated"
proof (rule datagram_truncated)
  show "strict_prefix [0, 0, 0, 3, 200, 97, 98] (datagram_bytes 0 0 (Name ([97, 98] @ replicate 198 0)) 53 [])"
    by (simp add: datagram_bytes_def) (simp add: strict_prefix_def to_be_bytes_def)
qed simp

text \<open>
  The other errors of the datagram parser are exact: a buffer is reported as
  fragmented if and only if it has a non-zero fragment number, and as having an
  unsupported address type if and only if it is unfragmented and its type is none of
  the three supported ones.
\<close>

theorem datagram_errors:
  "(parse_datagram buf = Err (Fragmented f) \<longleftrightarrow> 4 \<le> length buf \<and> buf ! 2 = f \<and> f \<noteq> 0)
    \<and> (parse_datagram buf = Err (UnsupportedDatagramAddress t) \<longleftrightarrow>
         4 \<le> length buf \<and> buf ! 2 = 0 \<and> buf ! 3 = t \<and> t \<notin> {ATYP_IPV4, ATYP_DOMAIN, ATYP_IPV6})"
  using parse_datagram_fragmented [of buf f] parse_datagram_unsupported [of buf t]
  by (auto simp: ATYP_IPV4_def ATYP_DOMAIN_def ATYP_IPV6_def)

text \<open>
  A reply carries its code and bound address in the layout the client parses: after
  \<open>reply_bound\<close> on a connection without transport errors the bytes written are a
  version, the code, a reserved zero and an address field that decodes to the bound
  address and port. \<open>reply\<close> is the same record for the unspecified address.
\<close>

theorem reply_bound_layout:
  assumes "healthy_stream ops incoming outgoing"
  shows "(\<exists>s' rec. reply_bound ops s code bound = (s', Ok ()) \<and> incoming s' = incoming s
      \<and> outgoing s' = outgoing s @ rec \<and> take 2 rec = [VERSION, code]
      \<and> parse_datagram rec = Ok \<lparr>dg_host = show_ip (sa_ip bound), dg_port = sa_port bound, payload = []\<rparr>)
    \<and> reply ops s code = reply_bound ops s code \<lparr>sa_ip = V4 0 0 0 0, sa_port = 0\<rparr>"
proof (rule conjI)
  let ?rec = "datagram_bytes VERSION code (Ip (sa_ip bound)) (sa_port bound) []"
  have wr: "reply_bound ops s code bound = write_all ops s ?rec"
    by (simp add: reply_bound_def addr_field_bytes datagram_bytes_def)
  obtain s' where ok: "write_all ops s ?rec = (s', Ok ())"
    using healthy_stream.write_ready [OF assms, of s ?rec]
    by (cases "write_all ops s ?rec"; cases "snd (write_all ops s ?rec)") auto
  have "outgoing s' = outgoing s @ ?rec \<and> incoming s' = incoming s"
    using byte_stream.write_ok [OF healthy_stream.axioms(1) [OF assms] ok] .
  then show "\<exists>s' rec. reply_bound ops s code bound = (s', Ok ()) \<and> incoming s' = incoming s
      \<and> outgoing s' = outgoing s @ rec \<and> take 2 rec = [VERSION, code]
      \<and> parse_datagram rec = Ok \<lparr>dg_host = show_ip (sa_ip bound), dg_port = sa_port bound, payload = []\<rparr>"
    using wr ok parse_datagram_complete [of "Ip (sa_ip bound)" VERSION code "sa_port bound" "[]"]
    by (intro exI [of _ s'] exI [of _ ?rec]) (simp add: datagram_bytes_def)
  show "reply ops s code = reply_bound ops s code \<lparr>sa_ip = V4 0 0 0 0, sa_port = 0\<rparr>"
    by (simp add: reply_def reply_bound_def addr_field_def to_be_bytes_def)
qed

theorem reply_bound_layout_witness:
  "\<exists>s' rec. reply_bound mem_ops ([], []) REP_SUCCESS \<lparr>sa_ip = V4 127 0 0 1, sa_port = 4000\<rparr> = (s', Ok ())
    \<and> fst s' = [] \<and> snd s' = [] @ rec \<and> take 2 rec = [VERSION, REP_SUCCESS]
    \<and> parse_datagram rec = Ok \<lparr>dg_host = show_ip (V4 127 0 0 1), dg_port = 4000, payload = []\<rparr>"
  using reply_bound_layout [OF mem.healthy_stream_axioms, of "([], [])" REP_SUCCESS
      "\<lparr>sa_ip = V4 127 0 0 1, sa_port = 4000\<rparr>"]
  by simp

end
