(* ===== verification/Udp.thy ===== *)
theory Udp
  imports Io Socks
begin

text \<open>
  The UDP relay (\<open>src/udp.rs\<close>). The two sockets and the resolver are the environment:
  a record \<open>net\<close> holds what they answer, and every event of the relay's loop comes
  with its own answers, so that lookups and sends may succeed at one time and fail at
  another. \<open>wire\<close> records every datagram that was sent, with the host it was charged
  to; the program keeps no such list, the theorems are stated over it.
\<close>

section \<open>State\<close>

definition MAX_DATAGRAM :: nat where "MAX_DATAGRAM = 65535"

record net =
  lookup_host :: "string \<Rightarrow> u16 \<Rightarrow> (io_error, socket_addr list) result"
  send_upstream :: "bytes \<Rightarrow> socket_addr \<Rightarrow> (io_error, nat) result"
  send_client :: "bytes \<Rightarrow> socket_addr \<Rightarrow> (io_error, nat) result"
  show_io :: "io_error \<Rightarrow> string"

record relay =
  r_log :: "conn_log option"
  r_endpoints :: "(string \<times> handle) list"
  r_resolved :: "((string \<times> u16) \<times> socket_addr) list"
  r_names :: "(ip_addr \<times> string) list"
  client_addr :: "socket_addr option"

datatype packet =
    To_Upstream string socket_addr bytes nat
  | To_Client string socket_addr bytes nat

record relay_world =
  rl :: relay
  rg :: registry
  scratch :: bytes
  stderr :: "log_line list"
  wire :: "packet list"

definition new_relay :: "conn_log option \<Rightarrow> relay" where
  "new_relay l = \<lparr>r_log = l, r_endpoints = [], r_resolved = [], r_names = [], client_addr = None\<rparr>"

text \<open>
  \<open>Relay::bind\<close>: the arguments are what the two calls of \<open>UdpSocket::bind\<close> return.
\<close>

definition bind_relay ::
  "(io_error, unit) result \<Rightarrow> (io_error, unit) result \<Rightarrow> conn_log option \<Rightarrow> (io_error, relay) result" where
  "bind_relay client_side upstream l =
     (case client_side of
        Inl e \<Rightarrow> Err e
      | Inr _ \<Rightarrow> (case upstream of Inl e \<Rightarrow> Err e | Inr _ \<Rightarrow> Ok (new_relay l)))"

definition new_world :: "relay \<Rightarrow> registry \<Rightarrow> relay_world" where
  "new_world l r = \<lparr>rl = l, rg = r, scratch = [], stderr = [], wire = []\<rparr>"

section \<open>Operations\<close>

definition relay_event :: "string \<Rightarrow> relay_world \<Rightarrow> relay_world" where
  "relay_event msg w = w\<lparr>stderr := stderr w @ log_opt (r_log (rl w)) (\<lambda>l. log_event l msg)\<rparr>"

definition note_msg :: "string \<Rightarrow> relay_world \<Rightarrow> relay_world" where
  "note_msg msg w = relay_event msg w"

definition relay_endpoint :: "string \<Rightarrow> relay_world \<Rightarrow> relay_world \<times> handle" where
  "relay_endpoint host w =
     (case map_of (r_endpoints (rl w)) host of
        Some h \<Rightarrow> (w, h)
      | None \<Rightarrow>
          (case endpoint host (rg w) of (r, h) \<Rightarrow>
             (w\<lparr>rg := upd_cell h add_connection r,
                rl := (rl w)\<lparr>r_endpoints := AList.update host h (r_endpoints (rl w))\<rparr>\<rparr>,
              h)))"

definition resolve :: "net \<Rightarrow> string \<Rightarrow> u16 \<Rightarrow> relay_world \<Rightarrow> relay_world \<times> socket_addr option" where
  "resolve n host port w =
     (case map_of (r_resolved (rl w)) (host, port) of
        Some addr \<Rightarrow> (w, Some addr)
      | None \<Rightarrow>
          (case lookup_host n host port of
             Inr (addr # _) \<Rightarrow>
               (w\<lparr>rl := (rl w)\<lparr>r_resolved := AList.update (host, port) addr (r_resolved (rl w))\<rparr>\<rparr>, Some addr)
           | Inr [] \<Rightarrow> (w, None)
           | Inl err \<Rightarrow>
               (note_msg (''UDP   -- cannot resolve '' @ host @ '':'' @ show_nat (unat port) @ '': '' @ show_io n err) w,
                None)))"

definition forward_out :: "net \<Rightarrow> bytes \<Rightarrow> relay_world \<Rightarrow> relay_world" where
  "forward_out n raw w =
     (case parse_datagram raw of
        Inl err \<Rightarrow> note_msg (''UDP   -- dropped datagram: '' @ fmt_datagram_error err) w
      | Inr d \<Rightarrow>
          (case resolve n (dg_host d) (dg_port d) w of
             (w, None) \<Rightarrow> w
           | (w, Some dest) \<Rightarrow>
               (case relay_endpoint (dg_host d) w of (w, stats) \<Rightarrow>
                  (case send_upstream n (payload d) dest of
                     Inr sent \<Rightarrow>
                       relay_event (''UDP   -> '' @ show_nat sent @ '' bytes '' @ dg_host d @ '':''
                                    @ show_nat (unat (dg_port d)))
                         (w\<lparr>rg := upd_cell stats (observe_ip (sa_ip dest))
                                     (upd_cell stats (add_egress (of_nat sent)) (rg w)),
                            rl := (rl w)\<lparr>r_names := AList.update (sa_ip dest) (dg_host d) (r_names (rl w))\<rparr>,
                            wire := wire w @ [To_Upstream (dg_host d) dest (payload d) sent]\<rparr>)
                   | Inl err \<Rightarrow>
                       note_msg (''UDP   -- send to '' @ show_socket_addr dest @ '' failed: '' @ show_io n err) w))))"

text \<open>The host that a reply is charged to.\<close>

definition reply_host :: "relay \<Rightarrow> ip_addr \<Rightarrow> string" where
  "reply_host l ip = (case map_of (r_names l) ip of Some host \<Rightarrow> host | None \<Rightarrow> show_ip ip)"

definition forward_back :: "net \<Rightarrow> socket_addr \<Rightarrow> bytes \<Rightarrow> relay_world \<Rightarrow> relay_world" where
  "forward_back n from data w =
     (case client_addr (rl w) of
        None \<Rightarrow> w
      | Some client \<Rightarrow>
          (let host = reply_host (rl w) (sa_ip from) in
           case relay_endpoint host w of (w, stats) \<Rightarrow>
             (let w = w\<lparr>scratch := encode_datagram from data (scratch w)\<rparr> in
              case send_client n (scratch w) client of
                Inr _ \<Rightarrow>
                  relay_event (''UDP   <- '' @ show_nat (length data) @ '' bytes '' @ host)
                    (w\<lparr>rg := upd_cell stats (add_ingress (of_nat (length data))) (rg w),
                       wire := wire w @ [To_Client host client (scratch w) (length data)]\<rparr>)
              | Inl err \<Rightarrow> note_msg (''UDP   -- reply to client failed: '' @ show_io n err) w)))"

text \<open>
  What one turn of the loop receives: a datagram on one of the sockets, cut to the
  buffer, or an error, which ends the relay.
\<close>

datatype event =
    FromClient bytes socket_addr
  | FromUpstream bytes socket_addr
  | RecvFailed

fun relay_step :: "net \<Rightarrow> event \<Rightarrow> relay_world \<Rightarrow> relay_world option" where
  "relay_step n (FromClient data addr) w =
     Some (forward_out n (take MAX_DATAGRAM data) (w\<lparr>rl := (rl w)\<lparr>client_addr := Some addr\<rparr>\<rparr>))"
| "relay_step n (FromUpstream data addr) w = Some (forward_back n addr (take MAX_DATAGRAM data) w)"
| "relay_step n RecvFailed w = None"

fun run_relay :: "(net \<times> event) list \<Rightarrow> relay_world \<Rightarrow> relay_world" where
  "run_relay [] w = w"
| "run_relay ((n, e) # es) w = (case relay_step n e w of None \<Rightarrow> w | Some w' \<Rightarrow> run_relay es w')"

section \<open>What the relay is accountable for\<close>

fun packet_host :: "packet \<Rightarrow> string" where
  "packet_host (To_Upstream h _ _ _) = h"
| "packet_host (To_Client h _ _ _) = h"

text \<open>What a datagram adds to the row of the host it is charged to.\<close>

fun packet_charge :: "packet \<Rightarrow> endpoint_stats \<Rightarrow> endpoint_stats" where
  "packet_charge (To_Upstream _ dest _ n) = (\<lambda>s. observe_ip (sa_ip dest) (add_egress (of_nat n) s))"
| "packet_charge (To_Client _ _ _ n) = add_ingress (of_nat n)"

definition charged :: "string \<Rightarrow> packet list \<Rightarrow> endpoint_stats \<Rightarrow> endpoint_stats" where
  "charged host ps = fold packet_charge (filter (\<lambda>p. packet_host p = host) ps)"

definition opened :: "endpoint_stats option \<Rightarrow> endpoint_stats" where
  "opened s = add_connection (case s of None \<Rightarrow> default_stats | Some s' \<Rightarrow> s')"

text \<open>The name under which an address was last sent to.\<close>

fun note_name :: "packet \<Rightarrow> (ip_addr \<Rightarrow> string option) \<Rightarrow> ip_addr \<Rightarrow> string option" where
  "note_name (To_Upstream h dest _ _) m = m(sa_ip dest \<mapsto> h)"
| "note_name (To_Client _ _ _ _) m = m"

definition expected_row ::
  "registry \<Rightarrow> (string \<Rightarrow> handle option) \<Rightarrow> packet list \<Rightarrow> string \<Rightarrow> endpoint_stats option" where
  "expected_row r0 known ps h =
     (case known h of None \<Rightarrow> row r0 h | Some _ \<Rightarrow> Some (charged h ps (opened (row r0 h))))"

definition relay_inv :: "registry \<Rightarrow> relay_world \<Rightarrow> bool" where
  "relay_inv r0 w \<longleftrightarrow> registry_ok (rg w)
     \<and> map_of (r_endpoints (rl w)) \<subseteq>\<^sub>m map_of (endpoints (rg w))
     \<and> packet_host ` set (wire w) \<subseteq> dom (map_of (r_endpoints (rl w)))
     \<and> map_of (r_names (rl w)) = fold note_name (wire w) Map.empty
     \<and> row (rg w) = expected_row r0 (map_of (r_endpoints (rl w))) (wire w)"

lemma relay_inv_cong:
  assumes "relay_inv r0 w" and "rg w' = rg w" and "r_endpoints (rl w') = r_endpoints (rl w)"
    and "r_names (rl w') = r_names (rl w)" and "wire w' = wire w"
  shows "relay_inv r0 w'"
  using assms by (simp add: relay_inv_def)

lemma relay_event_simps [simp]:
  "rl (relay_event m w) = rl w" "rg (relay_event m w) = rg w" "wire (relay_event m w) = wire w"
  "scratch (relay_event m w) = scratch w"
  by (simp_all add: relay_event_def)

lemma relay_inv_event [simp]: "relay_inv r0 (relay_event m w) = relay_inv r0 w"
  by (simp add: relay_inv_def)

lemma relay_inv_new: "registry_ok r0 \<Longrightarrow> relay_inv r0 (new_world (new_relay l) r0)"
  by (simp add: relay_inv_def new_world_def new_relay_def expected_row_def fun_eq_iff)

lemma charged_none: "h \<notin> packet_host ` set ps \<Longrightarrow> charged h ps s = s"
proof -
  assume "h \<notin> packet_host ` set ps"
  then have "filter (\<lambda>p. packet_host p = h) ps = []" by (auto simp: filter_empty_conv)
  then show ?thesis by (simp add: charged_def)
qed

lemma charged_snoc:
  "charged h (ps @ [p]) s = (if packet_host p = h then packet_charge p (charged h ps s) else charged h ps s)"
  by (simp add: charged_def)

text \<open>Opening a host: a new one is a connection on its row; a known one changes nothing.\<close>

lemma relay_endpoint_inv:
  assumes "relay_inv r0 w" and "relay_endpoint host w = (w', h)"
  shows "relay_inv r0 w' \<and> map_of (r_endpoints (rl w')) host = Some h \<and> wire w' = wire w
    \<and> r_names (rl w') = r_names (rl w) \<and> client_addr (rl w') = client_addr (rl w) \<and> scratch w' = scratch w"
proof (cases "map_of (r_endpoints (rl w)) host")
  case (Some k)
  then show ?thesis using assms by (simp add: relay_endpoint_def)
next
  case None
  let ?r = "fst (endpoint host (rg w))" and ?h = "snd (endpoint host (rg w))"
  have w': "w' = w\<lparr>rg := upd_cell ?h add_connection ?r,
      rl := (rl w)\<lparr>r_endpoints := AList.update host ?h (r_endpoints (rl w))\<rparr>\<rparr>" and h: "h = ?h"
    using assms(2) None by (auto simp: relay_endpoint_def split_beta)
  have inv: "registry_ok (rg w)" "map_of (r_endpoints (rl w)) \<subseteq>\<^sub>m map_of (endpoints (rg w))"
      "packet_host ` set (wire w) \<subseteq> dom (map_of (r_endpoints (rl w)))"
      "row (rg w) host = row r0 host"
    using assms(1) None by (simp_all add: relay_inv_def expected_row_def)
  have unseen: "host \<notin> packet_host ` set (wire w)" using inv(3) None by auto
  note ch = reg.charge [OF inv(1), of host add_connection]
  have keeps: "map_of (endpoints (upd_cell ?h add_connection ?r)) k' = Some k"
    if "map_of (r_endpoints (rl w)) k' = Some k" for k k'
    using reg.open_keeps [OF inv(1), of k' k host] map_le_SomeD [OF inv(2), of k' k] that by simp
  have "map_of (AList.update host ?h (r_endpoints (rl w))) \<subseteq>\<^sub>m map_of (endpoints (upd_cell ?h add_connection ?r))"
    using ch(3) keeps by (auto simp: map_le_def update_conv')
  moreover have "row (upd_cell ?h add_connection ?r)
      = expected_row r0 (map_of (AList.update host ?h (r_endpoints (rl w)))) (wire w)"
    using ch(1) assms(1) charged_none [OF unseen] inv(4)
    by (auto simp: fun_eq_iff update_conv' relay_inv_def opened_def expected_row_def)
  ultimately show ?thesis
    using assms(1) ch(2) by (auto simp: relay_inv_def w' h update_conv')
qed

text \<open>Sending a datagram: its bytes go to the row of its host.\<close>

lemma relay_charge_inv:
  assumes "relay_inv r0 w" and "map_of (r_endpoints (rl w)) (packet_host p) = Some h"
    and "rg w' = upd_cell h (packet_charge p) (rg w)" and "wire w' = wire w @ [p]"
    and "r_endpoints (rl w') = r_endpoints (rl w)"
    and "map_of (r_names (rl w')) = note_name p (map_of (r_names (rl w)))"
  shows "relay_inv r0 w'"
proof -
  have ok: "registry_ok (rg w)" and "map_of (endpoints (rg w)) (packet_host p) = Some h"
    using assms(1,2) map_le_SomeD by (fastforce simp: relay_inv_def)+
  from reg.bump_row [OF this, of "packet_charge p"]
  have "row (rg w') = (row (rg w))(packet_host p := map_option (packet_charge p) (row (rg w) (packet_host p)))"
    by (simp add: assms(3))
  then have "row (rg w') = expected_row r0 (map_of (r_endpoints (rl w'))) (wire w')"
    using assms(1,2,4,5) by (auto simp: relay_inv_def charged_snoc expected_row_def fun_eq_iff split: option.splits)
  then show ?thesis
    using assms(1,2,4-) ok by (auto simp: relay_inv_def assms(3))
qed

lemma relay_inv_resolve: "relay_inv r0 w \<Longrightarrow> relay_inv r0 (fst (resolve n host port w))"
  by (auto simp: resolve_def note_msg_def elim!: relay_inv_cong split: option.splits sum.splits list.splits)

lemma relay_inv_out:
  assumes "relay_inv r0 w"
  shows "relay_inv r0 (forward_out n raw w)"
proof (cases "parse_datagram raw")
  case (Inr d)
  obtain w1 dest where res: "resolve n (dg_host d) (dg_port d) w = (w1, dest)" by fastforce
  have w1: "relay_inv r0 w1" using relay_inv_resolve [OF assms, of n "dg_host d" "dg_port d"] res by simp
  show ?thesis
  proof (cases dest)
    case (Some a)
    obtain w2 h where ep: "relay_endpoint (dg_host d) w1 = (w2, h)" by fastforce
    note w2 = relay_endpoint_inv [OF w1 ep]
    show ?thesis
    proof (cases "send_upstream n (payload d) a")
      case (Inr sent)
      let ?w3 = "w2\<lparr>rg := upd_cell h (observe_ip (sa_ip a)) (upd_cell h (add_egress (of_nat sent)) (rg w2)),
          rl := (rl w2)\<lparr>r_names := AList.update (sa_ip a) (dg_host d) (r_names (rl w2))\<rparr>,
          wire := wire w2 @ [To_Upstream (dg_host d) a (payload d) sent]\<rparr>"
      have "relay_inv r0 ?w3"
        by (rule relay_charge_inv [where w = w2 and h = h and p = "To_Upstream (dg_host d) a (payload d) sent"])
           (use w2 in \<open>simp_all add: upd_cell_upd_cell update_conv'\<close>)
      then show ?thesis
        using Inr Some \<open>parse_datagram raw = _\<close> res ep by (simp add: forward_out_def)
    qed (use w2 Some Inr res ep in \<open>simp add: forward_out_def note_msg_def\<close>)
  qed (use w1 Inr res in \<open>simp add: forward_out_def\<close>)
qed (use assms in \<open>simp add: forward_out_def note_msg_def\<close>)

lemma relay_inv_back:
  assumes "relay_inv r0 w"
  shows "relay_inv r0 (forward_back n from data w)"
proof (cases "client_addr (rl w)")
  case (Some client)
  let ?host = "reply_host (rl w) (sa_ip from)"
  obtain w1 h where ep: "relay_endpoint ?host w = (w1, h)" by fastforce
  note w1 = relay_endpoint_inv [OF assms ep]
  let ?w2 = "w1\<lparr>scratch := encode_datagram from data (scratch w1)\<rparr>"
  have w2: "relay_inv r0 ?w2" using w1 by (auto elim: relay_inv_cong)
  show ?thesis
  proof (cases "send_client n (scratch ?w2) client")
    case (Inr u)
    let ?w3 = "?w2\<lparr>rg := upd_cell h (add_ingress (of_nat (length data))) (rg ?w2),
        wire := wire ?w2 @ [To_Client ?host client (scratch ?w2) (length data)]\<rparr>"
    have "relay_inv r0 ?w3"
      by (rule relay_charge_inv [where w = ?w2 and h = h
            and p = "To_Client ?host client (scratch ?w2) (length data)"])
         (use w1 w2 in \<open>simp_all\<close>)
    then show ?thesis using Inr Some ep by (simp add: forward_back_def Let_def)
  qed (use w2 Some ep in \<open>simp add: forward_back_def note_msg_def Let_def\<close>)
qed (use assms in \<open>simp add: forward_back_def\<close>)

lemma relay_inv_step: "relay_inv r0 w \<Longrightarrow> relay_step n e w = Some w' \<Longrightarrow> relay_inv r0 w'"
  by (cases e) (auto intro!: relay_inv_out relay_inv_back elim: relay_inv_cong)

lemma relay_inv_run: "relay_inv r0 w \<Longrightarrow> relay_inv r0 (run_relay es w)"
  by (induction es w rule: run_relay.induct) (auto dest: relay_inv_step split: option.splits)

lemma relay_endpoint_frame:
  "wire (fst (relay_endpoint h w)) = wire w" "client_addr (rl (fst (relay_endpoint h w))) = client_addr (rl w)"
  "r_names (rl (fst (relay_endpoint h w))) = r_names (rl w)"
  "r_resolved (rl (fst (relay_endpoint h w))) = r_resolved (rl w)"
  by (auto simp: relay_endpoint_def split_beta split: option.splits)

lemma resolve_frame:
  "wire (fst (resolve n h p w)) = wire w" "client_addr (rl (fst (resolve n h p w))) = client_addr (rl w)"
  "rg (fst (resolve n h p w)) = rg w"
  by (auto simp: resolve_def note_msg_def split: option.splits sum.splits list.splits)

text \<open>Each handler sends at most one datagram, derived from the one it received.\<close>

lemma forward_out_wire:
  "wire (forward_out n raw w) = wire w \<or>
   (\<exists>d dest sent. parse_datagram raw = Ok d \<and> send_upstream n (payload d) dest = Ok sent
      \<and> wire (forward_out n raw w) = wire w @ [To_Upstream (dg_host d) dest (payload d) sent])"
  using resolve_frame(1) relay_endpoint_frame(1)
  by (fastforce simp: forward_out_def note_msg_def split_beta split: sum.splits option.splits)

lemma forward_back_wire:
  "wire (forward_back n from data w) = wire w \<or>
   (\<exists>client u. client_addr (rl w) = Some client \<and> send_client n (encode_datagram from data []) client = Ok u
      \<and> wire (forward_back n from data w) =
          wire w @ [To_Client (reply_host (rl w) (sa_ip from)) client (encode_datagram from data []) (length data)])"
  using relay_endpoint_frame(1) [of "reply_host (rl w) (sa_ip from)" w]
  by (auto simp: forward_back_def note_msg_def encode_datagram_def Let_def split_beta
      split: sum.splits option.splits)

text \<open>A datagram on the wire answers for one of the received events.\<close>

fun justified :: "(net \<times> event) list \<Rightarrow> packet \<Rightarrow> bool" where
  "justified es (To_Upstream host dest data n) =
     (\<exists>nt raw addr d. (nt, FromClient raw addr) \<in> set es
        \<and> parse_datagram (take MAX_DATAGRAM raw) = Ok d \<and> dg_host d = host \<and> payload d = data
        \<and> send_upstream nt data dest = Ok n)"
| "justified es (To_Client host client bs n) =
     (\<exists>nt raw from. (nt, FromUpstream raw from) \<in> set es
        \<and> parse_datagram bs = Ok \<lparr>dg_host = show_ip (sa_ip from), dg_port = sa_port from,
                                  payload = take MAX_DATAGRAM raw\<rparr>
        \<and> n = length (take MAX_DATAGRAM raw))"

lemma justified_mono: "justified es p \<Longrightarrow> set es \<subseteq> set es' \<Longrightarrow> justified es' p"
  by (cases p) (simp_all, blast+)

lemma parse_encoded:
  "parse_datagram (encode_datagram from data out)
    = Ok \<lparr>dg_host = show_ip (sa_ip from), dg_port = sa_port from, payload = data\<rparr>"
  using parse_datagram_complete [of "Ip (sa_ip from)" 0 0 "sa_port from" data]
  by (simp add: encode_datagram_def addr_field_bytes datagram_bytes_def)

lemma relay_step_wire:
  assumes "relay_step n e w = Some w'"
  shows "wire w' = wire w \<or> (\<exists>p. wire w' = wire w @ [p] \<and> justified [(n, e)] p)"
proof (cases e)
  case (FromClient data addr)
  then have "w' = forward_out n (take MAX_DATAGRAM data) (w\<lparr>rl := (rl w)\<lparr>client_addr := Some addr\<rparr>\<rparr>)"
    using assms by simp
  then show ?thesis
    using forward_out_wire [of n "take MAX_DATAGRAM data" "w\<lparr>rl := (rl w)\<lparr>client_addr := Some addr\<rparr>\<rparr>"]
    by (auto simp: FromClient)
next
  case (FromUpstream data addr)
  then have "w' = forward_back n addr (take MAX_DATAGRAM data) w" using assms by simp
  then show ?thesis
    using forward_back_wire [of n addr "take MAX_DATAGRAM data" w]
    by (auto simp: FromUpstream parse_encoded)
qed (use assms in simp)

lemma run_relay_wire:
  "\<exists>ps. wire (run_relay es w) = wire w @ ps \<and> (\<forall>p \<in> set ps. justified es p)"
proof (induction es w rule: run_relay.induct)
  case (2 n e es w)
  show ?case
  proof (cases "relay_step n e w")
    case (Some w')
    obtain ps where ps: "wire (run_relay es w') = wire w' @ ps" "\<forall>p \<in> set ps. justified es p"
      using 2 [OF Some] by auto
    obtain qs where "wire w' = wire w @ qs" "\<forall>p \<in> set qs. justified [(n, e)] p"
      using relay_step_wire [OF Some] by (metis append_Nil2 list.set(1) empty_iff set_ConsD)
    then have "wire (run_relay ((n, e) # es) w) = wire w @ (qs @ ps)"
        "\<forall>p \<in> set (qs @ ps). justified ((n, e) # es) p"
      using ps Some by (auto intro: justified_mono)
    then show ?thesis by blast
  qed simp
qed simp

text \<open>The bytes on the wire, host by host, and the names an address was sent to under.\<close>

fun sent_bytes :: "string \<Rightarrow> packet \<Rightarrow> nat" where
  "sent_bytes host (To_Upstream h _ _ n) = (if h = host then n else 0)"
| "sent_bytes host (To_Client _ _ _ _) = 0"

fun received_bytes :: "string \<Rightarrow> packet \<Rightarrow> nat" where
  "received_bytes host (To_Client h _ _ n) = (if h = host then n else 0)"
| "received_bytes host (To_Upstream _ _ _ _) = 0"

fun sent_to_ip :: "ip_addr \<Rightarrow> packet \<Rightarrow> bool" where
  "sent_to_ip ip (To_Upstream _ dest _ _) = (sa_ip dest = ip)"
| "sent_to_ip ip (To_Client _ _ _ _) = False"

definition names_of_ip :: "ip_addr \<Rightarrow> packet list \<Rightarrow> string list" where
  "names_of_ip ip ps = map packet_host (filter (sent_to_ip ip) ps)"

lemma charged_fields:
  "egress (charged h ps s) = egress s + of_nat (sum_list (map (sent_bytes h) ps))
   \<and> ingress (charged h ps s) = ingress s + of_nat (sum_list (map (received_bytes h) ps))
   \<and> connections (charged h ps s) = connections s"
proof (induction ps rule: rev_induct)
  case (snoc p ps)
  then show ?case
    by (cases p) (simp_all add: charged_snoc add_egress_def add_ingress_def observe_ip_def)
qed (simp add: charged_def)

lemma no_host_no_bytes:
  assumes "h \<notin> packet_host ` set ps"
  shows "sum_list (map (sent_bytes h) ps) = 0" "sum_list (map (received_bytes h) ps) = 0"
proof -
  have "sent_bytes h p = 0 \<and> received_bytes h p = 0" if "p \<in> set ps" for p
    using assms that by (cases p) force+
  then show "sum_list (map (sent_bytes h) ps) = 0" "sum_list (map (received_bytes h) ps) = 0"
    by simp_all
qed

lemma fold_note_name:
  "fold note_name ps Map.empty ip = (if names_of_ip ip ps = [] then None else Some (last (names_of_ip ip ps)))"
proof (induction ps rule: rev_induct)
  case (snoc p ps)
  then show ?case by (cases p) (auto simp: names_of_ip_def)
qed (simp add: names_of_ip_def)

lemma relay_step_resolved:
  assumes "relay_step n e w = Some w'" and "map_of (r_resolved (rl w)) k = Some a"
  shows "map_of (r_resolved (rl w')) k = Some a"
proof (cases e)
  case (FromClient data addr)
  let ?w = "w\<lparr>rl := (rl w)\<lparr>client_addr := Some addr\<rparr>\<rparr>"
  have res: "map_of (r_resolved (rl (fst (resolve n h p ?w)))) k = Some a" for h p
    using assms(2)
    by (auto simp: resolve_def note_msg_def update_conv' split: option.splits sum.splits list.splits)
  then show ?thesis
    using assms(1) FromClient assms(2) res relay_endpoint_frame(4)
    by (auto simp: forward_out_def note_msg_def split_beta split: sum.splits option.splits)
next
  case (FromUpstream data addr)
  then show ?thesis
    using assms relay_endpoint_frame(4)
    by (auto simp: forward_back_def note_msg_def Let_def split_beta split: sum.splits option.splits)
qed (use assms in simp)

lemma run_relay_resolved:
  "map_of (r_resolved (rl w)) k = Some a \<Longrightarrow> map_of (r_resolved (rl (run_relay es w))) k = Some a"
  by (induction es w rule: run_relay.induct) (auto dest: relay_step_resolved split: option.splits)

section \<open>Properties\<close>

text \<open>A resolver that knows one address and sockets that accept every datagram.\<close>

definition demo_net :: net where
  "demo_net = \<lparr>lookup_host = (\<lambda>_ p. Ok [\<lparr>sa_ip = V4 10 0 0 7, sa_port = p\<rparr>]),
     send_upstream = (\<lambda>bs _. Ok (length bs)), send_client = (\<lambda>bs _. Ok (length bs)), show_io = (\<lambda>_. [])\<rparr>"

definition demo_events :: "(net \<times> event) list" where
  "demo_events =
     [(demo_net, FromClient (datagram_bytes 0 0 (Name (str_bytes ''b.dev'')) 53 [1, 2]) \<lparr>sa_ip = V4 127 0 0 1, sa_port = 9\<rparr>),
      (demo_net, FromUpstream [3, 4, 5] \<lparr>sa_ip = V4 10 0 0 7, sa_port = 53\<rparr>)]"

lemma take_max_datagram: "length xs \<le> 65535 \<Longrightarrow> take MAX_DATAGRAM xs = xs"
  by (simp add: MAX_DATAGRAM_def)

lemma demo_run:
  "run_relay demo_events (new_world (new_relay None) two_hosts) =
    \<lparr>rl = \<lparr>r_log = None, r_endpoints = [(''b.dev'', 1)],
       r_resolved = [((''b.dev'', 53), \<lparr>sa_ip = V4 10 0 0 7, sa_port = 53\<rparr>)],
       r_names = [(V4 10 0 0 7, ''b.dev'')], client_addr = Some \<lparr>sa_ip = V4 127 0 0 1, sa_port = 9\<rparr>\<rparr>,
     rg = two_hosts\<lparr>heap := [\<lparr>ingress = 5, egress = 7, connections = 1, ip_slot = None\<rparr>,
       \<lparr>ingress = 12, egress = 4, connections = 4, ip_slot = Some (V4 1 2 3 4)\<rparr>]\<rparr>,
     scratch = encode_datagram \<lparr>sa_ip = V4 10 0 0 7, sa_port = 53\<rparr> [3, 4, 5] [],
     stderr = [],
     wire = [To_Upstream ''b.dev'' \<lparr>sa_ip = V4 10 0 0 7, sa_port = 53\<rparr> [1, 2] 2,
       To_Client ''b.dev'' \<lparr>sa_ip = V4 127 0 0 1, sa_port = 9\<rparr>
         (encode_datagram \<lparr>sa_ip = V4 10 0 0 7, sa_port = 53\<rparr> [3, 4, 5] []) 3]\<rparr>"
proof -
  let ?raw = "datagram_bytes 0 0 (Name (str_bytes ''b.dev'')) 53 [1, 2]"
  have raw: "parse_datagram (take MAX_DATAGRAM ?raw) = Ok \<lparr>dg_host = ''b.dev'', dg_port = 53, payload = [1, 2]\<rparr>"
  proof -
    have "normal_host (str_bytes ''b.dev'') = ''b.dev''" by code_simp
    moreover have "take MAX_DATAGRAM ?raw = ?raw" by (rule take_max_datagram) (simp add: datagram_bytes_def)
    ultimately show ?thesis using parse_datagram_complete [of "Name (str_bytes ''b.dev'')" 0 0 53 "[1, 2]"] by simp
  qed
  show ?thesis
    by (simp add: demo_events_def forward_out_def raw del: list.map)
       (simp add: resolve_def relay_endpoint_def endpoint_def
        forward_back_def reply_host_def demo_net_def new_world_def new_relay_def two_hosts_def upd_cell_def
        add_connection_def add_egress_def add_ingress_def observe_ip_def relay_event_def log_opt_def
        take_max_datagram encode_datagram_def Let_def)
qed

text \<open>
  C21: The relay's books balance: over a whole association, whatever the client and the
  network send and whichever lookups and sends fail, the row of every host the
  association opened has grown by one connection, by the payload bytes sent to that
  host as egress and by the payload bytes of the replies handed to the client as
  ingress, headers excluded; every other row is untouched and nothing on the wire is
  charged to it.
\<close>

theorem relay_accounts:
  assumes "registry_ok r0" and "w = run_relay es (new_world (new_relay l) r0)"
  shows "case map_of (r_endpoints (rl w)) host of
      None \<Rightarrow> row (rg w) host = row r0 host
        \<and> sum_list (map (sent_bytes host) (wire w)) = 0 \<and> sum_list (map (received_bytes host) (wire w)) = 0
    | Some _ \<Rightarrow> \<exists>s. row (rg w) host = Some s
        \<and> (let base = (case row r0 host of None \<Rightarrow> default_stats | Some b \<Rightarrow> b) in
             egress s = egress base + of_nat (sum_list (map (sent_bytes host) (wire w)))
             \<and> ingress s = ingress base + of_nat (sum_list (map (received_bytes host) (wire w)))
             \<and> connections s = connections base + 1)"
proof -
  have inv: "relay_inv r0 w"
    using relay_inv_run [OF relay_inv_new [OF assms(1)]] assms(2) by simp
  then have row: "row (rg w) host = expected_row r0 (map_of (r_endpoints (rl w))) (wire w) host"
    and wire: "packet_host ` set (wire w) \<subseteq> dom (map_of (r_endpoints (rl w)))"
    by (simp_all add: relay_inv_def)
  show ?thesis
  proof (cases "map_of (r_endpoints (rl w)) host")
    case None
    then have "host \<notin> packet_host ` set (wire w)" using wire by auto
    with None row no_host_no_bytes [OF this] show ?thesis by (simp add: expected_row_def)
  next
    case (Some h)
    then show ?thesis
      using row charged_fields [of host "wire w" "opened (row r0 host)"]
      by (simp add: expected_row_def opened_def add_connection_def)
  qed
qed

theorem relay_accounts_witness:
  "\<exists>s. row (rg (run_relay demo_events (new_world (new_relay None) two_hosts))) ''b.dev'' = Some s
    \<and> egress s = 4 \<and> ingress s = 12 \<and> connections s = 4"
proof -
  let ?w = "run_relay demo_events (new_world (new_relay None) two_hosts)"
  have "map_of (r_endpoints (rl ?w)) ''b.dev'' = Some 1" "map (sent_bytes ''b.dev'') (wire ?w) = [2, 0]"
    "map (received_bytes ''b.dev'') (wire ?w) = [0, 3]"
    "row two_hosts ''b.dev'' = Some \<lparr>ingress = 9, egress = 2, connections = 3, ip_slot = Some (V4 1 2 3 4)\<rparr>"
    by (simp_all add: demo_run) (simp add: two_hosts_def row_def cell_def)
  then show ?thesis
    using relay_accounts [OF registry_ok_two_hosts, of ?w demo_events None "''b.dev''"] by simp
qed



text \<open>
  The relay forges nothing: every datagram it sent upstream carries the payload of
  a well-formed datagram received from the client, charged to the host that datagram
  names; every datagram it handed to the client decodes to the source address and the
  payload of one received from the network.
\<close>

theorem relay_forwards_only_received:
  assumes "p \<in> set (wire (run_relay es (new_world (new_relay l) r0)))"
  shows "justified es p"
  using run_relay_wire [of es "new_world (new_relay l) r0"] assms by (auto simp: new_world_def)

theorem relay_forwards_only_received_witness:
  "justified demo_events (To_Upstream ''b.dev'' \<lparr>sa_ip = V4 10 0 0 7, sa_port = 53\<rparr> [1, 2] 2)"
proof (rule relay_forwards_only_received)
  show "To_Upstream ''b.dev'' \<lparr>sa_ip = V4 10 0 0 7, sa_port = 53\<rparr> [1, 2] 2
      \<in> set (wire (run_relay demo_events (new_world (new_relay None) two_hosts)))" by (simp add: demo_run)
qed

text \<open>
  A destination is resolved once per association: after a lookup succeeded, the
  same name and port give the same address for the rest of the association, whatever
  the resolver would answer by then.
\<close>

theorem resolve_once:
  assumes "resolve n host port w = (w1, Some addr)"
  shows "resolve n' host port (run_relay es w1) = (run_relay es w1, Some addr)"
proof -
  have "map_of (r_resolved (rl w1)) (host, port) = Some addr"
    using assms by (auto simp: resolve_def update_conv' split: option.splits sum.splits list.splits)
  from run_relay_resolved [OF this, of es] show ?thesis by (simp add: resolve_def)
qed

theorem resolve_once_witness:
  "snd (resolve (demo_net\<lparr>lookup_host := \<lambda>_ _. Err (OtherIo 1)\<rparr>) ''b.dev'' 53
    (run_relay demo_events (fst (resolve demo_net ''b.dev'' 53 (new_world (new_relay None) two_hosts)))))
    = Some \<lparr>sa_ip = V4 10 0 0 7, sa_port = 53\<rparr>"
proof -
  have "resolve demo_net ''b.dev'' 53 (new_world (new_relay None) two_hosts)
    = (fst (resolve demo_net ''b.dev'' 53 (new_world (new_relay None) two_hosts)),
       Some \<lparr>sa_ip = V4 10 0 0 7, sa_port = 53\<rparr>)"
    by (simp add: resolve_def demo_net_def new_world_def new_relay_def)
  from resolve_once [OF this, of "demo_net\<lparr>lookup_host := \<lambda>_ _. Err (OtherIo 1)\<rparr>" demo_events]
  show ?thesis by simp
qed

text \<open>
  What cannot be relayed is dropped without a trace in the books: a malformed
  client datagram changes nothing but the log, a datagram whose destination does not
  resolve charges nobody, and a reply that arrives before the client has sent anything
  changes nothing at all.
\<close>

theorem relay_drops:
  shows "(parse_datagram raw = Err e \<longrightarrow> (\<exists>out. forward_out n raw w = w\<lparr>stderr := out\<rparr>))
    \<and> (parse_datagram raw = Ok d \<and> snd (resolve n (dg_host d) (dg_port d) w) = None
        \<longrightarrow> (\<exists>out. forward_out n raw w = w\<lparr>stderr := out\<rparr>))
    \<and> (client_addr (rl w) = None \<longrightarrow> forward_back n from data w = w)"
proof (intro conjI impI)
  assume "parse_datagram raw = Err e"
  then show "\<exists>out. forward_out n raw w = w\<lparr>stderr := out\<rparr>"
    by (auto simp: forward_out_def note_msg_def relay_event_def)
next
  assume "parse_datagram raw = Ok d \<and> snd (resolve n (dg_host d) (dg_port d) w) = None"
  moreover then have "\<exists>out. fst (resolve n (dg_host d) (dg_port d) w) = w\<lparr>stderr := out\<rparr>"
    by (auto simp: resolve_def note_msg_def relay_event_def split: option.splits sum.splits list.splits
        intro: exI [of _ "stderr w"])
  ultimately show "\<exists>out. forward_out n raw w = w\<lparr>stderr := out\<rparr>"
    by (auto simp: forward_out_def split: prod.splits option.splits)
qed (simp add: forward_back_def)

theorem relay_drops_witness:
  "\<exists>out. forward_out demo_net [0, 0, 0] (new_world (new_relay None) two_hosts)
    = (new_world (new_relay None) two_hosts)\<lparr>stderr := out\<rparr>"
proof -
  have "parse_datagram [0, 0, 0] = Err Truncated" by (simp add: parse_datagram_def UDP_HEADER_PREFIX_def)
  then show ?thesis
    using relay_drops [of "[0, 0, 0]" Truncated demo_net "new_world (new_relay None) two_hosts"] by blast
qed

end
