(* ===== verification/Http_Head.thy ===== *)
theory Http_Head
  imports Socks
begin

text \<open>
  The request-head functions of the proxy (\<open>src/proxy.rs\<close>): reading a head off the
  client connection, finding its end, its request line, and splitting an authority
  into host and port. The connection adds to \<open>sock_ops\<close> tokio's \<open>read\<close> and \<open>peek\<close>.
\<close>

section \<open>The connection\<close>

text \<open>
  \<open>recv\<close> is \<open>read\<close> into a buffer of the given size: it returns the bytes read, none at
  the end of the stream. \<open>peek\<close> looks at the first byte without consuming it.
\<close>

record 's tcp_ops = "'s sock_ops" +
  recv :: "'s \<Rightarrow> nat \<Rightarrow> 's \<times> (io_error, bytes) result"
  peek :: "'s \<Rightarrow> 's \<times> (io_error, bytes) result"
  set_nodelay :: "'s \<Rightarrow> (io_error, unit) result"

section \<open>Heads\<close>

definition MAX_HEAD_BYTES :: nat where "MAX_HEAD_BYTES = 64 * 1024"

text \<open>\<open>buf.windows(n).position(|w| w == pat)\<close> for a pattern of length \<open>n\<close>.\<close>

fun window_position :: "bytes \<Rightarrow> bytes \<Rightarrow> nat option" where
  "window_position pat buf =
     (if length buf < length pat then None
      else if take (length pat) buf = pat then Some 0
      else case buf of [] \<Rightarrow> None | _ # rest \<Rightarrow> map_option Suc (window_position pat rest))"

declare window_position.simps [simp del]

definition CRLF :: bytes where "CRLF = [13, 10]"

definition find_head_end :: "bytes \<Rightarrow> nat option" where
  "find_head_end buf = map_option (\<lambda>i. i + 4) (window_position (CRLF @ CRLF) buf)"

definition head_body :: "bytes \<Rightarrow> bytes" where
  "head_body head = (case find_head_end head of None \<Rightarrow> [] | Some e \<Rightarrow> drop e head)"

text \<open>The loop of \<open>read_head\<close>, from the bytes buffered so far.\<close>

function read_head_loop ::
  "('s, 'x) tcp_ops_scheme \<Rightarrow> 's \<Rightarrow> bytes \<Rightarrow> 's \<times> (io_error, bytes) result" where
  "read_head_loop ops s buf =
     (case recv ops s 2048 of
        (s', Inl e) \<Rightarrow> (s', Err e)
      | (s', Inr chunk) \<Rightarrow>
          if chunk = [] then (s', if buf = [] then Err UnexpectedEof else Ok buf)
          else
            let buf' = buf @ chunk in
            if find_head_end buf' \<noteq> None then (s', Ok buf')
            else if MAX_HEAD_BYTES < length buf' then (s', Err InvalidData)
            else read_head_loop ops s' buf')"
  by pat_completeness auto
termination
  by (relation "measure (\<lambda>(ops, s, buf). Suc MAX_HEAD_BYTES - length buf)") (auto intro!: diff_less_mono2)

declare read_head_loop.simps [simp del]

definition read_head :: "('s, 'x) tcp_ops_scheme \<Rightarrow> 's \<Rightarrow> 's \<times> (io_error, bytes) result" where
  "read_head ops s = read_head_loop ops s []"

definition request_line :: "bytes \<Rightarrow> (string \<times> string) option" where
  "request_line head =
     Option.bind (window_position CRLF head) (\<lambda>line_end.
     Option.bind (from_utf8 (take line_end head)) (\<lambda>line.
       case split_on (CHR '' '') line of
         mth # tgt # _ \<Rightarrow> if mth \<noteq> [] \<and> tgt \<noteq> [] then Some (mth, tgt) else None
       | _ \<Rightarrow> None))"

section \<open>Authorities\<close>

definition split_authority :: "string \<Rightarrow> u16 \<Rightarrow> string \<times> u16" where
  "split_authority authority default_port =
     (case strip_prefix (CHR ''['') authority of
        Some rest \<Rightarrow>
          (let (host, tail) = (case split_once (CHR '']'') rest of Some p \<Rightarrow> p | None \<Rightarrow> (rest, []));
               port = (case Option.bind (strip_prefix (CHR '':'') tail) parse_u16 of
                         Some p \<Rightarrow> p | None \<Rightarrow> default_port)
           in (to_ascii_lowercase host, port))
      | None \<Rightarrow>
          (case rsplit_once (CHR '':'') authority of
             Some (host, port) \<Rightarrow>
               (case parse_u16 port of
                  Some p \<Rightarrow> (to_ascii_lowercase host, p)
                | None \<Rightarrow> (to_ascii_lowercase authority, default_port))
           | None \<Rightarrow> (to_ascii_lowercase authority, default_port)))"

section \<open>Windows\<close>

lemma window_position_Some:
  "window_position pat buf = Some i \<longleftrightarrow>
     i + length pat \<le> length buf \<and> take (length pat) (drop i buf) = pat
     \<and> (\<forall>j < i. take (length pat) (drop j buf) \<noteq> pat)"
proof (induction pat buf arbitrary: i rule: window_position.induct)
  case (1 pat buf)
  show ?case
  proof (cases "length buf < length pat \<or> take (length pat) buf = pat")
    case True
    then show ?thesis
      by (subst window_position.simps) (auto intro: gr0I)
  next
    case False
    show ?thesis
    proof (cases buf)
      case Nil
      then show ?thesis using False by (subst window_position.simps) auto
    next
      case (Cons x rest)
      have "window_position pat buf = map_option Suc (window_position pat rest)"
        using False Cons by (subst window_position.simps) auto
      moreover have "(\<forall>j < Suc k. take (length pat) (drop j buf) \<noteq> pat) \<longleftrightarrow>
          (\<forall>j < k. take (length pat) (drop j rest) \<noteq> pat)" for k
        using False Cons by (auto simp: less_Suc_eq_0_disj)
      moreover have "0 + length pat \<le> length buf \<and> take (length pat) (drop 0 buf) = pat \<longleftrightarrow> False"
        using False by simp
      ultimately show ?thesis
        using 1 False Cons by (cases i) auto
    qed
  qed
qed

lemma window_position_None:
  "window_position pat buf = None \<longleftrightarrow> (\<forall>i. i + length pat \<le> length buf \<longrightarrow> take (length pat) (drop i buf) \<noteq> pat)"
proof
  assume "window_position pat buf = None"
  moreover have "\<exists>k. window_position pat buf = Some k"
    if "i + length pat \<le> length buf" "take (length pat) (drop i buf) = pat" for i
  proof -
    let ?P = "\<lambda>k. k + length pat \<le> length buf \<and> take (length pat) (drop k buf) = pat"
    define k where "k = (LEAST k. ?P k)"
    have "?P k" unfolding k_def using that by (intro LeastI [of ?P i]) simp
    moreover have "take (length pat) (drop j buf) \<noteq> pat" if "j < k" for j
      using not_less_Least [of j ?P] that \<open>?P k\<close> unfolding k_def [symmetric] by simp
    ultimately show ?thesis by (intro exI [of _ k]) (simp add: window_position_Some)
  qed
  ultimately show "\<forall>i. i + length pat \<le> length buf \<longrightarrow> take (length pat) (drop i buf) \<noteq> pat" by auto
next
  assume "\<forall>i. i + length pat \<le> length buf \<longrightarrow> take (length pat) (drop i buf) \<noteq> pat"
  then show "window_position pat buf = None"
    using window_position_Some [of pat buf] by (cases "window_position pat buf") auto
qed

lemma window_position_append:
  "window_position pat xs = Some i \<Longrightarrow> window_position pat (xs @ ys) = Some i"
  by (auto simp: window_position_Some)

lemma find_head_end_append: "find_head_end xs = Some e \<Longrightarrow> find_head_end (xs @ ys) = Some e"
  by (auto simp: find_head_end_def window_position_append)

lemma find_head_end_le: "find_head_end xs = Some e \<Longrightarrow> e \<le> length xs"
  by (auto simp: find_head_end_def window_position_Some CRLF_def)

lemma request_line_append:
  assumes "request_line xs = Some r"
  shows "request_line (xs @ ys) = Some r"
proof -
  obtain i where i: "window_position CRLF xs = Some i"
    using assms by (auto simp: request_line_def Option.bind_eq_Some_conv)
  then have "i \<le> length xs" by (auto simp: window_position_Some)
  then show ?thesis
    using assms i window_position_append [OF i, of ys] by (simp add: request_line_def)
qed

lemma head_split: "find_head_end buf = Some e \<Longrightarrow> buf = take e buf @ head_body buf"
  by (simp add: head_body_def)

lemma read_head_loop_err: "recv ops s 2048 = (s1, Err e) \<Longrightarrow> read_head_loop ops s buf = (s1, Err e)"
  by (subst read_head_loop.simps) simp

lemma read_head_loop_ok:
  "recv ops s 2048 = (s1, Ok chunk) \<Longrightarrow>
    read_head_loop ops s buf =
      (if chunk = [] then (s1, if buf = [] then Err UnexpectedEof else Ok buf)
       else if find_head_end (buf @ chunk) \<noteq> None then (s1, Ok (buf @ chunk))
       else if MAX_HEAD_BYTES < length (buf @ chunk) then (s1, Err InvalidData)
       else read_head_loop ops s1 (buf @ chunk))"
  by (subst read_head_loop.simps) (simp add: Let_def)

section \<open>The contract of a TCP connection\<close>

text \<open>
  On top of \<open>byte_stream\<close>: \<open>read\<close> delivers some of the next bytes, at most as many as the
  buffer holds, and none only at the end of the stream; \<open>peek\<close> consumes nothing.
\<close>

locale tcp_stream = byte_stream ops incoming outgoing
  for ops :: "('s, 'x) tcp_ops_scheme" and incoming :: "'s \<Rightarrow> bytes" and outgoing :: "'s \<Rightarrow> bytes" +
  assumes recv_ok: "recv ops s n = (s', Ok bs) \<Longrightarrow>
      length bs \<le> n \<and> incoming s = bs @ incoming s' \<and> outgoing s' = outgoing s"
    and recv_eof: "recv ops s n = (s', Ok []) \<Longrightarrow> 0 < n \<Longrightarrow> incoming s = []"
    and peek_ok: "peek ops s = (s', Ok bs) \<Longrightarrow>
      bs = take 1 (incoming s) \<and> incoming s' = incoming s \<and> outgoing s' = outgoing s"
begin

lemma read_head_loop_sound:
  "read_head_loop ops s buf = (s', Ok head) \<Longrightarrow> find_head_end buf = None \<Longrightarrow> length buf \<le> MAX_HEAD_BYTES \<Longrightarrow>
     head \<noteq> [] \<and> buf @ incoming s = head @ incoming s' \<and> outgoing s' = outgoing s
     \<and> length head \<le> MAX_HEAD_BYTES + 2048 \<and> (find_head_end head \<noteq> None \<or> incoming s' = [])"
proof (induction "Suc MAX_HEAD_BYTES - length buf" arbitrary: s buf rule: less_induct)
  case less
  obtain s1 r where rv: "recv ops s 2048 = (s1, r)" by fastforce
  then obtain chunk where r: "r = Ok chunk"
    using less.prems(1) by (cases r) (auto simp: read_head_loop_err)
  note step = read_head_loop_ok [OF rv [unfolded r], of buf]
  have rd: "length chunk \<le> 2048" "incoming s = chunk @ incoming s1" "outgoing s1 = outgoing s"
      "chunk = [] \<Longrightarrow> incoming s = []"
    using recv_ok [OF rv [unfolded r]] recv_eof [of s 2048 s1] rv r by auto
  show ?case
  proof (cases "chunk = [] \<or> find_head_end (buf @ chunk) \<noteq> None")
    case True
    then show ?thesis using less.prems step rd by (auto split: if_splits)
  next
    case False
    then have "length (buf @ chunk) \<le> MAX_HEAD_BYTES" and rec: "read_head_loop ops s1 (buf @ chunk) = (s', Ok head)"
      using less.prems(1) step by (auto split: if_splits)
    moreover have "Suc MAX_HEAD_BYTES - length (buf @ chunk) < Suc MAX_HEAD_BYTES - length buf"
      using False less.prems(3) by (auto intro: diff_less_mono2)
    ultimately show ?thesis
      using less.hyps [of "buf @ chunk" s1] False rd by auto
  qed
qed

text \<open>A head that ends within the limit is found, if no read fails.\<close>

lemma read_head_loop_complete:
  assumes "\<And>s. \<not> isl (snd (recv ops s 2048))"
  shows "find_head_end (take MAX_HEAD_BYTES (buf @ incoming s)) \<noteq> None \<Longrightarrow> find_head_end buf = None \<Longrightarrow>
    length buf \<le> MAX_HEAD_BYTES \<Longrightarrow>
    \<exists>s' head. read_head_loop ops s buf = (s', Ok head) \<and> find_head_end head \<noteq> None"
proof (induction "Suc MAX_HEAD_BYTES - length buf" arbitrary: s buf rule: less_induct)
  case less
  obtain s1 chunk where rv: "recv ops s 2048 = (s1, Ok chunk)"
    using assms [of s] by (cases "recv ops s 2048"; cases "snd (recv ops s 2048)") auto
  have rd: "incoming s = chunk @ incoming s1" "chunk = [] \<Longrightarrow> incoming s = []"
    using recv_ok [OF rv] recv_eof [of s 2048 s1] rv by auto
  have ne: "chunk \<noteq> []" using rd(2) less.prems by auto
  show ?case
  proof (cases "find_head_end (buf @ chunk) \<noteq> None")
    case True
    then show ?thesis using ne read_head_loop_ok [OF rv, of buf] by auto
  next
    case False
    have short: "length (buf @ chunk) \<le> MAX_HEAD_BYTES"
    proof (rule ccontr)
      assume "\<not> length (buf @ chunk) \<le> MAX_HEAD_BYTES"
      then have "buf @ chunk = take MAX_HEAD_BYTES (buf @ incoming s) @ drop MAX_HEAD_BYTES (buf @ chunk)"
        using less.prems(3) by (simp add: rd(1))
      then show False
        using less.prems(1) False find_head_end_append by (metis option.exhaust)
    qed
    moreover have "Suc MAX_HEAD_BYTES - length (buf @ chunk) < Suc MAX_HEAD_BYTES - length buf"
      using ne less.prems(3) by (auto intro: diff_less_mono2)
    ultimately obtain s' head where "read_head_loop ops s1 (buf @ chunk) = (s', Ok head)" "find_head_end head \<noteq> None"
      using less.hyps [of "buf @ chunk" s1] less.prems(1) False rd(1) by auto
    then show ?thesis using read_head_loop_ok [OF rv, of buf] ne False short by auto
  qed
qed

lemma find_head_end_Nil: "find_head_end [] = None"
  by (simp add: find_head_end_def CRLF_def window_position.simps)

lemma read_head_sound:
  assumes "read_head ops s = (s', Ok head)"
  shows "head \<noteq> [] \<and> incoming s = head @ incoming s' \<and> outgoing s' = outgoing s
    \<and> length head \<le> MAX_HEAD_BYTES + 2048 \<and> (find_head_end head \<noteq> None \<or> incoming s' = [])"
  using read_head_loop_sound [of s "[]" s' head] assms find_head_end_Nil by (simp add: read_head_def)

lemma read_head_finds:
  assumes "\<And>s. \<not> isl (snd (recv ops s 2048))" and "find_head_end (take MAX_HEAD_BYTES (incoming s)) = Some e"
  shows "\<exists>s' head. read_head ops s = (s', Ok head) \<and> find_head_end head = Some e
    \<and> incoming s = head @ incoming s' \<and> outgoing s' = outgoing s"
proof -
  obtain s' head where run: "read_head ops s = (s', Ok head)" and "find_head_end head \<noteq> None"
    using read_head_loop_complete [OF assms(1), of "[]" s] assms(2) find_head_end_Nil by (auto simp: read_head_def)
  then obtain e' where e': "find_head_end head = Some e'" by blast
  note sound = read_head_sound [OF run]
  have "find_head_end (incoming s) = Some e'" using find_head_end_append [OF e'] sound by simp
  moreover have "find_head_end (incoming s) = Some e"
    using find_head_end_append [OF assms(2), of "drop MAX_HEAD_BYTES (incoming s)"] by simp
  ultimately show ?thesis using run sound e' by auto
qed

end

text \<open>The in-memory connection as a TCP connection.\<close>

definition mem_tcp :: "(bytes \<times> bytes) tcp_ops" where
  "mem_tcp =
     \<lparr>read_exact = read_exact mem_ops, write_all = write_all mem_ops,
      recv = (\<lambda>(inp, out) n. ((drop n inp, out), Ok (take n inp))),
      peek = (\<lambda>(inp, out). ((inp, out), Ok (take 1 inp))),
      set_nodelay = (\<lambda>_. Ok ())\<rparr>"

interpretation mem_tcp: tcp_stream mem_tcp fst snd
  by unfold_locales (auto simp: mem_tcp_def mem_ops_def split: if_splits)

section \<open>Printed addresses are authorities\<close>

definition addr_char :: "char \<Rightarrow> bool" where
  "addr_char c \<longleftrightarrow> (let n = (of_char c :: nat) in (46 \<le> n \<and> n \<le> 58) \<or> (97 \<le> n \<and> n \<le> 102))"

lemma addr_char_digit: "d < 16 \<Longrightarrow> addr_char (digit_char d)"
  by (cases "d < 10") (simp_all add: addr_char_def of_char_digit of_char_hex_digit)

lemma addr_char_show: "2 \<le> b \<Longrightarrow> b \<le> 16 \<Longrightarrow> list_all addr_char (show_base b n)"
proof (induction b n rule: show_base.induct)
  case (1 b n)
  have "n mod b < b" using 1(2) by simp
  then have "n mod b < 16" using 1(3) by linarith
  then show ?case
    using 1 addr_char_digit [of n] addr_char_digit [of "n mod b"]
    by (subst show_base.simps) auto
qed

lemma addr_char_join: "list_all addr_char sep \<Longrightarrow> list_all (list_all addr_char) xs \<Longrightarrow> list_all addr_char (join sep xs)"
  by (induction sep xs rule: join.induct) auto

lemma addr_char_seps: "addr_char (CHR ''.'')" "addr_char (CHR '':'')" "addr_char (CHR ''f'')"
  by (simp_all add: addr_char_def)

lemma addr_char_subslice: "list_all addr_char (fmt_subslice ss)"
  unfolding fmt_subslice_def
  by (rule addr_char_join) (auto simp: addr_char_seps list.pred_map addr_char_show list.pred_True comp_def)

lemma addr_char_show_ip: "list_all addr_char (show_ip ip)"
proof -
  have "list_all addr_char (join ''.'' (map show_u8 bs))" for bs
    by (rule addr_char_join)
       (auto simp: addr_char_seps list.pred_map show_u8_def addr_char_show list.pred_True comp_def)
  from this [of "[_, _, _, _]"] this show ?thesis
    by (cases ip)
       (auto simp: addr_char_seps show_v6_segments_def addr_char_subslice split: prod.splits
        simp del: join.simps map_append)
qed

lemma addr_char_lower: "list_all addr_char s \<Longrightarrow> to_ascii_lowercase s = s"
  by (induction s) (auto simp: addr_char_def ascii_lower_def Let_def)

lemma addr_char_brackets: "list_all addr_char s \<Longrightarrow> CHR ''['' \<notin> set s \<and> CHR '']'' \<notin> set s"
  by (induction s) (auto simp: addr_char_def)

lemma show_v4_no_colon: "CHR '':'' \<notin> set (show_ip (V4 a b c d))"
  by (simp add: show_u8_def show_nat_no_sep)

lemma split_authority_name:
  assumes "CHR '':'' \<notin> set host" and "take 1 host \<noteq> ''[''"
  shows "split_authority (host @ '':'' @ show_nat (unat p)) d = (to_ascii_lowercase host, p)"
    and "split_authority host d = (to_ascii_lowercase host, d)"
proof -
  have "strip_prefix (CHR ''['') (host @ '':'' @ rest) = None" "strip_prefix (CHR ''['') host = None" for rest
    using assms(2) by (cases host; auto simp: strip_prefix_def)+
  moreover have "rsplit_once (CHR '':'') (host @ '':'' @ show_nat (unat p)) = Some (host, show_nat (unat p))"
    by (simp add: rsplit_once_Some show_nat_no_sep)
  moreover have "rsplit_once (CHR '':'') host = None" using assms(1) by (simp add: rsplit_once_None)
  ultimately show "split_authority (host @ '':'' @ show_nat (unat p)) d = (to_ascii_lowercase host, p)"
    and "split_authority host d = (to_ascii_lowercase host, d)"
    by (simp_all add: split_authority_def)
qed

lemma split_authority_bracket:
  assumes "CHR '']'' \<notin> set host"
  shows "split_authority (''['' @ host @ '']:'' @ show_nat (unat p)) d = (to_ascii_lowercase host, p)"
proof -
  have "split_once (CHR '']'') (host @ '']:'' @ show_nat (unat p)) = Some (host, '':'' @ show_nat (unat p))"
    using assms by (simp add: split_once_Some)
  then show ?thesis by (simp add: split_authority_def strip_prefix_def)
qed

section \<open>Properties\<close>

text \<open>
  C32: Reading a request head loses nothing and is bounded: on every connection,
  whatever the size of the chunks that arrive, a successful \<open>read_head\<close> returns exactly
  the bytes it consumed, at most one chunk more than the limit, and it stops only when
  the blank line has arrived or the client has finished; nothing is written.
\<close>

theorem read_head_frames:
  assumes "tcp_stream ops incoming outgoing" and "read_head ops s = (s', Ok head)"
  shows "incoming s = head @ incoming s' \<and> outgoing s' = outgoing s \<and> head \<noteq> []
    \<and> length head \<le> MAX_HEAD_BYTES + 2048 \<and> (find_head_end head \<noteq> None \<or> incoming s' = [])"
  using tcp_stream.read_head_sound [OF assms] by blast

theorem read_head_frames_witness:
  "\<exists>s' head. read_head mem_tcp ([71, 13, 10, 13, 10, 7], []) = (s', Ok head)
    \<and> [71, 13, 10, 13, 10, 7] = head @ fst s'"
proof -
  have run: "read_head mem_tcp ([71, 13, 10, 13, 10, 7], []) = (([], []), Ok [71, 13, 10, 13, 10, 7])"
    by (simp add: read_head_def read_head_loop_ok [of _ _ "([], [])" "[71, 13, 10, 13, 10, 7]"] mem_tcp_def
        find_head_end_def CRLF_def window_position.simps)
  from read_head_frames [OF mem_tcp.tcp_stream_axioms run] run show ?thesis by auto
qed

text \<open>
  A request head that ends within the first 64 KiB is always found: if no read
  fails, \<open>read_head\<close> succeeds, and the split at \<open>find_head_end\<close> recovers the client's
  stream: the head up to and including its first blank line, and then, as the leftover
  \<open>head_body\<close> followed by what is still unread, every byte after it.
\<close>

theorem read_head_complete:
  assumes "tcp_stream ops incoming outgoing" and "\<forall>s. \<not> isl (snd (recv ops s 2048))"
    and "find_head_end (take MAX_HEAD_BYTES (incoming s)) = Some e"
  shows "\<exists>s' head. read_head ops s = (s', Ok head) \<and> find_head_end head = Some e
    \<and> take e head = take e (incoming s) \<and> head_body head @ incoming s' = drop e (incoming s)"
proof -
  obtain s' head where run: "read_head ops s = (s', Ok head)" "find_head_end head = Some e"
      "incoming s = head @ incoming s'"
    using tcp_stream.read_head_finds [OF assms(1) _ assms(3)] assms(2) by blast
  moreover have "e \<le> length head" using run(2) by (rule find_head_end_le)
  ultimately show ?thesis by (auto simp: head_body_def)
qed

theorem read_head_complete_witness:
  "\<exists>s' head. read_head mem_tcp ([71, 13, 10, 13, 10, 7], []) = (s', Ok head)
    \<and> head_body head @ fst s' = [7]"
proof -
  have "find_head_end (take MAX_HEAD_BYTES (fst ([71, 13, 10, 13, 10, 7], [] :: bytes))) = Some 5"
    by (simp add: MAX_HEAD_BYTES_def find_head_end_def CRLF_def window_position.simps)
  moreover have "\<forall>s. \<not> isl (snd (recv mem_tcp s 2048))" by (simp add: mem_tcp_def split_beta)
  ultimately obtain s' head where
    "read_head mem_tcp ([71, 13, 10, 13, 10, 7], []) = (s', Ok head)"
    "head_body head @ fst s' = drop 5 (fst ([71, 13, 10, 13, 10, 7], [] :: bytes))"
    using read_head_complete [OF mem_tcp.tcp_stream_axioms, of "([71, 13, 10, 13, 10, 7], [])" 5] by blast
  then show ?thesis by auto
qed

text \<open>
  C33: \<open>split_authority\<close> inverts the printed form of an endpoint: for a socket address,
  IPv4 or bracketed IPv6, it gives back the address and the port; for a host name
  without a colon it gives the lower-case name with the port, and with the default
  port when none is written.
\<close>

theorem split_authority_roundtrip:
  shows "split_authority (show_socket_addr a) d = (show_ip (sa_ip a), sa_port a)
    \<and> (CHR '':'' \<notin> set host \<and> take 1 host \<noteq> ''['' \<longrightarrow>
         split_authority (host @ '':'' @ show_nat (unat p)) d = (to_ascii_lowercase host, p)
         \<and> split_authority host d = (to_ascii_lowercase host, d))"
proof
  have ip: "to_ascii_lowercase (show_ip (sa_ip a)) = show_ip (sa_ip a)" "CHR ''['' \<notin> set (show_ip (sa_ip a))"
      "CHR '']'' \<notin> set (show_ip (sa_ip a))"
    using addr_char_lower addr_char_brackets addr_char_show_ip by blast+
  show "split_authority (show_socket_addr a) d = (show_ip (sa_ip a), sa_port a)"
  proof (cases "sa_ip a")
    case (V4 b1 b2 b3 b4)
    have "take 1 (show_ip (sa_ip a)) \<noteq> ''[''"
      using ip(2) by (cases "show_ip (sa_ip a)") auto
    then show ?thesis
      using split_authority_name(1) [of "show_ip (sa_ip a)" "sa_port a" d] show_v4_no_colon V4 ip(1)
      by (simp add: show_socket_addr_def del: show_ip.simps)
  next
    case (V6 s1 s2 s3 s4 s5 s6 s7 s8)
    then show ?thesis
      using split_authority_bracket [OF ip(3), of "sa_port a" d] ip(1)
      by (simp add: show_socket_addr_def del: show_ip.simps)
  qed
qed (use split_authority_name in blast)

theorem split_authority_roundtrip_witness:
  "split_authority (''Example.com'' @ '':'' @ show_nat (unat (8080 :: u16))) 443 = (''example.com'', 8080)"
proof -
  have "to_ascii_lowercase ''Example.com'' = ''example.com''" by code_simp
  then show ?thesis
    using split_authority_roundtrip [of "\<lparr>sa_ip = V4 0 0 0 0, sa_port = 0\<rparr>" 443 "''Example.com''" 8080] by simp
qed

end
