(* ===== verification/Proxy.thy ===== *)
theory Proxy
  imports Udp Http_Head
begin

text \<open>
  The proxy server (\<open>src/proxy.rs\<close>): the task of one client connection, from sniffing
  its first byte to the tunnel, the UDP association or the HTTP exchange. The client
  connection is a state under two interfaces, tokio's calls (\<open>tcp_ops\<close>) and its poll
  functions (\<open>stream_ops\<close>). What lies outside the sources is an argument: the outcome
  of connecting to a destination (\<open>upstream\<close>), with the polls that tokio's copy loop
  makes on the client side of the tunnel, and hyper's HTTP/1 server.
\<close>

section \<open>State\<close>

datatype any_error = AnyIo io_error | AnySocks socks_error | AnyMsg string

record 's conn_world =
  client :: 's
  w_reg :: registry
  w_log :: "log_line list"
  w_notes :: "string list"

type_synonym 's conn_result = "'s conn_world \<times> (any_error, unit) result"

record upstream =
  up_nodelay :: "(io_error, unit) result"
  up_peer :: "(io_error, socket_addr) result"
  up_polls :: "poll_op list"
  up_copy :: "(io_error, unit) result"

type_synonym connector = "string \<Rightarrow> u16 \<Rightarrow> (io_error, upstream) result"

text \<open>What a UDP association gets from the system.\<close>

record association =
  as_client_side :: "(io_error, unit) result"
  as_upstream :: "(io_error, unit) result"
  as_local_addr :: "(io_error, socket_addr) result"
  as_events :: "(net \<times> event) list"

definition shared_conn_log :: "bool \<Rightarrow> string \<Rightarrow> registry \<Rightarrow> registry \<times> conn_log option" where
  "shared_conn_log verbose tgt r =
     (if verbose then
        (case next_conn_id False r of (r', i) \<Rightarrow> (r', map_option (\<lambda>j. new_conn_log j tgt) i))
      else (r, None))"

text \<open>The proxy URLs that the child is given.\<close>

definition http_url :: "socket_addr \<Rightarrow> string" where
  "http_url addr = ''http://'' @ show_socket_addr addr"

definition socks_url :: "socket_addr \<Rightarrow> string" where
  "socks_url addr = ''socks5h://'' @ show_socket_addr addr"

section \<open>Handshakes\<close>

datatype handshake = Hs_Http | Hs_Socks

definition hs_accept ::
  "('s, 'x) sock_ops_scheme \<Rightarrow> handshake \<Rightarrow> 's \<Rightarrow> 's \<times> (io_error, unit) result" where
  "hs_accept tcp hs s =
     (case hs of
        Hs_Http \<Rightarrow> write_all tcp s (str_bytes ''HTTP/1.1 200 Connection Established'' @ CRLF @ CRLF)
      | Hs_Socks \<Rightarrow> reply tcp s REP_SUCCESS)"

definition hs_refuse ::
  "('s, 'x) sock_ops_scheme \<Rightarrow> handshake \<Rightarrow> 's \<Rightarrow> 's \<times> (io_error, unit) result" where
  "hs_refuse tcp hs s =
     (case hs of
        Hs_Http \<Rightarrow> write_all tcp s
          (str_bytes ''HTTP/1.1 502 Bad Gateway'' @ CRLF @ str_bytes ''Content-Length: 0'' @ CRLF @ CRLF)
      | Hs_Socks \<Rightarrow> reply tcp s REP_CONNECTION_REFUSED)"

section \<open>Tunnels\<close>

definition target_text :: "string \<Rightarrow> u16 \<Rightarrow> string" where
  "target_text host port = host @ '':'' @ show_nat (unat port)"

definition open_line :: "string \<Rightarrow> u16 \<Rightarrow> ip_addr \<Rightarrow> string" where
  "open_line host port ip = ''OPEN  -> '' @ target_text host port @ '' ('' @ show_ip ip @ '')''"

definition close_line :: "endpoint_stats \<Rightarrow> string" where
  "close_line s =
     ''CLOSE -> Total Rx: '' @ show_nat (unat (ingress s)) @ '' bytes | Total Tx: ''
       @ show_nat (unat (egress s)) @ '' bytes''"

text \<open>The peer address is noted, if the socket knows it, and the connection counted.\<close>

definition count_opened ::
  "handle \<Rightarrow> conn_log option \<Rightarrow> string \<Rightarrow> u16 \<Rightarrow> (io_error, socket_addr) result
    \<Rightarrow> registry \<times> log_line list \<Rightarrow> registry \<times> log_line list" where
  "count_opened stats l host port peer = (\<lambda>(r, out).
     case peer of
       Inr a \<Rightarrow> (upd_cell stats add_connection (upd_cell stats (observe_ip (sa_ip a)) r),
                 out @ log_opt l (\<lambda>x. log_event x (open_line host port (sa_ip a))))
     | Inl _ \<Rightarrow> (upd_cell stats add_connection r, out))"

definition connect_and_splice ::
  "('s, 'x) sock_ops_scheme \<Rightarrow> 's stream_ops \<Rightarrow> connector \<Rightarrow> bool \<Rightarrow> string \<Rightarrow> u16 \<Rightarrow> bytes \<Rightarrow> handshake
    \<Rightarrow> 's conn_world \<Rightarrow> 's conn_result" where
  "connect_and_splice tcp ops connect verbose host port leftover hs w =
     (case endpoint host (w_reg w) of (r, stats) \<Rightarrow>
      case shared_conn_log verbose (target_text host port) r of (r, l) \<Rightarrow>
      case connect host port of
        Inl err \<Rightarrow>
          (case hs_refuse tcp hs (client w) of (s, _) \<Rightarrow> (w\<lparr>client := s, w_reg := r\<rparr>, Err (AnyIo err)))
      | Inr up \<Rightarrow>
          (case up_nodelay up of
             Inl e \<Rightarrow> (w\<lparr>w_reg := r\<rparr>, Err (AnyIo e))
           | Inr _ \<Rightarrow>
               (case count_opened stats l host port (up_peer up) (r, w_log w) of (r, out) \<Rightarrow>
                case hs_accept tcp hs (client w) of
                  (s, Inl e) \<Rightarrow> (w\<lparr>client := s, w_reg := r, w_log := out\<rparr>, Err (AnyIo e))
                | (s, Inr _) \<Rightarrow>
                    (case run_polls (counting_ops (rewind_ops ops)) (up_polls up)
                            (new_counting (new_rewind leftover s) stats Client l, r, out) of
                       ((c, r, out), _) \<Rightarrow>
                         (w\<lparr>client := rw_inner (c_inner c), w_reg := r,
                            w_log := out @ log_opt l (\<lambda>x. log_event x (close_line (cell r stats)))\<rparr>,
                          (case up_copy up of Inl e \<Rightarrow> Err (AnyIo e) | Inr _ \<Rightarrow> Ok ()))))))"

section \<open>UDP associations\<close>

text \<open>The loop that waits for the client to hang up; \<open>None\<close> if it never does.\<close>

partial_function (option) drain_control :: "('s, 'x) tcp_ops_scheme \<Rightarrow> 's \<Rightarrow> 's option" where
  "drain_control tcp s =
     (case recv tcp s 64 of
        (s', Inl _) \<Rightarrow> Some s'
      | (s', Inr bs) \<Rightarrow> if bs = [] then Some s' else drain_control tcp s')"

definition relay_udp ::
  "('s, 'x) tcp_ops_scheme \<Rightarrow> association \<Rightarrow> bool \<Rightarrow> 's conn_world \<Rightarrow> 's conn_result option" where
  "relay_udp tcp as verbose w =
     (case shared_conn_log verbose ''udp'' (w_reg w) of (r, l) \<Rightarrow>
      case bind_relay (as_client_side as) (as_upstream as) l of
        Inl err \<Rightarrow>
          (case reply tcp (client w) REP_GENERAL_FAILURE of
             (s, _) \<Rightarrow> Some (w\<lparr>client := s, w_reg := r\<rparr>, Err (AnyIo err)))
      | Inr rel \<Rightarrow>
          (case as_local_addr as of
             Inl e \<Rightarrow> Some (w\<lparr>w_reg := r\<rparr>, Err (AnyIo e))
           | Inr bound \<Rightarrow>
               (case reply_bound tcp (client w) REP_SUCCESS bound of
                  (s, Inl e) \<Rightarrow> Some (w\<lparr>client := s, w_reg := r\<rparr>, Err (AnyIo e))
                | (s, Inr _) \<Rightarrow>
                    (let out = w_log w @ log_opt l (\<lambda>x. log_event x (''OPEN  -> udp relay on '' @ show_socket_addr bound));
                         rw = run_relay (as_events as) (new_world rel r)
                     in case drain_control tcp s of
                          None \<Rightarrow> None
                        | Some s' \<Rightarrow>
                            Some (w\<lparr>client := s', w_reg := rg rw,
                                     w_log := out @ stderr rw @ log_opt l (\<lambda>x. log_event x ''CLOSE -> udp relay'')\<rparr>,
                                  Ok ())))))"

section \<open>One connection\<close>

definition serve_socks ::
  "('s, 'x) tcp_ops_scheme \<Rightarrow> 's stream_ops \<Rightarrow> connector \<Rightarrow> association \<Rightarrow> (io_error \<Rightarrow> string) \<Rightarrow> bool
    \<Rightarrow> 's conn_world \<Rightarrow> 's conn_result option" where
  "serve_socks tcp ops connect as show_err verbose w =
     (case accept tcp (client w) of
        (s, Inl err) \<Rightarrow>
          (case reply tcp s (reply_code err) of (s, _) \<Rightarrow>
             Some (w\<lparr>client := s,
                     w_notes := w_notes w @ (if verbose then [''[wiretally] socks5: '' @ fmt_error show_err err] else [])\<rparr>,
                   Err (AnySocks err)))
      | (s, Inr (Connect req)) \<Rightarrow>
          Some (connect_and_splice tcp ops connect verbose (req_host req) (req_port req) [] Hs_Socks (w\<lparr>client := s\<rparr>))
      | (s, Inr (UdpAssociate _)) \<Rightarrow> relay_udp tcp as verbose (w\<lparr>client := s\<rparr>))"

definition handle_connection ::
  "('s, 'x) tcp_ops_scheme \<Rightarrow> 's stream_ops \<Rightarrow> connector \<Rightarrow> association \<Rightarrow> (io_error \<Rightarrow> string)
    \<Rightarrow> ('s rewind \<Rightarrow> 's conn_world \<Rightarrow> 's conn_result option) \<Rightarrow> bool \<Rightarrow> 's conn_world \<Rightarrow> 's conn_result option" where
  "handle_connection tcp ops connect as show_err serve_http verbose w =
     (case set_nodelay tcp (client w) of
        Inl e \<Rightarrow> Some (w, Err (AnyIo e))
      | Inr _ \<Rightarrow>
          (case peek tcp (client w) of
             (s, Inl e) \<Rightarrow> Some (w\<lparr>client := s\<rparr>, Err (AnyIo e))
           | (s, Inr first) \<Rightarrow>
               if first = [] then Some (w\<lparr>client := s\<rparr>, Ok ())
               else if first ! 0 = GREETING_BYTE then
                 serve_socks tcp ops connect as show_err verbose (w\<lparr>client := s\<rparr>)
               else
                 (case read_head tcp s of
                    (s, Inl e) \<Rightarrow> Some (w\<lparr>client := s\<rparr>, Err (AnyIo e))
                  | (s, Inr head) \<Rightarrow>
                      (case request_line head of
                         None \<Rightarrow> Some (w\<lparr>client := s\<rparr>, Err (AnyMsg ''malformed request head''))
                       | Some (mth, tgt) \<Rightarrow>
                           if eq_ignore_ascii_case mth ''CONNECT'' then
                             (case split_authority tgt 443 of (host, port) \<Rightarrow>
                                Some (connect_and_splice tcp ops connect verbose host port (head_body head) Hs_Http
                                        (w\<lparr>client := s\<rparr>)))
                           else serve_http (new_rewind head s) (w\<lparr>client := s\<rparr>)))))"

text \<open>
  The task that the accept loop spawns for a connection. The text of an error comes
  from \<open>anyhow\<close> and is an argument.
\<close>

definition connection_task ::
  "('s, 'x) tcp_ops_scheme \<Rightarrow> 's stream_ops \<Rightarrow> connector \<Rightarrow> association \<Rightarrow> (io_error \<Rightarrow> string)
    \<Rightarrow> ('s rewind \<Rightarrow> 's conn_world \<Rightarrow> 's conn_result option) \<Rightarrow> (any_error \<Rightarrow> string) \<Rightarrow> bool
    \<Rightarrow> 's conn_world \<Rightarrow> 's conn_world option" where
  "connection_task tcp ops connect as show_err serve_http show_any verbose w =
     map_option (\<lambda>(w, res).
         w\<lparr>w_notes := w_notes w @ (case res of
              Inl e \<Rightarrow> if verbose then [''[wiretally] connection error: '' @ show_any e] else []
            | Inr _ \<Rightarrow> []),
           w_reg := drop_guard (w_reg w)\<rparr>)
       (handle_connection tcp ops connect as show_err serve_http verbose (w\<lparr>w_reg := track_open (w_reg w)\<rparr>))"

section \<open>What a tunnel adds to the books\<close>

lemma shared_conn_log_keeps [simp]:
  "registry_ok (fst (shared_conn_log v tgt r)) = registry_ok r"
  "row (fst (shared_conn_log v tgt r)) = row r"
  "endpoints (fst (shared_conn_log v tgt r)) = endpoints r"
  "open_connections (fst (shared_conn_log v tgt r)) = open_connections r"
proof -
  have same: "endpoints (fst (shared_conn_log v tgt r)) = endpoints r" "heap (fst (shared_conn_log v tgt r)) = heap r"
      "open_connections (fst (shared_conn_log v tgt r)) = open_connections r"
    by (simp_all add: shared_conn_log_def next_conn_id_def)
  then show "registry_ok (fst (shared_conn_log v tgt r)) = registry_ok r"
    "endpoints (fst (shared_conn_log v tgt r)) = endpoints r"
    "open_connections (fst (shared_conn_log v tgt r)) = open_connections r"
    by (simp_all add: registry_ok_def)
  from same(1,2) show "row (fst (shared_conn_log v tgt r)) = row r" by (rule row_cong)
qed

text \<open>
  The change of a row by a connection that carried \<open>nr\<close> bytes read and \<open>nw\<close> bytes
  written, seen from a side: its peer noted, a connection, and the bytes.
\<close>

definition served :: "side \<Rightarrow> (io_error, socket_addr) result \<Rightarrow> nat \<Rightarrow> nat \<Rightarrow> endpoint_stats \<Rightarrow> endpoint_stats" where
  "served sd peer nr nw s =
     tally sd nr nw (add_connection (case peer of Inr a \<Rightarrow> observe_ip (sa_ip a) s | Inl _ \<Rightarrow> s))"

abbreviation tunnelled :: "(io_error, socket_addr) result \<Rightarrow> nat \<Rightarrow> nat \<Rightarrow> endpoint_stats \<Rightarrow> endpoint_stats" where
  "tunnelled \<equiv> served Client"

abbreviation fetched :: "(io_error, socket_addr) result \<Rightarrow> nat \<Rightarrow> nat \<Rightarrow> endpoint_stats \<Rightarrow> endpoint_stats" where
  "fetched \<equiv> served Upstream"

lemma tunnelled_fields:
  "egress (tunnelled peer nr nw s) = egress s + of_nat nr"
  "ingress (tunnelled peer nr nw s) = ingress s + of_nat nw"
  "connections (tunnelled peer nr nw s) = connections s + 1"
  by (simp_all add: served_def tally_def add_connection_def observe_ip_def split: sum.splits)

lemma count_opened_registry:
  "fst (count_opened stats l host port peer (r, out)) =
    upd_cell stats (\<lambda>s. add_connection (case peer of Inr a \<Rightarrow> observe_ip (sa_ip a) s | Inl _ \<Rightarrow> s)) r"
  by (cases peer) (simp_all add: count_opened_def upd_cell_upd_cell)

abbreviation row_or_new :: "registry \<Rightarrow> string \<Rightarrow> endpoint_stats" where
  "row_or_new r host \<equiv> (case row r host of None \<Rightarrow> default_stats | Some s \<Rightarrow> s)"

lemma opened_row:
  assumes "registry_ok r" and "r2 = fst (shared_conn_log v tgt (fst (endpoint host r)))"
  shows "registry_ok r2"
    and "row (upd_cell (snd (endpoint host r)) f r2) = (row r)(host \<mapsto> f (row_or_new r host))"
proof -
  show ok: "registry_ok r2" using assms by (simp add: registry_ok_endpoint)
  show "row (upd_cell (snd (endpoint host r)) f r2) = (row r)(host \<mapsto> f (row_or_new r host))"
    using reg.bump_row [OF ok, of host "snd (endpoint host r)"] reg.open_row_of [OF assms(1), of host]
    by (simp add: endpoint_handle assms(2))
qed

lemma connect_and_splice_run:
  assumes "registry_ok (w_reg w)" and "connect host port = Ok up" and "up_nodelay up = Ok u"
    and "hs_accept tcp hs (client w) = (s, Ok u')"
    and "run_polls (rewind_ops ops) (up_polls up) (new_rewind leftover s) = (rw, os)"
  shows "\<exists>r out. connect_and_splice tcp ops connect verbose host port leftover hs w =
      (w\<lparr>client := rw_inner rw, w_reg := r, w_log := out\<rparr>, (case up_copy up of Inl e \<Rightarrow> Err (AnyIo e) | Inr _ \<Rightarrow> Ok ()))
    \<and> registry_ok r \<and> open_connections r = open_connections (w_reg w)
    \<and> row r = (row (w_reg w))(host \<mapsto>
        tunnelled (up_peer up) (length (all_read os)) (all_written os) (row_or_new (w_reg w) host))"
proof -
  let ?tgt = "target_text host port"
  let ?r1 = "fst (endpoint host (w_reg w))" and ?stats = "snd (endpoint host (w_reg w))"
  let ?r2 = "fst (shared_conn_log verbose ?tgt ?r1)" and ?l = "snd (shared_conn_log verbose ?tgt ?r1)"
  let ?ro = "count_opened ?stats ?l host port (up_peer up) (?r2, w_log w)"
  let ?c = "new_counting (new_rewind leftover s) ?stats Client ?l"
  let ?r4 = "upd_cell ?stats (tally Client (length (all_read os)) (all_written os)) (fst ?ro)"
  obtain out' where run: "run_polls (counting_ops (rewind_ops ops)) (up_polls up) (?c, fst ?ro, snd ?ro) =
      ((?c\<lparr>c_inner := rw\<rparr>, ?r4, out'), os)"
    using counting_run [of "rewind_ops ops" "up_polls up" ?c "fst ?ro" "snd ?ro"] assms(5)
    by (auto simp: new_counting_def)
  have "connect_and_splice tcp ops connect verbose host port leftover hs w =
      (w\<lparr>client := rw_inner rw, w_reg := ?r4,
         w_log := out' @ log_opt ?l (\<lambda>x. log_event x (close_line (cell ?r4 ?stats)))\<rparr>,
       (case up_copy up of Inl e \<Rightarrow> Err (AnyIo e) | Inr _ \<Rightarrow> Ok ()))"
    using assms(2-4) run by (simp add: connect_and_splice_def split_beta new_counting_def)
  moreover have r4: "?r4 = upd_cell ?stats (tunnelled (up_peer up) (length (all_read os)) (all_written os)) ?r2"
    unfolding count_opened_registry upd_cell_upd_cell served_def [abs_def] by (rule refl)
  moreover have "registry_ok ?r2" using opened_row(1) [OF assms(1) refl] .
  moreover have "row ?r4 = (row (w_reg w))(host \<mapsto>
      tunnelled (up_peer up) (length (all_read os)) (all_written os) (row_or_new (w_reg w) host))"
    unfolding r4 by (rule opened_row(2) [OF assms(1) refl])
  moreover have "open_connections ?r1 = open_connections (w_reg w)"
    by (simp add: endpoint_def split: option.splits)
  ultimately show ?thesis by auto
qed

section \<open>The control connection of an association\<close>

context tcp_stream
begin

text \<open>The client of an association can only send finitely much: the wait for it ends.\<close>

lemma drain_control_returns: "\<exists>s'. drain_control ops s = Some s' \<and> outgoing s' = outgoing s \<or>
    (\<exists>s' e s''. drain_control ops s = Some s' \<and> recv ops s'' 64 = (s', Err e))"
proof (induction "length (incoming s)" arbitrary: s rule: less_induct)
  case less
  obtain s1 r where rv: "recv ops s 64 = (s1, r)" by fastforce
  show ?case
  proof (cases r)
    case (Inl e)
    then have "drain_control ops s = Some s1" using rv by (subst drain_control.simps) simp
    then show ?thesis using rv Inl by blast
  next
    case (Inr bs)
    note rd = recv_ok [OF rv [unfolded Inr]]
    show ?thesis
    proof (cases "bs = []")
      case True
      then have "drain_control ops s = Some s1" using rv Inr by (subst drain_control.simps) simp
      then show ?thesis using rd by auto
    next
      case False
      then have step: "drain_control ops s = drain_control ops s1"
        using rv Inr by (subst drain_control.simps) simp
      have "length (incoming s1) < length (incoming s)" using rd False by simp
      from less.hyps [OF this] show ?thesis using step rd by auto
    qed
  qed
qed

lemma relay_udp_returns: "\<exists>w' res. relay_udp ops as v w = Some (w', res)"
proof -
  have ends: "drain_control ops s = None \<Longrightarrow> False" for s using drain_control_returns [of s] by auto
  show ?thesis
    by (auto simp: relay_udp_def split_beta Let_def split: sum.splits prod.splits option.splits dest: ends)
qed

lemma serve_socks_returns: "\<exists>w' res. serve_socks ops pops connect as se v w = Some (w', res)"
proof -
  obtain s r where acc: "accept ops (client w) = (s, r)" by fastforce
  show ?thesis
  proof (cases r)
    case (Inl e)
    then show ?thesis using acc by (simp add: serve_socks_def split_beta)
  next
    case (Inr c)
    then show ?thesis
      using acc relay_udp_returns by (cases c) (auto simp: serve_socks_def split_beta prod_eq_iff)
  qed
qed

end

section \<open>The in-flight count\<close>

lemma endpoint_open [simp]: "open_connections (fst (endpoint host r)) = open_connections r"
  by (simp add: endpoint_def split: option.splits)

lemma relay_endpoint_open: "open_connections (rg (fst (relay_endpoint h w))) = open_connections (rg w)"
  using endpoint_open [of h "rg w"]
  by (auto simp: relay_endpoint_def split_beta split: option.splits)

lemma run_relay_open: "open_connections (rg (run_relay es w)) = open_connections (rg w)"
proof (induction es w rule: run_relay.induct)
  case (2 n e es w)
  have "open_connections (rg w') = open_connections (rg w)" if "relay_step n e w = Some w'" for w'
  proof (cases e)
    case (FromClient data addr)
    then show ?thesis
      using that relay_endpoint_open resolve_frame(3)
      by (auto simp: forward_out_def note_msg_def split_beta split: sum.splits option.splits)
  next
    case (FromUpstream data addr)
    then show ?thesis
      using that relay_endpoint_open
      by (auto simp: forward_back_def note_msg_def Let_def split_beta split: sum.splits option.splits)
  qed (use that in simp)
  then show ?case using 2 by (auto split: option.splits)
qed simp

lemma count_opened_open: "open_connections (fst (count_opened h l host port peer ro)) = open_connections (fst ro)"
  by (cases ro) (simp add: count_opened_def split: sum.splits)

lemma counting_run_open:
  "open_connections (fst (snd (fst (run_polls (counting_ops ops) ps cs)))) = open_connections (fst (snd cs))"
proof -
  obtain c r out where "cs = (c, r, out)" by (cases cs)
  then show ?thesis
    using counting_run [of ops ps c r out] by (auto split: prod.splits)
qed

lemma connect_and_splice_open:
  "open_connections (w_reg (fst (connect_and_splice tcp ops connect v host port lo hs w))) = open_connections (w_reg w)"
  unfolding connect_and_splice_def
  by (auto simp: split_beta count_opened_open counting_run_open split: sum.splits)

lemma relay_udp_open:
  "relay_udp tcp as v w = Some (w', res) \<Longrightarrow> open_connections (w_reg w') = open_connections (w_reg w)"
  by (auto simp: relay_udp_def split_beta run_relay_open new_world_def Let_def
      split: sum.splits option.splits prod.splits dest: arg_cong [where f = fst])

lemma connect_and_splice_openD:
  "connect_and_splice tcp ops connect v host port lo hs w = (w', res) \<Longrightarrow>
    open_connections (w_reg w') = open_connections (w_reg w)"
  by (metis connect_and_splice_open fst_conv)

lemma serve_socks_open:
  assumes "serve_socks tcp ops connect as se v w = Some (w', res)"
  shows "open_connections (w_reg w') = open_connections (w_reg w)"
proof -
  obtain s r where acc: "accept tcp (client w) = (s, r)" by fastforce
  show ?thesis
  proof (cases r)
    case (Inl e)
    then show ?thesis using assms acc by (auto simp: serve_socks_def split: prod.splits)
  next
    case (Inr c)
    then show ?thesis
      using assms acc
      by (cases c) (auto simp: serve_socks_def dest!: connect_and_splice_openD relay_udp_open)
  qed
qed

section \<open>Properties\<close>

text \<open>
  A tunnel is counted exactly: once the destination is connected and the client's
  handshake answered, the connection sees the polls of the copy loop as if it were not
  counted, the row of the host grows by one connection, by the bytes those polls read
  from the client as egress and by the bytes they wrote to it as ingress, and no other
  row changes. The bytes pipelined behind the request head are read first and counted,
  the handshake is not, and no byte of the client is lost or repeated.
\<close>

theorem tunnel_accounts:
  assumes "registry_ok (w_reg w)" and "async_read ops pending invar"
    and "connect host port = Ok up" and "up_nodelay up = Ok u"
    and "hs_accept tcp hs (client w) = (s, Ok u')" and "invar s"
    and "run_polls (rewind_ops ops) (up_polls up) (new_rewind leftover s) = (rw, os)"
  shows "\<exists>w'. connect_and_splice tcp ops connect verbose host port leftover hs w =
        (w', (case up_copy up of Inl e \<Rightarrow> Err (AnyIo e) | Inr _ \<Rightarrow> Ok ()))
    \<and> client w' = rw_inner rw
    \<and> leftover @ pending s = all_read os @ rewind_pending pending rw
    \<and> row (w_reg w') = (row (w_reg w))(host \<mapsto>
        tunnelled (up_peer up) (length (all_read os)) (all_written os) (row_or_new (w_reg w) host))
    \<and> open_connections (w_reg w') = open_connections (w_reg w)"
  using connect_and_splice_run [where connect = connect and host = host and port = port and verbose = verbose,
      OF assms(1,3,4,5,7)] async_read.rewound_run(1) [OF assms(2,6,7)] by fastforce

text \<open>An upstream on which the copy loop reads twice and writes once.\<close>

definition demo_upstream :: upstream where
  "demo_upstream = \<lparr>up_nodelay = Ok (), up_peer = Ok \<lparr>sa_ip = V4 9 9 9 9, sa_port = 443\<rparr>,
     up_polls = [Poll_Read \<lparr>filled = [], capacity = 4\<rparr>, Poll_Read \<lparr>filled = [], capacity = 4\<rparr>, Poll_Write [7, 8]],
     up_copy = Ok ()\<rparr>"

definition demo_conn :: "bytes \<Rightarrow> cursor conn_world" where
  "demo_conn inp = \<lparr>client = (inp, []), w_reg = two_hosts, w_log = [], w_notes = []\<rparr>"

theorem tunnel_accounts_witness:
  "\<exists>w'. connect_and_splice mem_tcp cursor_ops (\<lambda>_ _. Ok demo_upstream) False ''b.dev'' 443 [1, 2] Hs_Socks (demo_conn [3])
      = (w', Ok ())
    \<and> row (w_reg w') = (row two_hosts)(''b.dev'' \<mapsto>
        tunnelled (up_peer demo_upstream) 3 2 (row_or_new two_hosts ''b.dev''))"
proof -
  have hs: "hs_accept mem_tcp Hs_Socks (client (demo_conn [3])) = (([3], [5, 0, 0, 1, 0, 0, 0, 0, 0, 0]), Ok ())"
    by (simp add: hs_accept_def reply_def mem_tcp_def mem_ops_def demo_conn_def wire_defs)
  obtain rw os where run: "run_polls (rewind_ops cursor_ops) (up_polls demo_upstream)
      (new_rewind [1, 2] ([3], [5, 0, 0, 1, 0, 0, 0, 0, 0, 0])) = (rw, os)" by fastforce
  then have "length (all_read os) = 3" "all_written os = 2"
    by (auto simp: demo_upstream_def rewind_ops_def rewind_read_def new_rewind_def cursor_ops_def Let_def
        buf_remaining_def put_slice_def all_read_def all_written_def)
  then show ?thesis
    using tunnel_accounts [of "demo_conn [3]" cursor_ops fst "\<lambda>_. True" "\<lambda>_ _. Ok demo_upstream" "''b.dev''" 443
        demo_upstream "()" mem_tcp Hs_Socks, OF _ cursor.async_read_axioms _ _ hs _ run, where verbose = False]
      registry_ok_two_hosts
    by (auto simp: demo_conn_def demo_upstream_def)
qed

text \<open>
  C31: A destination that cannot be reached is reported and costs nothing: the client is
  sent the refusal of its protocol and nothing else, the caller gets the error, and
  every counter of every row is as before, a row of zeros being created for a host
  seen for the first time.
\<close>

theorem tunnel_refused:
  assumes "registry_ok (w_reg w)" and "healthy_stream tcp incoming outgoing" and "connect host port = Err err"
  shows "\<exists>w'. connect_and_splice tcp ops connect verbose host port leftover hs w = (w', Err (AnyIo err))
    \<and> outgoing (client w') = outgoing (client w) @ (case hs of
        Hs_Http \<Rightarrow> str_bytes ''HTTP/1.1 502 Bad Gateway'' @ CRLF @ str_bytes ''Content-Length: 0'' @ CRLF @ CRLF
      | Hs_Socks \<Rightarrow> [VERSION, REP_CONNECTION_REFUSED, 0, ATYP_IPV4, 0, 0, 0, 0, 0, 0])
    \<and> row (w_reg w') = (row (w_reg w))(host \<mapsto> row_or_new (w_reg w) host)"
proof -
  let ?msg = "case hs of
        Hs_Http \<Rightarrow> str_bytes ''HTTP/1.1 502 Bad Gateway'' @ CRLF @ str_bytes ''Content-Length: 0'' @ CRLF @ CRLF
      | Hs_Socks \<Rightarrow> [VERSION, REP_CONNECTION_REFUSED, 0, ATYP_IPV4, 0, 0, 0, 0, 0, 0]"
  have wr: "hs_refuse tcp hs (client w) = write_all tcp (client w) ?msg"
    by (cases hs) (simp_all add: hs_refuse_def reply_def)
  obtain s where ok: "write_all tcp (client w) ?msg = (s, Ok ())"
    using healthy_stream.write_ready [OF assms(2), of "client w" ?msg]
    by (cases "write_all tcp (client w) ?msg"; cases "snd (write_all tcp (client w) ?msg)") auto
  have "outgoing s = outgoing (client w) @ ?msg"
    using byte_stream.write_ok [OF healthy_stream.axioms(1) [OF assms(2)] ok] by simp
  moreover have "connect_and_splice tcp ops connect verbose host port leftover hs w =
     (w\<lparr>client := s, w_reg := fst (shared_conn_log verbose (target_text host port) (fst (endpoint host (w_reg w))))\<rparr>,
      Err (AnyIo err))"
    using assms(3) wr ok by (simp add: connect_and_splice_def split_beta)
  ultimately show ?thesis
    using reg.open_row_of [OF assms(1), of host] by simp
qed

theorem tunnel_refused_witness:
  "\<exists>w'. connect_and_splice mem_ops cursor_ops (\<lambda>_ _. Err (OtherIo 1)) True ''b.dev'' 443 [] Hs_Socks (demo_conn [])
      = (w', Err (AnyIo (OtherIo 1)))
    \<and> snd (client w') = [5, 5, 0, 1, 0, 0, 0, 0, 0, 0] \<and> row (w_reg w') = row two_hosts"
proof -
  have "row two_hosts ''b.dev'' = Some \<lparr>ingress = 9, egress = 2, connections = 3, ip_slot = Some (V4 1 2 3 4)\<rparr>"
    by (simp add: two_hosts_def row_def cell_def)
  then have "(row two_hosts)(''b.dev'' \<mapsto> row_or_new two_hosts ''b.dev'') = row two_hosts" by auto
  then show ?thesis
    using tunnel_refused [of "demo_conn []", OF _ mem.healthy_stream_axioms, of "\<lambda>_ _. Err (OtherIo 1)" "''b.dev''" 443
        "OtherIo 1" cursor_ops True "[]" Hs_Socks] registry_ok_two_hosts
    by (simp add: demo_conn_def wire_defs)
qed



end
