(* ===== verification/Http_Forward.thy ===== *)
theory Http_Forward
  imports Proxy
begin

text \<open>
  The plain-HTTP path of the proxy (\<open>src/proxy.rs\<close>): the connector that hyper's client
  calls for an upstream connection, the counted upstream stream with its close line and
  drain guard, and the rewriting of a request before it is forwarded. Requests,
  responses and URIs are hyper's; the parts the sources look at are the fields of the
  records below, and hyper's client and URI parser are arguments.
\<close>

section \<open>The connector\<close>

text \<open>What connecting gives: the socket and what its two queries answer.\<close>

record 's tcp_upstream =
  tu_stream :: 's
  tu_nodelay :: "(io_error, unit) result"
  tu_peer :: "(io_error, socket_addr) result"

record uri =
  uri_scheme :: "string option"
  uri_authority :: "string option"
  uri_path_query :: "string option"

text \<open>\<open>CloseLog\<close> and \<open>CountedStream\<close>; the stream carries what it shares, the registry and stderr.\<close>

type_synonym close_log = "conn_log \<times> handle"

type_synonym 's counted_stream = "'s counted \<times> close_log option"

definition connector_poll_ready :: "(io_error, unit) result poll" where
  "connector_poll_ready = Ready (Ok ())"

definition connector_call ::
  "(string \<Rightarrow> u16 \<Rightarrow> (io_error, 's tcp_upstream) result) \<Rightarrow> bool \<Rightarrow> uri \<Rightarrow> registry \<times> log_line list
    \<Rightarrow> ((registry \<times> log_line list) \<times> io_error) + 's counted_stream" where
  "connector_call connect verbose u = (\<lambda>(r, out).
     case uri_authority u of
       None \<Rightarrow> Inl ((r, out), InvalidInput)
     | Some authority \<Rightarrow>
         (let default_port = (if uri_scheme u = Some ''https'' then 443 else 80) in
          case split_authority authority default_port of (host, port) \<Rightarrow>
          case endpoint host r of (r, stats) \<Rightarrow>
          case shared_conn_log verbose (target_text host port) r of (r, l) \<Rightarrow>
          case connect host port of
            Inl e \<Rightarrow> Inl ((r, out), e)
          | Inr up \<Rightarrow>
              (case tu_nodelay up of
                 Inl e \<Rightarrow> Inl ((r, out), e)
               | Inr _ \<Rightarrow>
                   (case count_opened stats l host port (tu_peer up) (r, out) of (r, out) \<Rightarrow>
                      Inr ((new_counting (tu_stream up) stats Upstream l, track_open r, out),
                           map_option (\<lambda>x. (x, stats)) l)))))"

text \<open>Dropping a \<open>CloseLog\<close> logs the totals of its endpoint.\<close>

definition drop_close_log :: "close_log option \<Rightarrow> registry \<times> log_line list \<Rightarrow> registry \<times> log_line list" where
  "drop_close_log cl = (\<lambda>(r, out).
     case cl of
       None \<Rightarrow> (r, out)
     | Some (l, stats) \<Rightarrow> (r, out @ [log_event l (close_line (cell r stats))]))"

definition counted_stream_shutdown ::
  "'s stream_ops \<Rightarrow> 's counted_stream \<Rightarrow> 's counted_stream \<times> (io_error, unit) result poll" where
  "counted_stream_shutdown ops = (\<lambda>(io, cl).
     case op_shutdown (counting_ops ops) io of
       ((c, sh), Ready x) \<Rightarrow> (((c, drop_close_log cl sh), None), Ready x)
     | (io', Pending) \<Rightarrow> ((io', cl), Pending))"

definition counted_stream_ops :: "'s stream_ops \<Rightarrow> ('s counted_stream) stream_ops" where
  "counted_stream_ops ops =
     \<lparr>op_read = (\<lambda>(io, cl) b. case op_read (counting_ops ops) io b of (io', b', p) \<Rightarrow> ((io', cl), b', p)),
      op_write = (\<lambda>(io, cl) bs. case op_write (counting_ops ops) io bs of (io', p) \<Rightarrow> ((io', cl), p)),
      op_write_vectored =
        (\<lambda>(io, cl) bss. case op_write_vectored (counting_ops ops) io bss of (io', p) \<Rightarrow> ((io', cl), p)),
      op_is_write_vectored = (\<lambda>(io, cl). op_is_write_vectored (counting_ops ops) io),
      op_flush = (\<lambda>(io, cl). case op_flush (counting_ops ops) io of (io', p) \<Rightarrow> ((io', cl), p)),
      op_shutdown = counted_stream_shutdown ops\<rparr>"

text \<open>Dropping the stream: its fields in order, the socket, the guard and the close log.\<close>

definition drop_counted_stream :: "'s counted_stream \<Rightarrow> registry \<times> log_line list" where
  "drop_counted_stream = (\<lambda>((c, r, out), cl). drop_close_log cl (drop_guard r, out))"

section \<open>Forwarding\<close>

record http_request =
  rq_method :: string
  rq_uri :: uri
  rq_headers :: "(string \<times> bytes) list"
  rq_body :: bytes

text \<open>Header names are in lower case, as hyper keeps them.\<close>

definition HOP_BY_HOP :: "string list" where
  "HOP_BY_HOP = [''proxy-connection'', ''proxy-authorization'', ''keep-alive'']"

definition remove_header :: "string \<Rightarrow> http_request \<Rightarrow> http_request" where
  "remove_header name rq = rq\<lparr>rq_headers := filter (\<lambda>(n, _). n \<noteq> name) (rq_headers rq)\<rparr>"

text \<open>
  \<open>HeaderValue::to_str\<close> succeeds on visible ASCII and tab.
\<close>

definition header_str :: "bytes \<Rightarrow> string option" where
  "header_str v = (if \<forall>b \<in> set v. b = 9 \<or> (32 \<le> b \<and> b < 127) then Some (map byte_char v) else None)"

definition absolutize :: "(string \<Rightarrow> (string, uri) result) \<Rightarrow> http_request \<Rightarrow> (string, http_request) result" where
  "absolutize parse_uri rq =
     (case Option.bind (map_of (rq_headers rq) ''host'') header_str of
        None \<Rightarrow> Err ''request has neither an absolute URI nor a Host header''
      | Some host \<Rightarrow>
          (let path = (case uri_path_query (rq_uri rq) of None \<Rightarrow> ''/'' | Some pq \<Rightarrow> pq) in
           case parse_uri (''http://'' @ host @ path) of
             Inl err \<Rightarrow> Err (''cannot build absolute URI: '' @ err)
           | Inr u \<Rightarrow> Ok (rq\<lparr>rq_uri := u\<rparr>)))"

record http_response =
  rs_status :: nat
  rs_headers :: "(string \<times> string) list"
  rs_body :: string

definition error_response :: "nat \<Rightarrow> string \<Rightarrow> http_response" where
  "error_response status msg =
     \<lparr>rs_status = status, rs_headers = [(''content-type'', ''text/plain'')], rs_body = msg\<rparr>"

text \<open>
  hyper's client is \<open>send\<close>: from what it shares with the connector, the registry and
  stderr, it gives a response or the text of its error.
\<close>

definition forward ::
  "(string \<Rightarrow> (string, uri) result) \<Rightarrow> (http_request \<Rightarrow> 'w \<Rightarrow> 'w \<times> (string, http_response) result)
    \<Rightarrow> http_request \<Rightarrow> 'w \<Rightarrow> 'w \<times> http_response" where
  "forward parse_uri send rq w =
     (let rq = fold remove_header HOP_BY_HOP rq in
      case (if uri_authority (rq_uri rq) = None then absolutize parse_uri rq else Ok rq) of
        Inl err \<Rightarrow> (w, error_response 400 err)
      | Inr rq \<Rightarrow>
          (case send rq w of
             (w, Inr resp) \<Rightarrow> (w, resp)
           | (w, Inl err) \<Rightarrow> (w, error_response 502 (''upstream request failed: '' @ err))))"

text \<open>
  \<open>serve_http\<close> hands the service to hyper's HTTP/1 server. The server is a function of
  the rewound connection: the requests it reads from it, and how the connection ends
  once their responses are known.
\<close>

type_synonym 's http_server =
  "'s rewind \<Rightarrow> http_request list \<times> (http_response list \<Rightarrow> 's \<times> (any_error, unit) result)"

fun serve_requests :: "(http_request \<Rightarrow> 'w \<Rightarrow> 'w \<times> http_response) \<Rightarrow> http_request list \<Rightarrow> 'w \<Rightarrow> 'w \<times> http_response list" where
  "serve_requests service [] w = (w, [])"
| "serve_requests service (rq # rqs) w =
     (case service rq w of (w, resp) \<Rightarrow>
      case serve_requests service rqs w of (w, resps) \<Rightarrow> (w, resp # resps))"

definition serve_http ::
  "'s http_server \<Rightarrow> (string \<Rightarrow> (string, uri) result)
    \<Rightarrow> (http_request \<Rightarrow> registry \<times> log_line list \<Rightarrow> (registry \<times> log_line list) \<times> (string, http_response) result)
    \<Rightarrow> 's rewind \<Rightarrow> 's conn_world \<Rightarrow> 's conn_result option" where
  "serve_http server parse_uri send rw w =
     (case server rw of (rqs, finish) \<Rightarrow>
      case serve_requests (forward parse_uri send) rqs (w_reg w, w_log w) of ((r, out), resps) \<Rightarrow>
      case finish resps of (s, res) \<Rightarrow> Some (w\<lparr>client := s, w_reg := r, w_log := out\<rparr>, res))"

section \<open>Life of a counted stream\<close>

definition is_close :: "log_line \<Rightarrow> bool" where
  "is_close ln \<longleftrightarrow> take 5 (snd ln) = ''CLOSE''"

abbreviation closes :: "log_line list \<Rightarrow> nat" where
  "closes out \<equiv> length (filter is_close out)"

lemma is_close_lines [simp]:
  "is_close (log_event l (close_line s))" "\<not> is_close (log_tx l n)" "\<not> is_close (log_rx l n)"
  "\<not> is_close (log_event l (open_line host port ip))"
  by (simp_all add: is_close_def log_event_def close_line_def log_tx_def log_rx_def open_line_def)

lemma closes_on_io [simp]:
  "closes (snd (on_read c n sh)) = closes (snd sh)" "closes (snd (on_write c n sh)) = closes (snd sh)"
  by (cases sh; cases "c_side c"; simp add: on_read_def on_write_def log_opt_def split: option.splits)+

lemma counting_step_closes:
  "closes (snd (snd (fst (poll_step (counting_ops ops) p (c, r, out))))) = closes out"
  by (cases p) (auto simp: stream_op_defs split_beta split: poll.splits sum.splits)

text \<open>One poll of a counted stream, against the same poll of the socket.\<close>

lemma counted_stream_step:
  assumes "poll_step ops p (c_inner c) = (s', oc)"
  shows "\<exists>out' cl'. poll_step (counted_stream_ops ops) p ((c, r, out), cl) =
      (((c\<lparr>c_inner := s'\<rparr>, upd_cell (c_stats c) (tally (c_side c) (length (read_bytes oc)) (written oc)) r, out'), cl'), oc)
    \<and> (cl' = cl \<and> closes out' = closes out \<or> cl' = None \<and> closes out' = closes out + (if cl = None then 0 else 1))"
proof -
  let ?r = "upd_cell (c_stats c) (tally (c_side c) (length (read_bytes oc)) (written oc)) r"
  obtain out1 where step: "poll_step (counting_ops ops) p (c, r, out) = ((c\<lparr>c_inner := s'\<rparr>, ?r, out1), oc)"
    using counting_step [of ops p c r out] assms by auto
  then have out1: "closes out1 = closes out" using counting_step_closes [of ops p c r out] by simp
  show ?thesis
  proof (cases "p = Poll_Shutdown")
    case False
    then have "poll_step (counted_stream_ops ops) p ((c, r, out), cl) = (((c\<lparr>c_inner := s'\<rparr>, ?r, out1), cl), oc)"
      using step by (cases p) (auto simp: counted_stream_ops_def split: prod.splits)
    then show ?thesis using out1 by simp
  next
    case True
    obtain io' q where sd: "op_shutdown (counting_ops ops) (c, r, out) = (io', q)" by fastforce
    then have "poll_step (counting_ops ops) p (c, r, out) = (io', Unit_Out q)" by (simp add: True)
    then have "io' = (c\<lparr>c_inner := s'\<rparr>, ?r, out1) \<and> oc = Unit_Out q"
      unfolding step by (metis prod.inject)
    with sd have q: "op_shutdown (counting_ops ops) (c, r, out) = ((c\<lparr>c_inner := s'\<rparr>, ?r, out1), q)" "oc = Unit_Out q"
      by (simp_all only:)
    show ?thesis
    proof (cases q)
      case Pending
      then show ?thesis
        using q True out1 by (simp add: counted_stream_ops_def counted_stream_shutdown_def)
    next
      case (Ready x)
      have "poll_step (counted_stream_ops ops) p ((c, r, out), cl) =
          (((c\<lparr>c_inner := s'\<rparr>, drop_close_log cl (?r, out1)), None), oc)"
        using q True Ready by (simp add: counted_stream_ops_def counted_stream_shutdown_def)
      moreover obtain out2 where "drop_close_log cl (?r, out1) = (?r, out2)"
          "closes out2 = closes out1 + (if cl = None then 0 else 1)"
        by (cases cl) (auto simp: drop_close_log_def)
      ultimately show ?thesis using out1 by auto
    qed
  qed
qed

lemma counted_stream_run:
  "run_polls ops ps (c_inner c) = (s', os) \<Longrightarrow>
   \<exists>out' cl'. run_polls (counted_stream_ops ops) ps ((c, r, out), cl) =
      (((c\<lparr>c_inner := s'\<rparr>,
         upd_cell (c_stats c) (tally (c_side c) (length (all_read os)) (all_written os)) r, out'), cl'), os)
    \<and> closes out' + (if cl' = None then 0 else 1) = closes out + (if cl = None then 0 else 1)
    \<and> (cl' = None \<or> cl' = cl)"
proof (induction ps arbitrary: c r out cl os)
  case (Cons p ps)
  then obtain s1 o1 os1 where s1: "poll_step ops p (c_inner c) = (s1, o1)" "run_polls ops ps s1 = (s', os1)" "os = o1 # os1"
    by (auto split: prod.splits)
  let ?r = "upd_cell (c_stats c) (tally (c_side c) (length (read_bytes o1)) (written o1)) r"
  obtain out1 cl1 where step: "poll_step (counted_stream_ops ops) p ((c, r, out), cl) = (((c\<lparr>c_inner := s1\<rparr>, ?r, out1), cl1), o1)"
    and cl1: "cl1 = cl \<and> closes out1 = closes out \<or> cl1 = None \<and> closes out1 = closes out + (if cl = None then 0 else 1)"
    using counted_stream_step [OF s1(1), of r out cl] by blast
  obtain out2 cl2 where run: "run_polls (counted_stream_ops ops) ps ((c\<lparr>c_inner := s1\<rparr>, ?r, out1), cl1) =
      (((c\<lparr>c_inner := s'\<rparr>,
         upd_cell (c_stats c) (tally (c_side c) (length (all_read os1)) (all_written os1)) ?r, out2), cl2), os1)"
    and cl2: "closes out2 + (if cl2 = None then 0 else 1) = closes out1 + (if cl1 = None then 0 else 1)"
      "cl2 = None \<or> cl2 = cl1"
    using Cons.IH [of "c\<lparr>c_inner := s1\<rparr>" os1 ?r out1 cl1] s1(2) by auto
  have "run_polls (counted_stream_ops ops) (p # ps) ((c, r, out), cl) =
      (((c\<lparr>c_inner := s'\<rparr>,
         upd_cell (c_stats c) (tally (c_side c) (length (all_read os)) (all_written os)) r, out2), cl2), os)"
    using step run s1(3) by (simp add: upd_cell_upd_cell tally_tally all_read_def all_written_def)
  moreover have "closes out2 + (if cl2 = None then 0 else 1) = closes out + (if cl = None then 0 else 1)"
    using cl1 cl2(1) by auto
  moreover have "cl2 = None \<or> cl2 = cl" using cl1 cl2(2) by auto
  ultimately show ?case by blast
qed (simp add: all_read_def all_written_def)

lemma shared_conn_log_some: "snd (shared_conn_log v tgt r) = None \<longleftrightarrow> \<not> v"
  by (simp add: shared_conn_log_def next_conn_id_def add_chk_def)

lemma count_opened_closes: "closes (snd (count_opened h l host port peer (r, out))) = closes out"
  by (cases peer) (simp_all add: count_opened_def log_opt_def split: option.splits)

lemma drop_close_log_closes:
  "closes (snd (drop_close_log cl (r, out))) = closes out + (if cl = None then 0 else 1)"
  "fst (drop_close_log cl (r, out)) = r"
  by (cases cl; auto simp: drop_close_log_def)+

lemma fold_remove_header:
  "fold remove_header ns rq = rq\<lparr>rq_headers := filter (\<lambda>(n, _). n \<notin> set ns) (rq_headers rq)\<rparr>"
proof (induction ns arbitrary: rq)
  case (Cons n ns)
  have "remove_header n rq = rq\<lparr>rq_headers := filter (\<lambda>(m, _). m \<noteq> n) (rq_headers rq)\<rparr>"
    by (rule remove_header_def)
  then show ?case by (simp add: Cons.IH case_prod_unfold)
qed (simp add: case_prod_unfold)

lemma map_of_filter_key: "P k \<Longrightarrow> map_of (filter (\<lambda>(n, _). P n) kvs) k = map_of kvs k"
  by (induction kvs) auto

text \<open>The life of an upstream stream, from the connector's call over any polls to its drop.\<close>

lemma upstream_life:
  assumes "registry_ok r" and "uri_authority u = Some auth"
    and "split_authority auth (if uri_scheme u = Some ''https'' then 443 else 80) = (host, port)"
    and "connect host port = Ok up" and "tu_nodelay up = Ok ()"
    and "run_polls ops ps (tu_stream up) = (s', os)"
  shows "\<exists>st st' r' out'. connector_call connect verbose u (r, out) = Ok st
    \<and> open_connections (fst (snd (fst st))) = open_connections r + 1
    \<and> run_polls (counted_stream_ops ops) ps st = (st', os) \<and> c_inner (fst (fst st')) = s'
    \<and> drop_counted_stream st' = (r', out')
    \<and> row r' = (row r)(host \<mapsto> fetched (tu_peer up) (length (all_read os)) (all_written os) (row_or_new r host))
    \<and> open_connections r' = open_connections r
    \<and> closes out' = closes out + (if verbose then 1 else 0)"
proof -
  let ?tgt = "target_text host port"
  let ?r1 = "fst (endpoint host r)" and ?stats = "snd (endpoint host r)"
  let ?r2 = "fst (shared_conn_log verbose ?tgt ?r1)" and ?l = "snd (shared_conn_log verbose ?tgt ?r1)"
  let ?ro = "count_opened ?stats ?l host port (tu_peer up) (?r2, out)"
  let ?c = "new_counting (tu_stream up) ?stats Upstream ?l"
  let ?cl = "map_option (\<lambda>x. (x, ?stats)) ?l"
  let ?st = "((?c, track_open (fst ?ro), snd ?ro), ?cl)"
  have call: "connector_call connect verbose u (r, out) = Ok ?st"
    using assms(2-5) by (simp add: connector_call_def split_beta)
  have co: "open_connections (fst ?ro) = open_connections r" by (simp add: count_opened_open)
  have c: "c_inner ?c = tu_stream up" "c_stats ?c = ?stats" "c_side ?c = Upstream" by (simp_all add: new_counting_def)
  let ?r4 = "upd_cell ?stats (tally Upstream (length (all_read os)) (all_written os)) (track_open (fst ?ro))"
  obtain out1 cl' where run: "run_polls (counted_stream_ops ops) ps ?st = (((?c\<lparr>c_inner := s'\<rparr>, ?r4, out1), cl'), os)"
    and cls: "closes out1 + (if cl' = None then 0 else 1) = closes (snd ?ro) + (if ?cl = None then 0 else 1)"
    using counted_stream_run [of ops ps ?c s' os "track_open (fst ?ro)" "snd ?ro" ?cl] assms(6) unfolding c by blast
  obtain r' out' where drop: "drop_counted_stream (((?c\<lparr>c_inner := s'\<rparr>, ?r4, out1), cl')) = (r', out')" by fastforce
  then have r': "r' = drop_guard ?r4" and out': "closes out' = closes out1 + (if cl' = None then 0 else 1)"
    using drop_close_log_closes [of cl' "drop_guard ?r4" out1] by (auto simp: drop_counted_stream_def)
  have "closes out' = closes out + (if verbose then 1 else 0)"
    using out' cls by (simp add: count_opened_closes shared_conn_log_some)
  moreover have "row r' = (row r)(host \<mapsto> fetched (tu_peer up) (length (all_read os)) (all_written os) (row_or_new r host))"
  proof -
    have "row r' = row (upd_cell ?stats (tally Upstream (length (all_read os)) (all_written os)) (fst ?ro))"
      unfolding r' by (intro row_cong) (simp_all add: drop_guard_def track_open_def upd_cell_def cell_def)
    also have "\<dots> = row (upd_cell ?stats (fetched (tu_peer up) (length (all_read os)) (all_written os)) ?r2)"
      unfolding count_opened_registry upd_cell_upd_cell served_def [abs_def] by (rule refl)
    also have "\<dots> = (row r)(host \<mapsto> fetched (tu_peer up) (length (all_read os)) (all_written os) (row_or_new r host))"
      by (rule opened_row(2) [OF assms(1) refl])
    finally show ?thesis .
  qed
  moreover have "open_connections r' = open_connections r"
    using co by (simp add: r' drop_guard_def track_open_def)
  moreover have "open_connections (fst (snd (fst ?st))) = open_connections r + 1"
    using co by (simp add: track_open_def)
  moreover have "c_inner (fst (fst ((?c\<lparr>c_inner := s'\<rparr>, ?r4, out1), cl'))) = s'" by simp
  ultimately show ?thesis using call run drop by blast
qed

text \<open>The URI under which a request is handed on, if there is one.\<close>

definition requested_uri :: "(string \<Rightarrow> (string, uri) result) \<Rightarrow> http_request \<Rightarrow> uri option" where
  "requested_uri parse_uri rq =
     (if uri_authority (rq_uri rq) \<noteq> None then Some (rq_uri rq)
      else Option.bind (Option.bind (map_of (rq_headers rq) ''host'') header_str) (\<lambda>host.
        case parse_uri (''http://'' @ host @ (case uri_path_query (rq_uri rq) of None \<Rightarrow> ''/'' | Some pq \<Rightarrow> pq)) of
          Inl _ \<Rightarrow> None
        | Inr u \<Rightarrow> Some u))"

lemma forward_requested:
  assumes "requested_uri parse_uri rq = Some u"
  shows "\<exists>rq'. rq_uri rq' = u \<and> rq_body rq' = rq_body rq \<and> rq_method rq' = rq_method rq
    \<and> forward parse_uri send rq w =
      (case send rq' w of
         (w', Inr resp) \<Rightarrow> (w', resp)
       | (w', Inl err) \<Rightarrow> (w', error_response 502 (''upstream request failed: '' @ err)))"
proof -
  define hs where "hs = filter (\<lambda>(n, _). n \<notin> set HOP_BY_HOP) (rq_headers rq)"
  have clean: "fold remove_header HOP_BY_HOP rq = rq\<lparr>rq_headers := hs\<rparr>"
    unfolding fold_remove_header hs_def by (rule refl)
  have host: "map_of hs ''host'' = map_of (rq_headers rq) ''host''"
    unfolding hs_def by (rule map_of_filter_key) (simp add: HOP_BY_HOP_def)
  show ?thesis
  proof (cases "uri_authority (rq_uri rq)")
    case None
    obtain h where h: "Option.bind (map_of (rq_headers rq) ''host'') header_str = Some h"
      using assms None by (cases "Option.bind (map_of (rq_headers rq) ''host'') header_str") (simp_all add: requested_uri_def)
    let ?full = "''http://'' @ h @ (case uri_path_query (rq_uri rq) of None \<Rightarrow> ''/'' | Some pq \<Rightarrow> pq)"
    have "parse_uri ?full = Ok u" using assms None h by (cases "parse_uri ?full") (simp_all add: requested_uri_def)
    note h this
    then show ?thesis
      using None by (intro exI [of _ "rq\<lparr>rq_headers := hs, rq_uri := u\<rparr>"])
        (simp add: forward_def clean absolutize_def host split: prod.split sum.split)
  next
    case (Some a)
    then have "rq_uri rq = u" using assms by (simp add: requested_uri_def)
    then show ?thesis
      using Some by (intro exI [of _ "rq\<lparr>rq_headers := hs\<rparr>"]) (simp add: forward_def clean split: prod.split sum.split)
  qed
qed

section \<open>Properties\<close>

text \<open>
  C14: The upstream connection of an HTTP request is accounted from its opening to its
  drop, whatever polls hyper makes on it: hyper sees the bare socket; the row of the
  authority's host grows by one connection, by the bytes read as ingress and by the
  bytes written as egress, and no other row changes; the in-flight count is one
  higher while the stream lives and restored by its drop; and a verbose run prints
  exactly one \<open>CLOSE\<close> line for it, whether it was shut down before or not.
\<close>

theorem upstream_accounts:
  assumes "registry_ok r" and "uri_authority u = Some auth"
    and "split_authority auth (if uri_scheme u = Some ''https'' then 443 else 80) = (host, port)"
    and "connect host port = Ok up" and "tu_nodelay up = Ok ()"
    and "run_polls ops ps (tu_stream up) = (s', os)"
  shows "\<exists>st st' r' out'. connector_call connect verbose u (r, out) = Ok st
    \<and> open_connections (fst (snd (fst st))) = open_connections r + 1
    \<and> run_polls (counted_stream_ops ops) ps st = (st', os) \<and> c_inner (fst (fst st')) = s'
    \<and> drop_counted_stream st' = (r', out')
    \<and> row r' = (row r)(host \<mapsto> fetched (tu_peer up) (length (all_read os)) (all_written os) (row_or_new r host))
    \<and> open_connections r' = open_connections r
    \<and> closes out' = closes out + (if verbose then 1 else 0)"
  by (rule upstream_life [where connect = connect and host = host and port = port, OF assms])

text \<open>A server on an in-memory socket.\<close>

definition demo_server :: "string \<Rightarrow> u16 \<Rightarrow> (io_error, cursor tcp_upstream) result" where
  "demo_server host port =
     Ok \<lparr>tu_stream = ([1, 2, 3], []), tu_nodelay = Ok (), tu_peer = Ok \<lparr>sa_ip = V4 9 9 9 9, sa_port = port\<rparr>\<rparr>"

theorem upstream_accounts_witness:
  "\<exists>st st' r' out' os. connector_call demo_server True
      \<lparr>uri_scheme = Some ''http'', uri_authority = Some (''b.dev'' @ '':'' @ show_nat (unat (8080 :: u16))), uri_path_query = None\<rparr> (two_hosts, []) = Ok st
    \<and> run_polls (counted_stream_ops cursor_ops) [Poll_Read \<lparr>filled = [], capacity = 8\<rparr>, Poll_Write [7, 8], Poll_Shutdown] st = (st', os)
    \<and> drop_counted_stream st' = (r', out') \<and> closes out' = 1
    \<and> row r' = (row two_hosts)(''b.dev'' \<mapsto> fetched (Ok \<lparr>sa_ip = V4 9 9 9 9, sa_port = 8080\<rparr>) 3 2 (row_or_new two_hosts ''b.dev''))"
proof -
  let ?u = "\<lparr>uri_scheme = Some ''http'', uri_authority = Some (''b.dev'' @ '':'' @ show_nat (unat (8080 :: u16))), uri_path_query = None\<rparr>"
  let ?ps = "[Poll_Read \<lparr>filled = [], capacity = 8\<rparr>, Poll_Write [7, 8], Poll_Shutdown]"
  obtain s' os where run: "run_polls cursor_ops ?ps ([1, 2, 3], []) = (s', os)" by fastforce
  then have os: "length (all_read os) = 3" "all_written os = 2"
    by (auto simp: cursor_ops_def buf_remaining_def put_slice_def all_read_def all_written_def)
  have "to_ascii_lowercase ''b.dev'' = ''b.dev''" by code_simp
  then have "split_authority (''b.dev'' @ '':'' @ show_nat (unat (8080 :: u16))) 80 = (''b.dev'', 8080)"
    using split_authority_name(1) [of "''b.dev''" 8080 80] by simp
  then have split: "split_authority (''b.dev'' @ '':'' @ show_nat (unat (8080 :: u16)))
      (if uri_scheme ?u = Some ''https'' then 443 else 80) = (''b.dev'', 8080)" by simp
  let ?up = "\<lparr>tu_stream = ([1, 2, 3], []), tu_nodelay = Ok (), tu_peer = Ok \<lparr>sa_ip = V4 9 9 9 9, sa_port = 8080\<rparr>\<rparr> :: cursor tcp_upstream"
  have up: "demo_server ''b.dev'' 8080 = Ok ?up" "tu_nodelay ?up = Ok ()"
    "run_polls cursor_ops ?ps (tu_stream ?up) = (s', os)" "uri_authority ?u = Some (''b.dev'' @ '':'' @ show_nat (unat (8080 :: u16)))"
    using run by (simp_all add: demo_server_def)
  obtain st st' r' out' where
    "connector_call demo_server True ?u (two_hosts, []) = Ok st"
    "run_polls (counted_stream_ops cursor_ops) ?ps st = (st', os)" "drop_counted_stream st' = (r', out')"
    "row r' = (row two_hosts)(''b.dev'' \<mapsto>
        fetched (tu_peer ?up) (length (all_read os)) (all_written os) (row_or_new two_hosts ''b.dev''))"
    "closes out' = closes [] + (if True then 1 else 0)"
    using upstream_accounts [where connect = demo_server and host = "''b.dev''" and port = 8080,
        OF registry_ok_two_hosts up(4) split up(1-3), of True "[]"] by blast
  then show ?thesis unfolding os by (intro exI [of _ st] exI [of _ st'] exI [of _ r'] exI [of _ out'] exI [of _ os]) simp
qed

text \<open>The request as it is handed on.\<close>

definition passed_on :: "http_request \<Rightarrow> http_request \<Rightarrow> bool" where
  "passed_on rq rq' \<longleftrightarrow>
     rq_method rq' = rq_method rq \<and> rq_body rq' = rq_body rq
     \<and> rq_headers rq' =
         filter (\<lambda>(n, _). n \<notin> {''proxy-connection'', ''proxy-authorization'', ''keep-alive''}) (rq_headers rq)
     \<and> (uri_authority (rq_uri rq) \<noteq> None \<longrightarrow> rq_uri rq' = rq_uri rq)"

text \<open>A request for which no upstream is known: no authority, and none from a readable \<open>Host\<close>.\<close>

definition homeless :: "(string \<Rightarrow> (string, uri) result) \<Rightarrow> http_request \<Rightarrow> bool" where
  "homeless parse_uri rq \<longleftrightarrow> uri_authority (rq_uri rq) = None \<and>
     (case Option.bind (map_of (rq_headers rq) ''host'') header_str of
        None \<Rightarrow> True
      | Some h \<Rightarrow> isl (parse_uri (''http://'' @ h @ (case uri_path_query (rq_uri rq) of None \<Rightarrow> ''/'' | Some pq \<Rightarrow> pq))))"

lemma forward_cases:
  shows "homeless parse_uri rq \<Longrightarrow> \<exists>msg. forward parse_uri send rq w = (w, error_response 400 msg)"
    and "\<not> homeless parse_uri rq \<Longrightarrow> \<exists>rq'. passed_on rq rq' \<and> forward parse_uri send rq w =
      (case send rq' w of
         (w', Inr resp) \<Rightarrow> (w', resp)
       | (w', Inl err) \<Rightarrow> (w', error_response 502 (''upstream request failed: '' @ err)))"
proof -
  define hs where
    "hs = filter (\<lambda>(n, _). n \<notin> {''proxy-connection'', ''proxy-authorization'', ''keep-alive''}) (rq_headers rq)"
  have clean: "fold remove_header HOP_BY_HOP rq = rq\<lparr>rq_headers := hs\<rparr>"
    unfolding fold_remove_header hs_def by (simp add: HOP_BY_HOP_def)
  have host: "map_of hs ''host'' = map_of (rq_headers rq) ''host''"
    unfolding hs_def by (rule map_of_filter_key) simp
  have passed: "passed_on rq (rq\<lparr>rq_headers := hs\<rparr>)"
      "uri_authority (rq_uri rq) = None \<Longrightarrow> passed_on rq (rq\<lparr>rq_headers := hs, rq_uri := u\<rparr>)" for u
    by (simp_all add: passed_on_def hs_def)
  show "\<exists>msg. forward parse_uri send rq w = (w, error_response 400 msg)" if "homeless parse_uri rq"
    using that by (auto simp: forward_def clean absolutize_def host homeless_def Let_def isl_def split: option.splits)
  show "\<exists>rq'. passed_on rq rq' \<and> forward parse_uri send rq w =
      (case send rq' w of
         (w', Inr resp) \<Rightarrow> (w', resp)
       | (w', Inl err) \<Rightarrow> (w', error_response 502 (''upstream request failed: '' @ err)))" if home: "\<not> homeless parse_uri rq"
  proof (cases "uri_authority (rq_uri rq)")
    case None
    let ?abs = "\<lambda>h. ''http://'' @ h @ (case uri_path_query (rq_uri rq) of None \<Rightarrow> ''/'' | Some pq \<Rightarrow> pq)"
    from None home obtain h where
      h: "Option.bind (map_of (rq_headers rq) ''host'') header_str = Some h" "\<not> isl (parse_uri (?abs h))"
      by (cases "Option.bind (map_of (rq_headers rq) ''host'') header_str") (simp_all add: homeless_def)
    then obtain u where "parse_uri (?abs h) = Ok u" by (cases "parse_uri (?abs h)") auto
    note h(1) this
    then show ?thesis
      using None passed(2) [OF None, of u]
      by (intro exI [of _ "rq\<lparr>rq_headers := hs, rq_uri := u\<rparr>"]) (simp add: forward_def clean absolutize_def host split: prod.split sum.split)
  next
    case (Some a)
    then show ?thesis
      using passed(1) by (intro exI [of _ "rq\<lparr>rq_headers := hs\<rparr>"]) (simp add: forward_def clean split: prod.split sum.split)
  qed
qed

text \<open>
  C34: What the proxy does with a plain request: it is handed to the client, once, with
  its method and body as they came, its headers in their order without the hop-by-hop
  ones, and an absolute URI untouched; the client's answer is passed on and its failure
  becomes a 502. It is held back, with a 400 and nothing touched, exactly when it has no
  authority and none can be made from a readable \<open>Host\<close> header.
\<close>

theorem forward_delivers:
  "if homeless parse_uri rq
   then fst (forward parse_uri send rq w) = w \<and> rs_status (snd (forward parse_uri send rq w)) = 400
   else \<exists>rq'. passed_on rq rq' \<and> fst (forward parse_uri send rq w) = fst (send rq' w)
     \<and> (case snd (send rq' w) of
          Inr resp \<Rightarrow> snd (forward parse_uri send rq w) = resp
        | Inl _ \<Rightarrow> rs_status (snd (forward parse_uri send rq w)) = 502)"
proof (cases "homeless parse_uri rq")
  case True
  with forward_cases(1) [OF True, of send w] show ?thesis by (auto simp: error_response_def)
next
  case False
  from forward_cases(2) [OF False, of send w] obtain rq' where "passed_on rq rq'" "forward parse_uri send rq w =
      (case send rq' w of
         (w', Inr resp) \<Rightarrow> (w', resp)
       | (w', Inl err) \<Rightarrow> (w', error_response 502 (''upstream request failed: '' @ err)))" by blast
  with False show ?thesis
    by (intro if_not_P [THEN iffD2] exI [of _ rq']) (auto simp: error_response_def split: prod.splits sum.splits)
qed

end
