(* ===== verification/Dns.thy ===== *)
theory Dns
  imports Stats
begin

text \<open>
  The cached reverse resolver (\<open>src/dns.rs\<close>). hickory's \<open>reverse_lookup\<close> is a
  parameter that gives the answer section of a lookup, or \<open>None\<close> when it fails; a
  disabled resolver has no such function. The cache is an association list.
\<close>

datatype rdata = PTR string | OtherRData

type_synonym lookup = "ip_addr \<Rightarrow> rdata list option"

record reverse_resolver =
  resolver :: "lookup option"
  cache :: "(ip_addr \<times> string option) list"

text \<open>\<open>from_system\<close>: the argument is the resolver that hickory builds, if it can.\<close>

definition from_system :: "lookup option \<Rightarrow> reverse_resolver" where
  "from_system built = \<lparr>resolver = built, cache = []\<rparr>"

definition disabled :: reverse_resolver where
  "disabled = \<lparr>resolver = None, cache = []\<rparr>"

fun find_ptr :: "rdata list \<Rightarrow> string option" where
  "find_ptr [] = None"
| "find_ptr (PTR name # rs) = Some (to_ascii_lowercase (trim_end_matches (CHR ''.'') name))"
| "find_ptr (OtherRData # rs) = find_ptr rs"

definition non_empty :: "string option \<Rightarrow> string option" where
  "non_empty s = (case s of None \<Rightarrow> None | Some n \<Rightarrow> if n = [] then None else Some n)"

definition hostname :: "ip_addr \<Rightarrow> reverse_resolver \<Rightarrow> reverse_resolver \<times> string option" where
  "hostname ip rr =
     (case map_of (cache rr) ip of
        Some hit \<Rightarrow> (rr, hit)
      | None \<Rightarrow>
          (let resolved = (case resolver rr of
                             Some lookup \<Rightarrow> non_empty (Option.bind (lookup ip) find_ptr)
                           | None \<Rightarrow> None)
           in (rr\<lparr>cache := AList.update ip resolved (cache rr)\<rparr>, resolved)))"

fun hostnames :: "ip_addr list \<Rightarrow> reverse_resolver \<Rightarrow> reverse_resolver" where
  "hostnames [] rr = rr"
| "hostnames (ip # ips) rr = hostnames ips (fst (hostname ip rr))"

section \<open>The cache\<close>

lemma hostname_cached: "map_of (cache (fst (hostname ip rr))) ip = Some (snd (hostname ip rr))"
  by (auto simp: hostname_def Let_def update_conv' split: option.splits)

lemma hostname_keeps: "map_of (cache rr) k = Some v \<Longrightarrow> map_of (cache (fst (hostname ip rr))) k = Some v"
  by (auto simp: hostname_def Let_def update_conv' split: option.splits)

lemma hostnames_keep: "map_of (cache rr) k = Some v \<Longrightarrow> map_of (cache (hostnames ips rr)) k = Some v"
  by (induction ips arbitrary: rr) (simp_all add: hostname_keeps)

text \<open>What a fresh lookup of an address answers, and caches that hold only such answers.\<close>

definition ptr_name :: "lookup option \<Rightarrow> ip_addr \<Rightarrow> string option" where
  "ptr_name built ip = snd (hostname ip (from_system built))"

definition cache_ok :: "reverse_resolver \<Rightarrow> bool" where
  "cache_ok rr \<longleftrightarrow> (\<forall>ip v. map_of (cache rr) ip = Some v \<longrightarrow> v = ptr_name (resolver rr) ip)"

lemma cache_ok_from_system [simp]: "cache_ok (from_system built)" "resolver (from_system built) = built"
  by (simp_all add: cache_ok_def from_system_def)

lemma hostname_ok:
  assumes "cache_ok rr"
  shows "snd (hostname ip rr) = ptr_name (resolver rr) ip" and "cache_ok (fst (hostname ip rr))"
    and "resolver (fst (hostname ip rr)) = resolver rr"
proof -
  show ans: "snd (hostname ip rr) = ptr_name (resolver rr) ip"
    using assms by (auto simp: cache_ok_def ptr_name_def hostname_def from_system_def Let_def split: option.splits)
  show res: "resolver (fst (hostname ip rr)) = resolver rr"
    by (simp add: hostname_def Let_def split: option.splits)
  have "cache (fst (hostname ip rr)) = cache rr \<or>
      cache (fst (hostname ip rr)) = AList.update ip (snd (hostname ip rr)) (cache rr)"
    by (simp add: hostname_def Let_def split: option.splits)
  then show "cache_ok (fst (hostname ip rr))"
    using assms ans res by (auto simp: cache_ok_def update_conv' split: if_splits)
qed

lemma find_ptr_normal: "find_ptr rs = Some n \<Longrightarrow> trim_end_matches (CHR ''.'') n = n \<and> to_ascii_lowercase n = n"
proof (induction rs rule: find_ptr.induct)
  case (2 name rs)
  have "to_ascii_lowercase (to_ascii_lowercase s) = to_ascii_lowercase s" for s
    by (induction s) simp_all
  with 2 show ?case by (auto simp: trim_end_dot_lower)
qed simp_all

section \<open>Properties\<close>

text \<open>
  An address is looked up at most once per resolver: after the first query its
  answer, a failure included, is given again by every later query, whatever was
  queried in between and whatever a new lookup would say, and no new lookup is made.
\<close>

theorem hostname_once:
  assumes "hostname ip rr = (rr1, ans)" and "rr2 = (hostnames ips rr1)\<lparr>resolver := new_lookup\<rparr>"
  shows "hostname ip rr2 = (rr2, ans)"
proof -
  have "map_of (cache rr1) ip = Some ans" using hostname_cached [of ip rr] assms(1) by simp
  then have "map_of (cache rr2) ip = Some ans" using hostnames_keep assms(2) by simp
  then show ?thesis by (simp add: hostname_def)
qed

theorem hostname_once_witness:
  "snd (hostname (V4 1 2 3 4) ((hostnames [V4 5 6 7 8]
      (fst (hostname (V4 1 2 3 4) (from_system (Some (\<lambda>_. Some [PTR ''A.dev.'']))))))\<lparr>resolver := None\<rparr>))
    = Some ''a.dev''"
proof -
  let ?rr = "from_system (Some (\<lambda>_. Some [PTR ''A.dev.'']))"
  have "to_ascii_lowercase (trim_end_matches (CHR ''.'') ''A.dev.'') = ''a.dev''" by code_simp
  then have "hostname (V4 1 2 3 4) ?rr = (fst (hostname (V4 1 2 3 4) ?rr), Some ''a.dev'')"
    by (simp add: hostname_def from_system_def non_empty_def Let_def)
  from hostname_once [OF this refl, where ips = "[V4 5 6 7 8]" and new_lookup = None] show ?thesis by simp
qed

text \<open>
  A name from the resolver is in the form of the host names of the registry: not
  empty, in lower case and without a trailing dot; a disabled resolver gives none.
\<close>

theorem hostname_normal_form:
  "(case snd (hostname ip (from_system built)) of
      None \<Rightarrow> True
    | Some n \<Rightarrow> n \<noteq> [] \<and> to_ascii_lowercase n = n \<and> last n \<noteq> CHR ''.'')
   \<and> snd (hostname ip disabled) = None"
proof -
  have "n \<noteq> [] \<and> to_ascii_lowercase n = n \<and> last n \<noteq> CHR ''.''"
    if "snd (hostname ip (from_system built)) = Some n" for n
  proof -
    from that obtain rs where "find_ptr rs = Some n" "n \<noteq> []"
      by (auto simp: hostname_def from_system_def non_empty_def Let_def Option.bind_eq_Some_conv
          split: option.splits if_splits)
    with find_ptr_normal [of rs n] trim_end_last [of "CHR ''.''" n] show ?thesis by simp
  qed
  then show ?thesis by (auto simp: hostname_def disabled_def split: option.splits)
qed

end
