(* ===== verification/Naming.thy ===== *)
theory Naming
  imports Dns
begin

text \<open>
  Naming the endpoints that were only seen as addresses (\<open>resolve_ip_only_endpoints\<close> of
  \<open>src/main.rs\<close>): one lookup task per address row, all on one resolver, then the renames
  in the order of the rows. What the system resolver answers, and whether a task can be
  joined, are arguments. The sequence of renames is shown to group the rows by the name
  each of them ends up with.
\<close>

section \<open>The operation\<close>

definition ip_hosts :: "registry \<Rightarrow> (string \<times> ip_addr) list" where
  "ip_hosts r = List.map_filter (\<lambda>(host, h). map_option (\<lambda>ip. (host, ip)) (parse_ip host)) (hosts r)"

text \<open>The answers of the lookup tasks, which share the cache of the resolver.\<close>

fun lookup_tasks :: "(string \<times> ip_addr) list \<Rightarrow> reverse_resolver \<Rightarrow> (string \<times> string option) list" where
  "lookup_tasks [] rr = []"
| "lookup_tasks ((host, ip) # ps) rr =
     (case hostname ip rr of (rr', ans) \<Rightarrow> (host, ans) # lookup_tasks ps rr')"

definition rename_answered :: "(string \<Rightarrow> bool) \<Rightarrow> string \<times> string option \<Rightarrow> registry \<Rightarrow> registry" where
  "rename_answered joined = (\<lambda>(host, ans) r.
     case ans of
       Some name \<Rightarrow> if joined host then rename host name r else r
     | None \<Rightarrow> r)"

definition resolve_ip_only_endpoints :: "lookup option \<Rightarrow> (string \<Rightarrow> bool) \<Rightarrow> registry \<Rightarrow> registry" where
  "resolve_ip_only_endpoints built joined r =
     (if ip_hosts r = [] then r
      else fold (rename_answered joined) (lookup_tasks (ip_hosts r) (from_system built)) r)"

section \<open>Order of the tasks\<close>

text \<open>The shared cache does not change the answers.\<close>

lemma lookup_tasks_map:
  "cache_ok rr \<Longrightarrow> lookup_tasks ps rr = map (\<lambda>(host, ip). (host, ptr_name (resolver rr) ip)) ps"
proof (induction ps rr rule: lookup_tasks.induct)
  case (2 host ip ps rr)
  obtain rr' ans where h: "hostname ip rr = (rr', ans)" by fastforce
  with hostname_ok [OF 2(2), of ip] 2(1) [OF h [symmetric]] show ?case by simp
qed simp

text \<open>The renames as a list of old and new names.\<close>

definition renames :: "lookup option \<Rightarrow> (string \<Rightarrow> bool) \<Rightarrow> registry \<Rightarrow> (string \<times> string) list" where
  "renames built joined r =
     List.map_filter (\<lambda>(host, ip). if joined host then map_option (Pair host) (ptr_name built ip) else None) (ip_hosts r)"

lemma fold_rename_answered:
  "fold (rename_answered joined) (map (\<lambda>(host, ip). (host, f ip)) ps) r =
   fold (\<lambda>(a, b). rename a b)
     (List.map_filter (\<lambda>(host, ip). if joined host then map_option (Pair host) (f ip) else None) ps) r"
proof (induction ps arbitrary: r)
  case (Cons p ps)
  then show ?case
    by (cases p) (auto simp: rename_answered_def List.map_filter_simps split: option.splits)
qed (simp add: List.map_filter_simps)

lemma resolve_renames: "resolve_ip_only_endpoints built joined r = fold (\<lambda>(a, b). rename a b) (renames built joined r) r"
  by (simp add: resolve_ip_only_endpoints_def renames_def lookup_tasks_map fold_rename_answered
      List.map_filter_simps)

lemma ip_hosts_mem: "(host, ip) \<in> set (ip_hosts r) \<longleftrightarrow> host \<in> dom (row r) \<and> parse_ip host = Some ip"
  by (force simp: ip_hosts_def List.map_filter_def hosts_def dom_row)

lemma ip_hosts_distinct: "registry_ok r \<Longrightarrow> distinct (map fst (ip_hosts r))"
proof -
  have "map fst (List.map_filter (\<lambda>(host, h). map_option (\<lambda>ip. (host, ip)) (parse_ip host)) xs) =
      filter (\<lambda>host. parse_ip host \<noteq> None) (map fst xs)" for xs :: "(string \<times> handle) list"
    by (induction xs) (auto simp: List.map_filter_simps split: option.splits)
  then show "registry_ok r \<Longrightarrow> distinct (map fst (ip_hosts r))"
    by (simp add: ip_hosts_def hosts_def registry_ok_def)
qed

lemma renames_distinct: "registry_ok r \<Longrightarrow> distinct (map fst (renames built joined r))"
proof -
  have "map fst (List.map_filter (\<lambda>(host, ip). if joined host then map_option (Pair host) (ptr_name built ip) else None) ps) =
      map fst (filter (\<lambda>(host, ip). joined host \<and> ptr_name built ip \<noteq> None) ps)" for ps
    by (induction ps) (auto simp: List.map_filter_simps split: option.splits if_splits)
  then show "registry_ok r \<Longrightarrow> distinct (map fst (renames built joined r))"
    using ip_hosts_distinct [of r] by (simp add: renames_def distinct_map_filter)
qed

section \<open>Grouping\<close>

text \<open>A counter of a host, zero when there is no row, and its name after a list of renames.\<close>

definition counted_at :: "(endpoint_stats \<Rightarrow> u64) \<Rightarrow> registry \<Rightarrow> string \<Rightarrow> u64" where
  "counted_at f r k = (case row r k of None \<Rightarrow> 0 | Some s \<Rightarrow> f s)"

definition new_name :: "(string \<times> string) list \<Rightarrow> string \<Rightarrow> string" where
  "new_name ns h = (case map_of ns h of None \<Rightarrow> h | Some n \<Rightarrow> n)"

definition grouped :: "(endpoint_stats \<Rightarrow> u64) \<Rightarrow> (string \<Rightarrow> string) \<Rightarrow> registry \<Rightarrow> string \<Rightarrow> u64" where
  "grouped f g r k = (\<Sum>h \<in> {h \<in> dom (row r). g h = k}. counted_at f r h)"

lemma grouped_superset:
  assumes "finite A" and "dom (row r) \<subseteq> A"
  shows "grouped f g r k = (\<Sum>h \<in> A. if g h = k then counted_at f r h else 0)"
proof -
  have "grouped f g r k = (\<Sum>h \<in> dom (row r). if g h = k then counted_at f r h else 0)"
    unfolding grouped_def by (rule sum.inter_filter [OF finite_dom_row])
  also have "\<dots> = (\<Sum>h \<in> A. if g h = k then counted_at f r h else 0)"
    using assms by (intro sum.mono_neutral_left) (auto simp: counted_at_def split: option.splits)
  finally show ?thesis .
qed

lemma rename_row_dom:
  assumes "registry_ok r" and "a \<noteq> b" and "a \<in> dom (row r)"
  shows "dom (row (rename a b r)) = insert b (dom (row r)) - {a}"
    and "additive f \<Longrightarrow> counted_at f (rename a b r) =
      (counted_at f r)(a := 0, b := counted_at f r b + counted_at f r a)"
proof -
  from assms(3) obtain s where s: "row r a = Some s" by blast
  note row = row_rename(1) [OF assms(1,2) s]
  show "dom (row (rename a b r)) = insert b (dom (row r)) - {a}"
    unfolding row using assms(2) by auto
  show "additive f \<Longrightarrow> counted_at f (rename a b r) =
      (counted_at f r)(a := 0, b := counted_at f r b + counted_at f r a)"
    using assms(2) by (intro ext) (auto simp: row s counted_at_def additive_def split: option.splits)
qed

lemma new_name_Cons: "new_name ((a, b) # ns) = (new_name ns)(a := b)"
  by (auto simp: new_name_def)

lemma rename_grouped:
  assumes "registry_ok r" and "a \<noteq> b" and "a \<in> dom (row r)" and "additive f" and "g b = b"
  shows "grouped f g (rename a b r) k = grouped f (g(a := b)) r k"
proof -
  let ?A = "insert b (dom (row r))" and ?B = "insert b (dom (row r)) - {a, b}"
  have A: "finite ?A" "?A = insert a (insert b ?B)" using assms(3) by (auto simp: finite_dom_row)
  let ?v = "\<lambda>r g h. if g h = k then counted_at f r h else 0"
  have split: "(\<Sum>h \<in> ?A. w h) = w a + (w b + (\<Sum>h \<in> ?B. w h))" for w :: "string \<Rightarrow> u64"
    using A assms(2) by (subst A(2)) simp
  have "grouped f g (rename a b r) k = (\<Sum>h \<in> ?A. ?v (rename a b r) g h)"
    using A by (intro grouped_superset) (auto simp: rename_row_dom [OF assms(1-3)])
  moreover have "grouped f (g(a := b)) r k = (\<Sum>h \<in> ?A. ?v r (g(a := b)) h)"
    using A by (intro grouped_superset) auto
  moreover have "(\<Sum>h \<in> ?B. ?v (rename a b r) g h) = (\<Sum>h \<in> ?B. ?v r (g(a := b)) h)"
    by (intro sum.cong) (auto simp: rename_row_dom(2) [OF assms(1-4)])
  moreover have "counted_at f (rename a b r) a = 0" "counted_at f (rename a b r) b = counted_at f r b + counted_at f r a"
    using assms(2) by (simp_all add: rename_row_dom(2) [OF assms(1-4)])
  ultimately show ?thesis
    using assms(2,5) by (simp only: split) (simp add: add.commute)
qed

text \<open>A sequence of renames groups the rows by their new names, if no new name is renamed itself.\<close>

lemma fold_rename_groups:
  assumes "registry_ok r" and "distinct (map fst ns)" and "fst ` set ns \<subseteq> dom (row r)"
    and "fst ` set ns \<inter> snd ` set ns = {}"
  shows "registry_ok (fold (\<lambda>(a, b). rename a b) ns r)
    \<and> dom (row (fold (\<lambda>(a, b). rename a b) ns r)) = new_name ns ` dom (row r)
    \<and> (additive f \<longrightarrow> counted_at f (fold (\<lambda>(a, b). rename a b) ns r) k = grouped f (new_name ns) r k)"
  using assms
proof (induction ns arbitrary: r)
  case Nil
  have "{h \<in> dom (row r). h = k} = (if row r k = None then {} else {k})" by auto
  then show ?case using Nil by (auto simp: new_name_def grouped_def counted_at_def)
next
  case (Cons p ns)
  obtain a b where p: "p = (a, b)" by fastforce
  have ab: "a \<noteq> b" "a \<in> dom (row r)" "map_of ns a = None" "map_of ns b = None"
    using Cons.prems by (auto simp: p map_of_eq_None_iff)
  note row = rename_row_dom [OF Cons.prems(1) ab(1,2)]
  have nb: "new_name ns b = b" using ab by (simp add: new_name_def)
  have "fst ` set ns \<subseteq> dom (row (rename a b r))"
    unfolding row(1) using Cons.prems(2,3) by (auto simp: p)
  from Cons.IH [OF registry_ok_rename [OF Cons.prems(1)] _ this] Cons.prems(2,4)
  have IH: "registry_ok (fold (\<lambda>(a, b). rename a b) ns (rename a b r))"
    "dom (row (fold (\<lambda>(a, b). rename a b) ns (rename a b r))) = new_name ns ` dom (row (rename a b r))"
    "additive f \<Longrightarrow> counted_at f (fold (\<lambda>(a, b). rename a b) ns (rename a b r)) k = grouped f (new_name ns) (rename a b r) k"
    by (auto simp: p)
  have img: "new_name ns ` (insert b (dom (row r)) - {a}) = (new_name ns)(a := b) ` dom (row r)"
  proof (intro equalityI subsetI)
    fix x
    assume "x \<in> (new_name ns)(a := b) ` dom (row r)"
    then obtain h where h: "h \<in> dom (row r)" "x = ((new_name ns)(a := b)) h" by blast
    show "x \<in> new_name ns ` (insert b (dom (row r)) - {a})"
    proof (cases "h = a")
      case True
      then show ?thesis using h nb ab(1) by (intro image_eqI [of _ _ b]) auto
    qed (use h in auto)
  next
    fix x
    assume "x \<in> new_name ns ` (insert b (dom (row r)) - {a})"
    then obtain h where "h \<in> insert b (dom (row r))" "h \<noteq> a" "x = new_name ns h" by blast
    then show "x \<in> (new_name ns)(a := b) ` dom (row r)"
      using nb ab(2) by (cases "h = b") (auto intro: image_eqI [of _ _ a] image_eqI [of _ _ h])
  qed
  have "counted_at f (fold (\<lambda>(a, b). rename a b) ns (rename a b r)) k = grouped f ((new_name ns)(a := b)) r k" if "additive f"
    using IH(3) [OF that] rename_grouped [where f = f and g = "new_name ns" and k = k, OF Cons.prems(1) ab(1,2) that nb]
    by (simp only:)
  moreover have "fold (\<lambda>(a, b). rename a b) (p # ns) r = fold (\<lambda>(a, b). rename a b) ns (rename a b r)" by (simp add: p)
  ultimately show ?case
    unfolding p new_name_Cons using IH(1) IH(2) [unfolded row(1) img] by (simp only:) blast
qed

section \<open>Properties\<close>

text \<open>The name under which a row is reported.\<close>

definition final_name :: "lookup option \<Rightarrow> (string \<Rightarrow> bool) \<Rightarrow> string \<Rightarrow> string" where
  "final_name built joined host =
     (case parse_ip host of
        None \<Rightarrow> host
      | Some ip \<Rightarrow> (case ptr_name built ip of Some name \<Rightarrow> if joined host then name else host | None \<Rightarrow> host))"

lemma renames_mem:
  "(a, b) \<in> set (renames built joined r) \<longleftrightarrow>
    a \<in> dom (row r) \<and> joined a \<and> (\<exists>ip. parse_ip a = Some ip \<and> ptr_name built ip = Some b)"
proof -
  have "(a, b) \<in> set (renames built joined r) \<longleftrightarrow>
      (\<exists>ip. (a, ip) \<in> set (ip_hosts r) \<and> joined a \<and> ptr_name built ip = Some b)"
    by (auto simp: renames_def List.map_filter_def image_iff split: if_splits prod.splits) force+
  then show ?thesis by (auto simp: ip_hosts_mem)
qed

lemma renames_final_name:
  assumes "registry_ok r" and "h \<in> dom (row r)"
  shows "new_name (renames built joined r) h = final_name built joined h"
proof (cases "map_of (renames built joined r) h")
  case None
  then have "(h, b) \<notin> set (renames built joined r)" for b by (auto simp: map_of_eq_None_iff image_iff)
  then show ?thesis
    using None assms(2) by (auto simp: new_name_def final_name_def renames_mem split: option.splits)
next
  case (Some b)
  then show ?thesis
    using map_of_SomeD [OF Some] by (auto simp: new_name_def final_name_def renames_mem)
qed



end
