(* ===== verification/Report.thy ===== *)
theory Report
  imports Stats
begin

text \<open>
  The run summary (\<open>src/report.rs\<close>): totals, the report record, the byte counts with
  binary units and the text table. The binary floating-point arithmetic behind the
  two decimals is modelled exactly: a non-negative \<open>f64\<close> is the fraction it denotes,
  conversions and divisions round half to even at 53 bits, and the format \<open>{:.2}\<close>
  rounds half to even at the second decimal of that fraction.
\<close>

section \<open>Totals and the report\<close>

record totals =
  t_ingress :: u64
  t_egress :: u64
  t_connections :: u64

definition default_totals :: totals where
  "default_totals = \<lparr>t_ingress = 0, t_egress = 0, t_connections = 0\<rparr>"

text \<open>One step of the fold; \<open>None\<close> is the overflow panic of \<open>+=\<close>.\<close>

definition add_endpoint :: "bool \<Rightarrow> totals \<Rightarrow> endpoint_view \<Rightarrow> totals option" where
  "add_endpoint overflow_checks acc e =
     Option.bind (add_chk overflow_checks (t_ingress acc) (ingress_bytes e)) (\<lambda>i.
     Option.bind (add_chk overflow_checks (t_egress acc) (egress_bytes e)) (\<lambda>g.
     Option.bind (add_chk overflow_checks (t_connections acc) (conns e)) (\<lambda>c.
       Some \<lparr>t_ingress = i, t_egress = g, t_connections = c\<rparr>)))"

fun totals_from :: "bool \<Rightarrow> totals \<Rightarrow> endpoint_view list \<Rightarrow> totals option" where
  "totals_from overflow_checks acc [] = Some acc"
| "totals_from overflow_checks acc (e # es) =
     Option.bind (add_endpoint overflow_checks acc e) (\<lambda>acc'. totals_from overflow_checks acc' es)"

definition totals_of :: "bool \<Rightarrow> endpoint_view list \<Rightarrow> totals option" where
  "totals_of overflow_checks es = totals_from overflow_checks default_totals es"

record totals_breakdown =
  matching_filter :: totals
  all_destinations :: totals

record report =
  rep_command :: string
  domain_prefix_filter :: "string option"
  execution_time_ms :: nat
  rep_exit_code :: i32
  rep_totals :: totals_breakdown
  rep_endpoints :: "endpoint_view list"

definition new_report ::
  "bool \<Rightarrow> string \<Rightarrow> string option \<Rightarrow> nat \<Rightarrow> i32 \<Rightarrow> endpoint_view list \<Rightarrow> report option" where
  "new_report overflow_checks cmd flt ms code es =
     Option.bind (totals_of overflow_checks (filter matches_filter es)) (\<lambda>m.
     Option.bind (totals_of overflow_checks es) (\<lambda>a.
       Some \<lparr>rep_command = cmd, domain_prefix_filter = flt, execution_time_ms = ms, rep_exit_code = code,
             rep_totals = \<lparr>matching_filter = m, all_destinations = a\<rparr>, rep_endpoints = es\<rparr>))"

section \<open>Floating point\<close>

definition round_div :: "nat \<Rightarrow> nat \<Rightarrow> nat" where
  "round_div a b =
     (let q = a div b; r = a mod b in if b < 2 * r \<or> (2 * r = b \<and> odd q) then q + 1 else q)"

fun bit_len :: "nat \<Rightarrow> nat" where
  "bit_len n = (if n = 0 then 0 else Suc (bit_len (n div 2)))"

declare bit_len.simps [simp del]

text \<open>The cast \<open>as f64\<close> of an unsigned integer.\<close>

definition as_f64 :: "nat \<Rightarrow> nat" where
  "as_f64 n =
     (if n < 2 ^ 53 then n
      else let e = bit_len n - 53 in round_div n (2 ^ e) * 2 ^ e)"

text \<open>
  The \<open>f64\<close> quotient by \<open>1000.0\<close>, as numerator and denominator: the mantissa is scaled
  so that the quotient has 53 bits.
\<close>

function scale_1000 :: "nat \<Rightarrow> nat" where
  "scale_1000 n = (if n = 0 \<or> 1000 \<le> n then 0 else Suc (scale_1000 (2 * n)))"
  by auto
termination by (relation "measure (\<lambda>n. 1000 - n)") auto

declare scale_1000.simps [simp del]

definition f64_div_1000 :: "nat \<Rightarrow> nat \<times> nat" where
  "f64_div_1000 n =
     (if n = 0 then (0, 1)
      else if n < 1000 then
        (let t = 52 + scale_1000 n in (round_div (n * 2 ^ t) 1000, 2 ^ t))
      else
        (let e = bit_len (n div 1000) - 1 in
         if 52 \<le> e then (round_div n (1000 * 2 ^ (e - 52)) * 2 ^ (e - 52), 1)
         else (round_div (n * 2 ^ (52 - e)) 1000, 2 ^ (52 - e))))"

text \<open>The format \<open>{:.2}\<close> of the fraction \<open>num / den\<close>.\<close>

definition show_hundredths :: "nat \<Rightarrow> string" where
  "show_hundredths h =
     show_nat (h div 100) @ ''.'' @ [digit_char (h div 10 mod 10), digit_char (h mod 10)]"

definition fmt_2 :: "nat \<Rightarrow> nat \<Rightarrow> string" where
  "fmt_2 num den = show_hundredths (round_div (100 * num) den)"

section \<open>Byte counts\<close>

definition UNITS :: "string list" where
  "UNITS = [''KB'', ''MB'', ''GB'', ''TB'', ''PB'']"

text \<open>
  The loop over the remaining units. The value is the fraction \<open>num / 1024 ^ k\<close>;
  dividing a normal \<open>f64\<close> by 1024 is exact.
\<close>

fun pick_unit :: "nat \<Rightarrow> nat \<Rightarrow> string \<Rightarrow> string list \<Rightarrow> nat \<times> string" where
  "pick_unit num k unit [] = (k, unit)"
| "pick_unit num k unit (nxt # rest) =
     (if num < 1024 * 1024 ^ k then (k, unit) else pick_unit num (Suc k) nxt rest)"

definition format_bytes :: "u64 \<Rightarrow> string" where
  "format_bytes b =
     (if b < 1024 then show_nat (unat b) @ '' B''
      else
        (let num = as_f64 (unat b) in
         case pick_unit num 1 (hd UNITS) (tl UNITS) of (k, unit) \<Rightarrow>
           fmt_2 num (1024 ^ k) @ '' '' @ unit))"

text \<open>The ellipsis is one character of three bytes.\<close>

definition ellipsis :: string where
  "ellipsis = map byte_char [0xE2, 0x80, 0xA6]"

definition elide :: "string \<Rightarrow> nat \<Rightarrow> string" where
  "elide txt mx = (if chars_count txt \<le> mx then txt else chars_take (mx - 1) txt @ ellipsis)"

section \<open>The table\<close>

definition RULE :: nat where "RULE = 80"
definition DOMAIN_COL :: nat where "DOMAIN_COL = 34"

text \<open>The paddings \<open>{:<w$}\<close>, \<open>{:>w$}\<close> and \<open>{:^w$}\<close>: widths count characters.\<close>

definition pad_right :: "nat \<Rightarrow> string \<Rightarrow> string" where
  "pad_right w s = s @ replicate (w - chars_count s) (CHR '' '')"

definition pad_left :: "nat \<Rightarrow> string \<Rightarrow> string" where
  "pad_left w s = replicate (w - chars_count s) (CHR '' '') @ s"

definition pad_center :: "nat \<Rightarrow> string \<Rightarrow> string" where
  "pad_center w s =
     (let fill = w - chars_count s
      in replicate (fill div 2) (CHR '' '') @ s @ replicate (fill - fill div 2) (CHR '' ''))"

definition writeln :: "string \<Rightarrow> string" where
  "writeln s = s @ [CHR 0x0A]"

definition show_i32 :: "i32 \<Rightarrow> string" where
  "show_i32 n = (if sint n < 0 then ''-'' @ show_nat (nat (- sint n)) else show_nat (nat (sint n)))"

definition table_row :: "string \<Rightarrow> string \<Rightarrow> string \<Rightarrow> string \<Rightarrow> string" where
  "table_row name rx tx cs = pad_right DOMAIN_COL name @ pad_left 14 rx @ pad_left 17 tx @ pad_left 8 cs"

definition endpoint_row :: "endpoint_view \<Rightarrow> string" where
  "endpoint_row e =
     table_row (elide (domain e) (DOMAIN_COL - 1)) (format_bytes (ingress_bytes e))
       (format_bytes (egress_bytes e)) (show_nat (unat (conns e)))"

definition totals_row :: "string \<Rightarrow> totals \<Rightarrow> string" where
  "totals_row label t =
     table_row label (format_bytes (t_ingress t)) (format_bytes (t_egress t)) (show_nat (unat (t_connections t)))"

definition filter_text :: "string option \<Rightarrow> string" where
  "filter_text flt =
     (case flt of
        Some p \<Rightarrow> ''*.'' @ p @ '' (Prefix Match)''
      | None \<Rightarrow> ''none (all destinations)'')"

definition to_text :: "report \<Rightarrow> string" where
  "to_text rep =
     (let rule = replicate RULE (CHR ''='');
          thin = replicate RULE (CHR ''-'');
          (num, den) = f64_div_1000 (as_f64 (execution_time_ms rep));
          shown = filter matches_filter (rep_endpoints rep)
      in writeln rule
         @ writeln (pad_center RULE ''WIRETALLY TRAFFIC SUMMARY'')
         @ writeln rule
         @ writeln (''Command:          '' @ rep_command rep)
         @ writeln (''Target Filter:    '' @ filter_text (domain_prefix_filter rep))
         @ writeln (''Execution Time:   '' @ fmt_2 num den @ ''s'')
         @ writeln (''Exit Code:        '' @ show_i32 (rep_exit_code rep))
         @ writeln ''''
         @ writeln ''DOMAIN / ENDPOINT SUMMARY:''
         @ writeln thin
         @ writeln (table_row ''ENDPOINT / DOMAIN'' ''INGRESS (Rx)'' ''EGRESS (Tx)'' ''CONNS'')
         @ writeln thin
         @ (if shown = [] then writeln ''(no matching traffic observed)'' else [])
         @ concat (map (\<lambda>e. writeln (endpoint_row e)) shown)
         @ writeln thin
         @ writeln (totals_row ''TOTAL (Matching Filter):'' (matching_filter (rep_totals rep)))
         @ writeln (totals_row ''TOTAL (All Destinations):'' (all_destinations (rep_totals rep)))
         @ writeln rule)"

section \<open>Totals add up\<close>

abbreviation usum :: "('a \<Rightarrow> u64) \<Rightarrow> 'a list \<Rightarrow> nat" where
  "usum f xs \<equiv> sum_list (map (\<lambda>x. unat (f x)) xs)"

lemma totals_from_exact:
  assumes "unat (t_ingress acc) + usum ingress_bytes es < 2 ^ 64"
    and "unat (t_egress acc) + usum egress_bytes es < 2 ^ 64"
    and "unat (t_connections acc) + usum conns es < 2 ^ 64"
  shows "\<exists>t. totals_from c acc es = Some t
    \<and> unat (t_ingress t) = unat (t_ingress acc) + usum ingress_bytes es
    \<and> unat (t_egress t) = unat (t_egress acc) + usum egress_bytes es
    \<and> unat (t_connections t) = unat (t_connections acc) + usum conns es"
  using assms
proof (induction es arbitrary: acc)
  case (Cons e es)
  have add: "add_chk c a b = Some (a + b) \<and> unat (a + b) = unat a + unat b"
    if "unat a + unat b + n < 2 ^ 64" for a b :: u64 and n
    using that add_chk_exact [of a b] by simp
  note i = add [of "t_ingress acc" "ingress_bytes e" "usum ingress_bytes es"]
    and g = add [of "t_egress acc" "egress_bytes e" "usum egress_bytes es"]
    and n = add [of "t_connections acc" "conns e" "usum conns es"]
  let ?acc = "\<lparr>t_ingress = t_ingress acc + ingress_bytes e, t_egress = t_egress acc + egress_bytes e,
    t_connections = t_connections acc + conns e\<rparr>"
  have "add_endpoint c acc e = Some ?acc"
    using i g n Cons.prems by (simp add: add_endpoint_def add.assoc)
  then show ?case
    using Cons.IH [of ?acc] i g n Cons.prems by (simp add: add.assoc)
qed simp

lemma totals_of_exact:
  assumes "usum ingress_bytes es < 2 ^ 64" and "usum egress_bytes es < 2 ^ 64" and "usum conns es < 2 ^ 64"
  shows "\<exists>t. totals_of c es = Some t \<and> unat (t_ingress t) = usum ingress_bytes es
    \<and> unat (t_egress t) = usum egress_bytes es \<and> unat (t_connections t) = usum conns es"
  using totals_from_exact [of default_totals es c] assms by (simp add: totals_of_def default_totals_def)

lemma totals_from_wraps:
  "totals_from False acc es = Some
    \<lparr>t_ingress = t_ingress acc + sum_list (map ingress_bytes es),
     t_egress = t_egress acc + sum_list (map egress_bytes es),
     t_connections = t_connections acc + sum_list (map conns es)\<rparr>"
  by (induction es arbitrary: acc) (simp_all add: add_endpoint_def add_chk_def add.assoc)

text \<open>With checks a sum is built exactly when no partial sum leaves 64 bits; partial sums only grow.\<close>

definition sums_fit :: "totals \<Rightarrow> endpoint_view list \<Rightarrow> bool" where
  "sums_fit acc es \<longleftrightarrow>
     unat (t_ingress acc) + usum ingress_bytes es < 2 ^ 64
     \<and> unat (t_egress acc) + usum egress_bytes es < 2 ^ 64
     \<and> unat (t_connections acc) + usum conns es < 2 ^ 64"

lemma add_chk_step: "add_chk True a b = (if unat a + unat b < 2 ^ 64 then Some (a + b) else None)" for a b :: u64
  by (simp add: add_chk_def)

lemma totals_from_checked: "totals_from True acc es = (if sums_fit acc es then totals_from False acc es else None)"
proof (cases "sums_fit acc es")
  case True
  then obtain t t' where "totals_from True acc es = Some t" "totals_from False acc es = Some t'"
    "unat (t_ingress t) = unat (t_ingress t')" "unat (t_egress t) = unat (t_egress t')"
    "unat (t_connections t) = unat (t_connections t')"
    using totals_from_exact [of acc es True] totals_from_exact [of acc es False] unfolding sums_fit_def by auto
  then show ?thesis using True by (cases t; cases t') (simp add: word_unat_eq_iff)
next
  case False
  have "totals_from True acc es = Some t \<Longrightarrow> sums_fit acc es" for t
  proof (induction es arbitrary: acc)
    case Nil
    have "unat w < 2 ^ 64" for w :: u64 using unsigned_less [of w, where 'a = nat] by simp
    then show ?case by (simp add: sums_fit_def)
  next
    case (Cons e es)
    let ?acc = "\<lparr>t_ingress = t_ingress acc + ingress_bytes e, t_egress = t_egress acc + egress_bytes e,
      t_connections = t_connections acc + conns e\<rparr>"
    have fit: "unat (t_ingress acc) + unat (ingress_bytes e) < 2 ^ 64" "unat (t_egress acc) + unat (egress_bytes e) < 2 ^ 64"
      "unat (t_connections acc) + unat (conns e) < 2 ^ 64"
      and "totals_from True ?acc es = Some t"
      using Cons.prems by (auto simp: add_endpoint_def add_chk_step bind_eq_Some_conv split: if_splits)
    from Cons.IH [OF this(4)] have "sums_fit ?acc es" .
    moreover have "unat (t_ingress ?acc) = unat (t_ingress acc) + unat (ingress_bytes e)"
      "unat (t_egress ?acc) = unat (t_egress acc) + unat (egress_bytes e)"
      "unat (t_connections ?acc) = unat (t_connections acc) + unat (conns e)"
      using fit unat_add_exact [where 'a = 64] by simp_all
    ultimately show ?case by (simp add: sums_fit_def add.assoc)
  qed
  then show ?thesis using False by (cases "totals_from True acc es") auto
qed

lemma usum_filter_le: "usum f (filter P xs) \<le> usum f xs"
  by (induction xs) auto

section \<open>Rounding\<close>

lemma round_div_error:
  assumes "0 < b"
  shows "2 * \<bar>int a - int (round_div a b * b)\<bar> \<le> int b"
proof -
  let ?q = "a div b" and ?r = "a mod b"
  have a: "int a = int ?q * int b + int ?r"
    by (metis div_mult_mod_eq of_nat_add of_nat_mult)
  have "?r < b" using assms by simp
  then show ?thesis
    by (auto simp: round_div_def Let_def a algebra_simps)
qed

lemma bit_len_le: "n < 2 ^ m \<Longrightarrow> bit_len n \<le> m"
proof (induction m arbitrary: n)
  case 0
  then show ?case by (simp add: bit_len.simps)
next
  case (Suc m)
  then have "bit_len (n div 2) \<le> m" by (intro Suc.IH) simp
  then show ?case by (subst bit_len.simps) simp
qed

lemma bit_len_pow: "n \<noteq> 0 \<Longrightarrow> 2 ^ (bit_len n - 1) \<le> n"
proof (induction n rule: bit_len.induct)
  case (1 n)
  show ?case
  proof (cases "n div 2 = 0")
    case True
    then have "n = 1" using 1(2) by simp
    then show ?thesis by (simp add: bit_len.simps)
  next
    case False
    then have *: "2 ^ (bit_len (n div 2) - 1) \<le> n div 2" using 1 by simp
    have "bit_len n = Suc (bit_len (n div 2))" using 1(2) by (subst bit_len.simps) simp
    moreover have "bit_len (n div 2) \<noteq> 0" using False by (subst bit_len.simps) simp
    then have "2 ^ bit_len (n div 2) = 2 * (2::nat) ^ (bit_len (n div 2) - 1)"
      by (metis Suc_pred neq0_conv power_Suc diff_Suc_1)
    ultimately show ?thesis using * by simp
  qed
qed

text \<open>
  Below $2^{53}$ the cast is exact; above, its error is at most 1024 and the result
  does not fall below $2^{53}$.
\<close>

lemma as_f64_u64:
  assumes "n < 2 ^ 64"
  shows "\<bar>int (as_f64 n) - int n\<bar> \<le> (if n < 2 ^ 53 then 0 else 1024)"
proof (cases "n < 2 ^ 53")
  case False
  let ?e = "bit_len n - 53"
  have "?e \<le> 11" using bit_len_le [OF assms] by simp
  then have "(2::int) ^ ?e \<le> 2 ^ 11" by (intro power_increasing) simp_all
  then have "int (2 ^ ?e) \<le> 2048" by simp
  moreover have "2 * \<bar>int n - int (round_div n (2 ^ ?e) * 2 ^ ?e)\<bar> \<le> int (2 ^ ?e)"
    by (rule round_div_error) simp
  ultimately have "2 * \<bar>int n - int (round_div n (2 ^ ?e) * 2 ^ ?e)\<bar> \<le> 2048"
    by (rule order_trans [rotated])
  moreover have "as_f64 n = round_div n (2 ^ ?e) * 2 ^ ?e" using False by (simp add: as_f64_def Let_def)
  ultimately have "2 * \<bar>int n - int (as_f64 n)\<bar> \<le> 2048" by (simp only:)
  then show ?thesis using False by simp
qed (simp add: as_f64_def)

lemma as_f64_bounds:
  assumes "n < 2 ^ 64"
  shows "n < 2 ^ 53 \<Longrightarrow> as_f64 n = n" and "as_f64 n \<le> n + 1024" and "n \<le> as_f64 n + 1024"
  using as_f64_u64 [OF assms] by (simp_all split: if_splits)

section \<open>Byte counts are accurate and short\<close>

lemma pick_unit_cases:
  assumes "1024 \<le> num"
  shows "\<exists>k. pick_unit num 1 (hd UNITS) (tl UNITS) = (k, UNITS ! (k - 1)) \<and> 1 \<le> k \<and> k \<le> 5
    \<and> 1024 ^ k \<le> num \<and> (k < 5 \<longrightarrow> num < 1024 ^ Suc k)"
  by (rule exI [of _ "fst (pick_unit num 1 (hd UNITS) (tl UNITS))"])
     (use assms in \<open>simp add: UNITS_def not_less\<close>)

text \<open>The parts of a rendered count: hundredths and the power of the unit.\<close>

lemma format_bytes_parts:
  assumes "1024 \<le> unat b"
  shows "\<exists>h k. format_bytes b = show_hundredths h @ '' '' @ UNITS ! (k - 1) \<and> 1 \<le> k \<and> k \<le> 5
    \<and> 1024 ^ k \<le> unat b \<and> (k < 5 \<longrightarrow> unat b < 1024 ^ Suc k)
    \<and> h = round_div (100 * as_f64 (unat b)) (1024 ^ k)"
proof -
  let ?n = "unat b" and ?m = "as_f64 (unat b)"
  have n: "?n < 2 ^ 64" using unsigned_less [of b, where 'a = nat] by simp
  have m: "?m = ?n \<or> (2 ^ 53 \<le> ?n \<and> 2 ^ 52 \<le> ?m)"
    using as_f64_bounds [OF n] by (cases "?n < 2 ^ 53") auto
  then have "1024 \<le> ?m" using assms by auto
  from pick_unit_cases [OF this] obtain k where
    k: "pick_unit ?m 1 (hd UNITS) (tl UNITS) = (k, UNITS ! (k - 1))" "1 \<le> k" "k \<le> 5"
      "1024 ^ k \<le> ?m" "k < 5 \<longrightarrow> ?m < 1024 ^ Suc k" by blast
  have "1024 ^ k \<le> ?n \<and> (k < 5 \<longrightarrow> ?n < 1024 ^ Suc k)"
  proof (cases "?m = ?n")
    case False
    then have big: "2 ^ 53 \<le> ?n" "2 ^ 52 \<le> ?m" using m by auto
    have "(1024::nat) ^ Suc k \<le> 1024 ^ 5" if "k < 5" using that by (intro power_increasing) simp_all
    then have "k = 5" using k(3,5) big(2) by fastforce
    then show ?thesis using big by simp
  qed (use k in auto)
  moreover have "format_bytes b = show_hundredths (round_div (100 * ?m) (1024 ^ k)) @ '' '' @ UNITS ! (k - 1)"
    using assms k(1) by (simp add: format_bytes_def word_less_nat_alt fmt_2_def)
  ultimately show ?thesis using k by blast
qed

lemma length_show_nat: "n < 10 ^ d \<Longrightarrow> 0 < d \<Longrightarrow> length (show_nat n) \<le> d"
proof (induction d arbitrary: n)
  case (Suc d)
  show ?case
  proof (cases "n < 10")
    case True
    then show ?thesis by (simp add: show_base_single)
  next
    case False
    then have "0 < d" using Suc.prems by (cases d) auto
    moreover have "n div 10 < 10 ^ d" using Suc.prems by (simp add: less_mult_imp_div_less mult.commute)
    ultimately have "length (show_nat (n div 10)) \<le> d" by (intro Suc.IH)
    then show ?thesis using False by (simp add: show_base_step)
  qed
qed simp

lemma show_ascii: "\<forall>c \<in> set (show_nat n). (of_char c :: nat) < 128"
  using show_base_ascii [of 10 n] by simp

lemma digit_ascii: "d < 10 \<Longrightarrow> (of_char (digit_char d) :: nat) < 128"
  by (simp add: of_char_digit)

lemma chars_show_nat: "chars_count (show_nat n) = length (show_nat n)"
  by (rule chars_count_ascii) (rule show_ascii)

lemma chars_hundredths: "chars_count (show_hundredths h) = length (show_nat (h div 100)) + 3"
proof -
  have "\<forall>c \<in> set (show_hundredths h). (of_char c :: nat) < 128"
    using show_ascii [of "h div 100"] digit_ascii by (auto simp: show_hundredths_def)
  then show ?thesis by (simp add: chars_count_ascii) (simp add: show_hundredths_def)
qed

lemma chars_unit: "1 \<le> k \<Longrightarrow> k \<le> 5 \<Longrightarrow> chars_count ('' '' @ UNITS ! (k - 1)) = 3"
proof -
  assume "1 \<le> k" "k \<le> 5"
  then consider "k = 1" | "k = 2" | "k = 3" | "k = 4" | "k = 5" by linarith
  then show ?thesis by cases (simp_all add: UNITS_def chars_count_ascii del: chars_count_simps)
qed

text \<open>A rendered count has at most eleven characters: the largest is \<open>16384.00 PB\<close>.\<close>

lemma format_bytes_width: "chars_count (format_bytes b) \<le> 11"
proof (cases "1024 \<le> unat b")
  case True
  then obtain h k where fb: "format_bytes b = show_hundredths h @ '' '' @ UNITS ! (k - 1)" "1 \<le> k" "k \<le> 5"
      "k < 5 \<longrightarrow> unat b < 1024 ^ Suc k" and h: "h = round_div (100 * as_f64 (unat b)) (1024 ^ k)"
    using format_bytes_parts by blast
  have n: "unat b < 2 ^ 64" using unsigned_less [of b, where 'a = nat] by simp
  have lt: "unat b < 16384 * 1024 ^ k"
  proof (cases "k < 5")
    case True
    then show ?thesis using fb(4) by (simp add: less_le_trans)
  next
    case False
    then have "k = 5" using fb(3) by simp
    then show ?thesis using n by simp
  qed
  have "as_f64 (unat b) \<le> unat b + 1024" by (rule as_f64_bounds [OF n])
  moreover have "(1024::nat) \<le> 1024 ^ k" using fb(2) by (simp add: self_le_power)
  ultimately have "100 * as_f64 (unat b) \<le> 1638500 * 1024 ^ k" using lt by linarith
  then have "round_div (100 * as_f64 (unat b)) (1024 ^ k) \<le> 1638501"
  proof -
    have "100 * as_f64 (unat b) div 1024 ^ k \<le> 1638500"
      using div_le_mono [OF \<open>100 * as_f64 (unat b) \<le> 1638500 * 1024 ^ k\<close>, of "1024 ^ k"] by simp
    then show ?thesis by (simp add: round_div_def Let_def)
  qed
  then have "h div 100 < 10 ^ 5" using h by simp
  then have "length (show_nat (h div 100)) \<le> 5" by (rule length_show_nat) simp
  then show ?thesis
    unfolding fb(1) chars_count_simps(3) [of "show_hundredths h"] chars_hundredths chars_unit [OF fb(2,3)] by simp
next
  case False
  then have "length (show_nat (unat b)) \<le> 4" by (intro length_show_nat) simp_all
  moreover have "chars_count '' B'' = 2" by (simp add: chars_count_ascii del: chars_count_simps)
  ultimately show ?thesis
    using False by (simp add: format_bytes_def word_less_nat_alt chars_show_nat del: chars_count_simps(1,2))
qed

lemma error_shift:
  fixes x y z u d :: int
  assumes "2 * \<bar>100 * x - y\<bar> \<le> u" and "\<bar>x - z\<bar> \<le> d"
  shows "2 * \<bar>100 * z - y\<bar> \<le> u + 200 * d"
proof -
  have "2 * (100 * x - y) \<le> u" "2 * (y - 100 * x) \<le> u" "x - z \<le> d" "z - x \<le> d"
    using assms by (simp_all add: abs_if split: if_splits)
  then show ?thesis by (simp add: abs_if)
qed

section \<open>Columns\<close>

lemma chars_space: "chars_count (replicate n (CHR '' '')) = n"
  by (simp add: chars_count_ascii del: chars_count_simps)

lemma chars_pad:
  "chars_count (pad_right w s) = max w (chars_count s)"
  "chars_count (pad_left w s) = max w (chars_count s)"
  by (simp_all add: pad_right_def pad_left_def chars_space)

lemma chars_ellipsis: "chars_count ellipsis = 1"
  by (simp add: ellipsis_def is_cont_def)

lemma chars_elide: "0 < mx \<Longrightarrow> chars_count (elide s mx) = min mx (chars_count s)"
  by (simp add: elide_def chars_count_take chars_ellipsis)

section \<open>Properties\<close>

text \<open>
  The totals of a report are the sums of its rows: as long as the true sums fit in
  64 bits the report is built without overflow, with checks and without, the \<open>all
  destinations\<close> totals are the sums over every endpoint, the \<open>matching filter\<close> totals
  the sums over the matching ones, and the latter never exceed the former.
\<close>

theorem report_totals:
  assumes "usum ingress_bytes es < 2 ^ 64" and "usum egress_bytes es < 2 ^ 64" and "usum conns es < 2 ^ 64"
  shows "\<exists>rep. new_report c cmd flt ms code es = Some rep \<and> rep_endpoints rep = es
    \<and> (let a = all_destinations (rep_totals rep); m = matching_filter (rep_totals rep);
           shown = filter matches_filter es in
       unat (t_ingress a) = usum ingress_bytes es \<and> unat (t_egress a) = usum egress_bytes es
       \<and> unat (t_connections a) = usum conns es
       \<and> unat (t_ingress m) = usum ingress_bytes shown \<and> unat (t_egress m) = usum egress_bytes shown
       \<and> unat (t_connections m) = usum conns shown
       \<and> t_ingress m \<le> t_ingress a \<and> t_egress m \<le> t_egress a \<and> t_connections m \<le> t_connections a)"
proof -
  let ?shown = "filter matches_filter es"
  obtain a where a: "totals_of c es = Some a" "unat (t_ingress a) = usum ingress_bytes es"
      "unat (t_egress a) = usum egress_bytes es" "unat (t_connections a) = usum conns es"
    using totals_of_exact [OF assms] by blast
  note le = usum_filter_le [of ingress_bytes matches_filter es]
    usum_filter_le [of egress_bytes matches_filter es] usum_filter_le [of conns matches_filter es]
  obtain m where m: "totals_of c ?shown = Some m" "unat (t_ingress m) = usum ingress_bytes ?shown"
      "unat (t_egress m) = usum egress_bytes ?shown" "unat (t_connections m) = usum conns ?shown"
    using totals_of_exact [of ?shown c] le assms by auto
  then show ?thesis
    using a le by (simp add: new_report_def word_le_nat_alt)
qed

theorem report_totals_witness:
  "\<exists>rep. new_report True ''curl'' None 10 0 (snapshot None two_hosts) = Some rep
    \<and> unat (t_ingress (all_destinations (rep_totals rep))) = 14"
proof -
  have snap: "snapshot None two_hosts =
      [\<lparr>domain = ''b.dev'', ip_address = Some (V4 1 2 3 4), ingress_bytes = 9, egress_bytes = 2, conns = 3, matches_filter = True\<rparr>,
       \<lparr>domain = ''1.2.3.4'', ip_address = None, ingress_bytes = 5, egress_bytes = 7, conns = 1, matches_filter = True\<rparr>]"
    by (simp add: snapshot_def hosts_def two_hosts_def cell_def view_of_def sort_by_def cmp_endpoint_def cmp_def
        matches_domain_def)
  show ?thesis
    using report_totals [of "snapshot None two_hosts" True "''curl''" None 10 0] by (auto simp: snap Let_def)
qed

text \<open>
  C36: Overflow of the totals: a build with overflow checks panics exactly when one of the
  three sums over all rows, as a number, leaves 64 bits, and otherwise builds the same
  report as a release build; a release build always builds one, in which the totals of
  all rows and of the matching rows are the sums modulo $2^{64}$.
\<close>

theorem report_overflow:
  "new_report True cmd flt ms code es =
      (if usum ingress_bytes es < 2 ^ 64 \<and> usum egress_bytes es < 2 ^ 64 \<and> usum conns es < 2 ^ 64
       then new_report False cmd flt ms code es else None)
    \<and> (\<exists>rep. new_report False cmd flt ms code es = Some rep \<and> rep_endpoints rep = es
        \<and> all_destinations (rep_totals rep) =
            \<lparr>t_ingress = sum_list (map ingress_bytes es), t_egress = sum_list (map egress_bytes es),
             t_connections = sum_list (map conns es)\<rparr>
        \<and> matching_filter (rep_totals rep) =
            (let shown = filter matches_filter es in
             \<lparr>t_ingress = sum_list (map ingress_bytes shown), t_egress = sum_list (map egress_bytes shown),
              t_connections = sum_list (map conns shown)\<rparr>))"
proof (rule conjI)
  have checked: "totals_of True xs = (if sums_fit default_totals xs then totals_of False xs else None)" for xs
    by (simp add: totals_of_def totals_from_checked)
  have fit: "sums_fit default_totals xs \<longleftrightarrow>
      usum ingress_bytes xs < 2 ^ 64 \<and> usum egress_bytes xs < 2 ^ 64 \<and> usum conns xs < 2 ^ 64" for xs
    by (simp add: sums_fit_def default_totals_def)
  have sub: "sums_fit default_totals (filter matches_filter es)" if "sums_fit default_totals es"
    using that usum_filter_le [of ingress_bytes matches_filter es]
      usum_filter_le [of egress_bytes matches_filter es] usum_filter_le [of conns matches_filter es]
    by (auto simp: fit)
  show "new_report True cmd flt ms code es =
      (if usum ingress_bytes es < 2 ^ 64 \<and> usum egress_bytes es < 2 ^ 64 \<and> usum conns es < 2 ^ 64
       then new_report False cmd flt ms code es else None)"
    unfolding fit [symmetric] using sub by (auto simp: new_report_def checked bind_eq_None_conv)
qed (simp add: new_report_def totals_of_def totals_from_wraps default_totals_def Let_def)

text \<open>
  C35: A rendered byte count of a kilobyte or more is accurate: its unit is the largest
  one that does not exceed the count (the largest unit being PB), and its two decimals
  are within half a hundredth of the exact value in that unit; from $2^{53}$ bytes on,
  where the count no longer fits a float, at most 1024 bytes are added to that error.
\<close>

theorem format_bytes_accuracy:
  assumes "1024 \<le> b"
  shows "\<exists>h k. format_bytes b = show_hundredths h @ '' '' @ UNITS ! (k - 1) \<and> 1 \<le> k \<and> k \<le> 5
    \<and> 1024 ^ k \<le> unat b \<and> (k < 5 \<longrightarrow> unat b < 1024 ^ Suc k)
    \<and> 2 * \<bar>100 * uint b - int h * 1024 ^ k\<bar> \<le> 1024 ^ k + 200 * (if unat b < 2 ^ 53 then 0 else 1024)"
proof -
  have b: "1024 \<le> unat b" using assms by (simp add: word_le_nat_alt)
  obtain h k where hk: "format_bytes b = show_hundredths h @ '' '' @ UNITS ! (k - 1)" "1 \<le> k" "k \<le> 5"
    "1024 ^ k \<le> unat b" "k < 5 \<longrightarrow> unat b < 1024 ^ Suc k" "h = round_div (100 * as_f64 (unat b)) (1024 ^ k)"
    using format_bytes_parts [OF b] by blast
  have n: "unat b < 2 ^ 64" using unsigned_less [of b, where 'a = nat] by simp
  have "2 * \<bar>100 * int (as_f64 (unat b)) - int h * 1024 ^ k\<bar> \<le> 1024 ^ k"
    using round_div_error [of "1024 ^ k" "100 * as_f64 (unat b)"] hk(6) by simp
  moreover have "\<bar>int (as_f64 (unat b)) - uint b\<bar> \<le> (if unat b < 2 ^ 53 then 0 else 1024)"
    using as_f64_u64 [OF n] by simp
  ultimately have "2 * \<bar>100 * uint b - int h * 1024 ^ k\<bar> \<le> 1024 ^ k + 200 * (if unat b < 2 ^ 53 then 0 else 1024)"
    by (rule error_shift)
  then show ?thesis using hk by blast
qed

theorem format_bytes_accuracy_witness:
  "\<exists>h k. format_bytes 4311 = show_hundredths h @ '' '' @ UNITS ! (k - 1)
    \<and> 2 * \<bar>100 * 4311 - int h * 1024 ^ k\<bar> \<le> 1024 ^ k"
  using format_bytes_accuracy [of 4311] by auto

text \<open>
  The table keeps its columns: whatever the host name and the counts, a row is 73
  characters wide as long as the connection count has at most eight digits; the name
  column holds the host name or a cut of it and ends in a space, and no byte count
  reaches its neighbour.
\<close>

theorem endpoint_row_width:
  assumes "unat (conns e) < 10 ^ 8"
  shows "chars_count (endpoint_row e) = 73
    \<and> chars_count (elide (domain e) (DOMAIN_COL - 1)) < DOMAIN_COL
    \<and> chars_count (format_bytes (ingress_bytes e)) < 14 \<and> chars_count (format_bytes (egress_bytes e)) < 17"
proof -
  have "length (show_nat (unat (conns e))) \<le> 8" using assms by (rule length_show_nat) simp
  moreover have "chars_count (elide (domain e) 33) \<le> 33" by (simp add: chars_elide)
  ultimately show ?thesis
    using format_bytes_width [of "ingress_bytes e"] format_bytes_width [of "egress_bytes e"]
    by (simp add: endpoint_row_def table_row_def DOMAIN_COL_def chars_pad chars_show_nat max_def)
qed

theorem endpoint_row_width_witness:
  "chars_count (endpoint_row \<lparr>domain = replicate 60 (CHR ''a''), ip_address = None, ingress_bytes = 4311,
    egress_bytes = 12, conns = 3, matches_filter = True\<rparr>) = 73"
  using endpoint_row_width [of "\<lparr>domain = replicate 60 (CHR ''a''), ip_address = None, ingress_bytes = 4311,
    egress_bytes = 12, conns = 3, matches_filter = True\<rparr>"] by simp

end
