(* ===== verification/Main_Run.thy ===== *)
theory Main_Run
  imports Naming Report Proxy
begin

text \<open>
  The command line program (\<open>src/main.rs\<close>): draining, the exit code and the run
  from the child's start to the printed summary. The child process, the clock, what the
  connections of the child do to the registry over time, the system resolver and the
  JSON encoder are arguments.
\<close>

section \<open>Draining\<close>

text \<open>Times are in milliseconds.\<close>

definition DRAIN_TIMEOUT :: nat where "DRAIN_TIMEOUT = 2000"
definition DRAIN_POLL :: nat where "DRAIN_POLL = 10"

text \<open>
  \<open>in_flight t\<close> is the number of open connections at time \<open>t\<close>; a sleep that starts at
  \<open>t\<close> takes \<open>late t\<close> longer than asked for. The result is the time of return.
\<close>

function drain_loop :: "(nat \<Rightarrow> u64) \<Rightarrow> (nat \<Rightarrow> nat) \<Rightarrow> nat \<Rightarrow> nat \<Rightarrow> nat" where
  "drain_loop in_flight late deadline now =
     (if 0 < in_flight now \<and> now < deadline
      then drain_loop in_flight late deadline (now + DRAIN_POLL + late now)
      else now)"
  by auto
termination
  by (relation "measure (\<lambda>(_, _, deadline, now). deadline - now)") (auto simp: DRAIN_POLL_def)

declare drain_loop.simps [simp del]

definition drain :: "(nat \<Rightarrow> u64) \<Rightarrow> (nat \<Rightarrow> nat) \<Rightarrow> nat \<Rightarrow> nat" where
  "drain in_flight late now = drain_loop in_flight late (now + DRAIN_TIMEOUT) now"

section \<open>Exit codes\<close>

text \<open>\<open>ExitStatus\<close>: an exit with a code, a death by signal, or neither.\<close>

datatype exit_status = Exited i32 | Signaled i32 | NoStatus

fun exit_code :: "exit_status \<Rightarrow> i32" where
  "exit_code (Exited code) = code"
| "exit_code (Signaled signal) = 128 + signal"
| "exit_code NoStatus = 1"

definition process_code :: "i32 \<Rightarrow> u8" where
  "process_code code = (if 0 \<le> sint code \<and> sint code < 256 then ucast code else 1)"

section \<open>The run\<close>

record cli =
  domain_prefix :: "string option"
  verbose_flag :: bool
  json_flag :: bool
  command_args :: "bytes list"

text \<open>
  What the run gets from outside. \<open>env_spawn\<close> is given the program, its arguments and the
  variables set for it. \<open>env_reg t\<close> is the registry as the connection tasks have left it at
  time \<open>t\<close>; after draining they are taken to add nothing more.
\<close>

record run_env =
  env_bind :: "(io_error, socket_addr) result"
  env_spawn :: "bytes \<Rightarrow> bytes list \<Rightarrow> (string \<times> string) list \<Rightarrow> (io_error, unit) result"
  env_started :: nat
  env_wait :: "(io_error, nat \<times> exit_status) result"
  env_reg :: "nat \<Rightarrow> registry"
  env_late :: "nat \<Rightarrow> nat"
  env_lookup :: "lookup option"
  env_joined :: "string \<Rightarrow> bool"
  env_json :: "report \<Rightarrow> (any_error, string) result"
  env_show :: "io_error \<Rightarrow> string"

definition child_env :: "socket_addr \<Rightarrow> (string \<times> string) list" where
  "child_env addr =
     map (\<lambda>k. (k, http_url addr)) [''HTTP_PROXY'', ''HTTPS_PROXY'', ''http_proxy'', ''https_proxy'']
     @ map (\<lambda>k. (k, socks_url addr)) [''ALL_PROXY'', ''all_proxy'']"

definition drained :: "run_env \<Rightarrow> nat \<Rightarrow> registry" where
  "drained env now = env_reg env (drain (\<lambda>t. open_connections (env_reg env t)) (env_late env) now)"

text \<open>
  The end of the run, from the registry to the printed summary and the exit code.
  \<open>None\<close> is the overflow panic of the totals.
\<close>

definition summarize ::
  "bool \<Rightarrow> run_env \<Rightarrow> cli \<Rightarrow> nat \<Rightarrow> exit_status \<Rightarrow> registry \<Rightarrow> (any_error, u8 \<times> string) result option" where
  "summarize overflow_checks env c elapsed status r =
     (let code = exit_code status
      in case new_report overflow_checks (join '' '' (map from_utf8_lossy (command_args c))) (domain_prefix c)
                elapsed code (snapshot (domain_prefix c) r) of
           None \<Rightarrow> None
         | Some rep \<Rightarrow>
             Some (if json_flag c
                   then (case env_json env rep of
                           Inl e \<Rightarrow> Err e
                         | Inr txt \<Rightarrow> Ok (process_code code, writeln txt))
                   else Ok (process_code code, to_text rep)))"

text \<open>
  The run: what went to stderr, and the result, which is the exit code and what went to
  stdout. \<open>None\<close> is a panic.
\<close>

definition run :: "bool \<Rightarrow> run_env \<Rightarrow> cli \<Rightarrow> (string list \<times> (any_error, u8 \<times> string) result) option" where
  "run overflow_checks env c =
     (case env_bind env of
        Inl e \<Rightarrow> Some ([], Err (AnyIo e))
      | Inr addr \<Rightarrow>
          (let notes = (if verbose_flag c
                        then [''[wiretally] proxy listening on '' @ http_url addr @ '' (socks5 on the same port)'']
                        else [])
           in case command_args c of
                [] \<Rightarrow> None
              | program # args \<Rightarrow>
                  (case env_spawn env program args (child_env addr) of
                     Inl e \<Rightarrow> Some (notes, Err (AnyMsg (''failed to run `'' @ from_utf8_lossy program @ ''`: '' @ env_show env e)))
                   | Inr _ \<Rightarrow>
                       (case env_wait env of
                          Inl e \<Rightarrow> Some (notes, Err (AnyIo e))
                        | Inr (now, status) \<Rightarrow>
                            map_option (Pair notes)
                              (summarize overflow_checks env c (now - env_started env) status
                                 (resolve_ip_only_endpoints (env_lookup env) (env_joined env) (drained env now)))))))"

text \<open>
  \<open>main\<close>: an error of the run is printed to stderr and gives the failure code; the text
  of an error comes from \<open>anyhow\<close> and is an argument. The parts are the exit code, stdout
  and stderr.
\<close>

definition main_exit :: "(any_error \<Rightarrow> string) \<Rightarrow> string list \<times> (any_error, u8 \<times> string) result \<Rightarrow> u8 \<times> string \<times> string list" where
  "main_exit show_any = (\<lambda>(notes, res).
     case res of
       Inr (code, txt) \<Rightarrow> (code, txt, notes)
     | Inl err \<Rightarrow> (1, [], notes @ [''wiretally: '' @ show_any err]))"

section \<open>Conservation\<close>

lemma fold_rename_keeps:
  "registry_ok r \<Longrightarrow> registry_ok (fold (\<lambda>(a, b). rename a b) ns r)
    \<and> (additive f \<longrightarrow> total f (fold (\<lambda>(a, b). rename a b) ns r) = total f r)"
  by (induction ns arbitrary: r) (auto simp: registry_ok_rename total_rename)

lemma snapshot_sum:
  assumes "\<And>k s. g (view_of flt k s) = f s"
  shows "sum_list (map g (snapshot flt r)) = total f r"
proof -
  have "sum_list (map g (snapshot flt r)) = sum_mset (image_mset g (mset (snapshot flt r)))"
    by (simp flip: sum_mset_sum_list)
  also have "\<dots> = sum_list (map g (map (\<lambda>(k, h). view_of flt k (cell r h)) (endpoints r)))"
    by (simp only: snapshot_mset) (simp flip: sum_mset_sum_list mset_map)
  also have "\<dots> = total f r"
    by (simp add: total_def comp_def case_prod_unfold assms)
  finally show ?thesis .
qed

lemma totals_of_snapshot:
  "totals_of False (snapshot flt r) =
     Some \<lparr>t_ingress = total ingress r, t_egress = total egress r, t_connections = total connections r\<rparr>"
  by (simp add: totals_of_def totals_from_wraps default_totals_def snapshot_sum [of _ _ ingress]
      snapshot_sum [of _ _ egress] snapshot_sum [of _ _ connections] view_of_def)

text \<open>A run that gets as far as draining comes to a report with the totals of the drained registry.\<close>

lemma run_report:
  assumes "env_bind env = Ok addr" and "command_args c = program # args"
    and "env_spawn env program args (child_env addr) = Ok ()" and "env_wait env = Ok (now, status)"
    and "\<not> json_flag c" and "registry_ok (drained env now)"
  shows "\<exists>notes rep. run False env c = Some (notes, Ok (process_code (exit_code status), to_text rep))
    \<and> all_destinations (rep_totals rep) =
        \<lparr>t_ingress = total ingress (drained env now), t_egress = total egress (drained env now),
         t_connections = total connections (drained env now)\<rparr>"
proof -
  let ?r = "resolve_ip_only_endpoints (env_lookup env) (env_joined env) (drained env now)"
  have "total f ?r = total f (drained env now)" if "additive f" for f
    using fold_rename_keeps assms(6) that by (simp add: resolve_renames)
  then have all: "totals_of False (snapshot (domain_prefix c) ?r) =
      Some \<lparr>t_ingress = total ingress (drained env now), t_egress = total egress (drained env now),
            t_connections = total connections (drained env now)\<rparr>"
    by (simp add: totals_of_snapshot additive_counters)
  then obtain rep where rep: "new_report False (join '' '' (map from_utf8_lossy (command_args c))) (domain_prefix c)
      (now - env_started env) (exit_code status) (snapshot (domain_prefix c) ?r) = Some rep"
    and tot: "all_destinations (rep_totals rep) =
        \<lparr>t_ingress = total ingress (drained env now), t_egress = total egress (drained env now),
         t_connections = total connections (drained env now)\<rparr>"
    by (auto simp: new_report_def totals_of_def totals_from_wraps)
  then have "\<exists>notes. run False env c = Some (notes, Ok (process_code (exit_code status), to_text rep))"
    using assms(1-5) by (simp add: run_def summarize_def Let_def)
  then show ?thesis using tot by blast
qed

section \<open>Small codes\<close>

lemma small_sint: "uint w < 2 ^ 31 \<Longrightarrow> sint w = uint w" for w :: i32
proof -
  assume lt: "uint w < 2 ^ 31"
  have "0 \<le> uint w" by simp
  then have "- (2 ^ 31) \<le> uint w" by (rule order_trans [rotated]) simp
  from signed_take_bit_int_eq_self [OF this lt] show ?thesis by (simp add: sint_uint)
qed

lemma nonneg_sint: "0 \<le> sint w \<Longrightarrow> sint w < 256 \<Longrightarrow> uint w = sint w" for w :: i32
  by (simp add: uint_sint take_bit_int_eq_self)

lemma process_code_zero: "process_code code = 0 \<longleftrightarrow> code = 0"
proof
  assume z: "process_code code = 0"
  then have range: "0 \<le> sint code" "sint code < 256" and "ucast code = (0 :: u8)"
    by (auto simp: process_code_def split: if_splits)
  from this(3) have "uint (ucast code :: u8) = 0" by simp
  then have "uint code = 0"
    using nonneg_sint [OF range] range by (simp add: unsigned_ucast_eq take_bit_int_eq_self)
  then show "code = 0" by (simp add: word_uint_eq_iff)
qed (simp add: process_code_def)

section \<open>The drain loop\<close>

lemma drain_loop_step:
  "0 < in_flight n \<and> n < d \<Longrightarrow> drain_loop in_flight late d n = drain_loop in_flight late d (n + DRAIN_POLL + late n)"
  "\<not> (0 < in_flight n \<and> n < d) \<Longrightarrow> drain_loop in_flight late d n = n"
  by (subst drain_loop.simps; auto)+

lemma drain_loop_ends:
  "n \<le> drain_loop in_flight late d n
    \<and> (in_flight (drain_loop in_flight late d n) = 0 \<or> d \<le> drain_loop in_flight late d n)"
proof (induction in_flight late d n rule: drain_loop.induct)
  case (1 in_flight late d n)
  show ?case
  proof (cases "0 < in_flight n \<and> n < d")
    case True
    then show ?thesis using 1 [OF True] by (auto simp: drain_loop_step(1) [of in_flight n d late, OF True])
  qed (auto simp: drain_loop_step(2) word_gt_0)
qed

lemma drain_loop_last_sleep:
  "drain_loop in_flight late d n = n \<or> (\<exists>t0 \<ge> n. t0 < d \<and> 0 < in_flight t0
     \<and> drain_loop in_flight late d n = t0 + DRAIN_POLL + late t0)"
proof (induction in_flight late d n rule: drain_loop.induct)
  case (1 in_flight late d n)
  show ?case
  proof (cases "0 < in_flight n \<and> n < d")
    case True
    let ?n = "n + DRAIN_POLL + late n"
    note step = drain_loop_step(1) [of in_flight n d late, OF True]
    have "\<exists>t0 \<ge> n. t0 < d \<and> 0 < in_flight t0 \<and> drain_loop in_flight late d ?n = t0 + DRAIN_POLL + late t0"
    proof (cases "drain_loop in_flight late d ?n = ?n")
      case False
      with 1 [OF True] obtain t0 where "?n \<le> t0" "t0 < d" "0 < in_flight t0"
          "drain_loop in_flight late d ?n = t0 + DRAIN_POLL + late t0" by blast
      then show ?thesis by (intro exI [of _ t0]) simp
    qed (use True in \<open>auto intro: exI [of _ n]\<close>)
    then show ?thesis unfolding step by (rule disjI2)
  qed (simp add: drain_loop_step(2))
qed

section \<open>Properties\<close>


definition demo_env :: run_env where
  "demo_env = \<lparr>env_bind = Ok \<lparr>sa_ip = V4 127 0 0 1, sa_port = 9\<rparr>, env_spawn = (\<lambda>_ _ _. Ok ()), env_started = 0,
     env_wait = Ok (25, Signaled 9), env_reg = (\<lambda>_. two_hosts), env_late = (\<lambda>_. 0),
     env_lookup = Some (\<lambda>_. Some [PTR ''b.dev'']), env_joined = (\<lambda>_. True), env_json = (\<lambda>_. Ok []), env_show = (\<lambda>_. [])\<rparr>"

definition demo_cli :: cli where
  "demo_cli = \<lparr>domain_prefix = Some ''dev'', verbose_flag = False, json_flag = False, command_args = [[108, 115]]\<rparr>"


text \<open>
  C37: Draining ends: it returns when no connection is in flight or once the timeout has
  passed, and it does not return earlier. The last sleep is the only delay past the
  deadline.
\<close>

theorem drain_returns:
  assumes "t = drain in_flight late now"
  shows "now \<le> t \<and> (in_flight t = 0 \<or> now + DRAIN_TIMEOUT \<le> t)
    \<and> (t = now \<or> (\<exists>t0. now \<le> t0 \<and> t0 < now + DRAIN_TIMEOUT \<and> 0 < in_flight t0 \<and> t = t0 + DRAIN_POLL + late t0))"
  using drain_loop_ends [of now in_flight late "now + DRAIN_TIMEOUT"]
    drain_loop_last_sleep [of in_flight late "now + DRAIN_TIMEOUT" now]
  by (auto simp: assms drain_def)

theorem drain_returns_witness:
  "drain (\<lambda>t. if t < 25 then 1 else 0) (\<lambda>_. 0) 0 \<le> 2000 + DRAIN_POLL"
proof -
  let ?t = "drain (\<lambda>t. if t < 25 then 1 else 0) (\<lambda>_. 0) 0"
  from drain_returns [of ?t "\<lambda>t. if t < 25 then 1 else 0" "\<lambda>_. 0" 0] show ?thesis
    by (auto simp: DRAIN_TIMEOUT_def)
qed

text \<open>
  C40: The program exits like its child: an exit code between 0 and 255 is passed on, a
  death by signal \<open>s\<close> gives \<open>128 + s\<close>, and a code that does not fit a byte gives 1, never
  a false success.
\<close>

theorem exit_code_passed_on:
  "process_code (exit_code (Exited c)) = (if 0 \<le> sint c \<and> sint c < 256 then ucast c else 1)
    \<and> (0 < s \<and> s < 128 \<longrightarrow> uint (process_code (exit_code (Signaled s))) = 128 + uint s)
    \<and> (process_code (exit_code st) = 0 \<longleftrightarrow> exit_code st = 0)"
proof (intro conjI impI)
  show "process_code (exit_code (Exited c)) = (if 0 \<le> sint c \<and> sint c < 256 then ucast c else 1)"
    by (simp add: process_code_def)
next
  assume "0 < s \<and> s < 128"
  then have "uint s < 128" by (simp add: word_less_def)
  then have "uint (128 + s) = 128 + uint s" by (simp add: uint_word_ariths)
  then show "uint (process_code (exit_code (Signaled s))) = 128 + uint s"
    using \<open>uint s < 128\<close> small_sint [of "128 + s"]
    by (simp add: process_code_def unsigned_ucast_eq take_bit_int_eq_self)
next
  show "process_code (exit_code st) = 0 \<longleftrightarrow> exit_code st = 0"
    by (rule process_code_zero)
qed

theorem exit_code_passed_on_witness: "uint (process_code (exit_code (Signaled 9))) = 137"
  using exit_code_passed_on [of 0 9 NoStatus] by simp

end
