(* ===== verification/Session.thy ===== *)
theory Session
  imports Proxy
begin

text \<open>
  Whole client sessions: the contract of a client connection seen through both of its
  interfaces, tokio's calls during the handshake and its poll functions during the
  tunnel, and the two tunnel protocols from the first byte to the books.
\<close>

section \<open>The contract of a client connection\<close>

text \<open>
  Both interfaces take their bytes from the same stream, and there is no transport
  error before the tunnel.
\<close>

locale client_conn =
  healthy: healthy_stream tcp incoming outgoing + tcp: tcp_stream tcp incoming outgoing +
  polls: async_read ops incoming "\<lambda>_. True"
  for tcp :: "('s, 'x) tcp_ops_scheme" and ops :: "'s stream_ops"
    and incoming :: "'s \<Rightarrow> bytes" and outgoing :: "'s \<Rightarrow> bytes" +
  assumes nodelay_ready: "set_nodelay tcp s = Ok ()"
    and peek_ready: "\<not> isl (snd (peek tcp s))"
    and recv_ready: "\<not> isl (snd (recv tcp s n))"
begin

lemma peek_first:
  obtains s' where "peek tcp s = (s', Ok (take 1 (incoming s)))" "incoming s' = incoming s" "outgoing s' = outgoing s"
proof -
  obtain s' bs where "peek tcp s = (s', Ok bs)"
    using peek_ready [of s] by (cases "peek tcp s"; cases "snd (peek tcp s)") auto
  then show thesis using that tcp.peek_ok by blast
qed

lemma write_done:
  obtains s' where "write_all tcp s bs = (s', Ok ())" "incoming s' = incoming s" "outgoing s' = outgoing s @ bs"
proof -
  obtain s' u where w: "write_all tcp s bs = (s', Ok u)"
    using healthy.write_ready [of s bs] by (cases "write_all tcp s bs"; cases "snd (write_all tcp s bs)") auto
  then show thesis using that healthy.write_ok [OF w] by simp
qed

lemma tunnel_started:
  obtains s' where "hs_accept tcp hs s = (s', Ok ())" "incoming s' = incoming s"
    "outgoing s' = outgoing s @ (case hs of
        Hs_Http \<Rightarrow> str_bytes ''HTTP/1.1 200 Connection Established'' @ CRLF @ CRLF
      | Hs_Socks \<Rightarrow> [VERSION, REP_SUCCESS, 0, ATYP_IPV4, 0, 0, 0, 0, 0, 0])"
proof -
  let ?msg = "case hs of
        Hs_Http \<Rightarrow> str_bytes ''HTTP/1.1 200 Connection Established'' @ CRLF @ CRLF
      | Hs_Socks \<Rightarrow> [VERSION, REP_SUCCESS, 0, ATYP_IPV4, 0, 0, 0, 0, 0, 0]"
  have "hs_accept tcp hs s = write_all tcp s ?msg" by (cases hs) (simp_all add: hs_accept_def reply_def)
  then show thesis using that write_done [of s ?msg] by metis
qed

text \<open>A tunnel over a client connection, from the answer of the handshake on.\<close>

lemma tunnel_session:
  assumes "registry_ok (w_reg w)" and "connect host port = Ok up" and "up_nodelay up = Ok ()"
  shows "\<exists>w' s rw os. connect_and_splice tcp ops connect verbose host port leftover hs w =
        (w', (case up_copy up of Inl e \<Rightarrow> Err (AnyIo e) | Inr _ \<Rightarrow> Ok ()))
    \<and> outgoing s = outgoing (client w) @ (case hs of
        Hs_Http \<Rightarrow> str_bytes ''HTTP/1.1 200 Connection Established'' @ CRLF @ CRLF
      | Hs_Socks \<Rightarrow> [VERSION, REP_SUCCESS, 0, ATYP_IPV4, 0, 0, 0, 0, 0, 0])
    \<and> run_polls (rewind_ops ops) (up_polls up) (new_rewind leftover s) = (rw, os)
    \<and> leftover @ incoming (client w) = all_read os @ rewind_pending incoming rw
    \<and> row (w_reg w') = (row (w_reg w))(host \<mapsto>
        tunnelled (up_peer up) (length (all_read os)) (all_written os) (row_or_new (w_reg w) host))"
proof -
  obtain s where s: "hs_accept tcp hs (client w) = (s, Ok ())" "incoming s = incoming (client w)"
    "outgoing s = outgoing (client w) @ (case hs of
        Hs_Http \<Rightarrow> str_bytes ''HTTP/1.1 200 Connection Established'' @ CRLF @ CRLF
      | Hs_Socks \<Rightarrow> [VERSION, REP_SUCCESS, 0, ATYP_IPV4, 0, 0, 0, 0, 0, 0])"
    by (rule tunnel_started)
  obtain rw os where run: "run_polls (rewind_ops ops) (up_polls up) (new_rewind leftover s) = (rw, os)" by fastforce
  have "leftover @ incoming (client w) = all_read os @ rewind_pending incoming rw"
    using polls.rewound_run(1) [OF TrueI run] s(2) by simp
  moreover obtain r out where "connect_and_splice tcp ops connect verbose host port leftover hs w =
      (w\<lparr>client := rw_inner rw, w_reg := r, w_log := out\<rparr>, (case up_copy up of Inl e \<Rightarrow> Err (AnyIo e) | Inr _ \<Rightarrow> Ok ()))"
    "row r = (row (w_reg w))(host \<mapsto>
        tunnelled (up_peer up) (length (all_read os)) (all_written os) (row_or_new (w_reg w) host))"
    using connect_and_splice_run [where connect = connect and host = host and port = port and verbose = verbose,
        OF assms s(1) run] by blast
  ultimately show ?thesis using s(3) run by (intro exI conjI) (assumption | simp)+
qed

text \<open>The HTTP paths, from the first byte to the dispatch on the method.\<close>

lemma http_dispatch:
  assumes "incoming (client w) = head @ rest" and "find_head_end head = Some (length head)"
    and "length head \<le> MAX_HEAD_BYTES" and "hd head \<noteq> GREETING_BYTE" and "request_line head = Some (mth, tgt)"
  shows "\<exists>s leftover. outgoing s = outgoing (client w) \<and> leftover @ incoming s = rest
    \<and> handle_connection tcp ops connect as show_err serve verbose w =
      (if eq_ignore_ascii_case mth ''CONNECT''
       then (case split_authority tgt 443 of (host, port) \<Rightarrow>
               Some (connect_and_splice tcp ops connect verbose host port leftover Hs_Http (w\<lparr>client := s\<rparr>)))
       else serve (new_rewind (head @ leftover) s) (w\<lparr>client := s\<rparr>))"
proof -
  have ne: "head \<noteq> []" using assms(2) by (auto simp: find_head_end_def)
  obtain s1 where s1: "peek tcp (client w) = (s1, Ok (take 1 (incoming (client w))))"
      "incoming s1 = incoming (client w)" "outgoing s1 = outgoing (client w)"
    by (rule peek_first)
  have first: "take 1 (incoming (client w)) = [hd head]" using ne by (cases head) (simp_all add: assms(1))
  have "take MAX_HEAD_BYTES (incoming s1) = head @ take (MAX_HEAD_BYTES - length head) rest"
    using assms(3) by (simp add: s1(2) assms(1))
  then have "find_head_end (take MAX_HEAD_BYTES (incoming s1)) = Some (length head)"
    using find_head_end_append [OF assms(2)] by simp
  from tcp.read_head_finds [OF recv_ready this]
  obtain s2 buf where s2: "read_head tcp s1 = (s2, Ok buf)" "find_head_end buf = Some (length head)"
      "incoming s1 = buf @ incoming s2" "outgoing s2 = outgoing s1" by blast
  have "length head \<le> length buf" using s2(2) by (rule find_head_end_le)
  then have buf: "buf = head @ head_body buf"
    using s2(2,3) s1(2) assms(1) by (metis append_eq_append_conv_if append_take_drop_id head_split)
  then have "request_line buf = Some (mth, tgt)" using request_line_append [OF assms(5)] by metis
  then have "handle_connection tcp ops connect as show_err serve verbose w =
      (if eq_ignore_ascii_case mth ''CONNECT''
       then (case split_authority tgt 443 of (host, port) \<Rightarrow>
               Some (connect_and_splice tcp ops connect verbose host port (head_body buf) Hs_Http (w\<lparr>client := s2\<rparr>)))
       else serve (new_rewind buf s2) (w\<lparr>client := s2\<rparr>))"
    using s1(1) [unfolded first] s2(1) nodelay_ready assms(4) by (simp add: handle_connection_def)
  moreover have "head_body buf @ incoming s2 = rest"
    using s2(3) s1(2) assms(1) buf by (metis append.assoc same_append_eq)
  moreover have "outgoing s2 = outgoing (client w)" using s2(4) s1(3) by simp
  ultimately show ?thesis using buf by metis
qed

text \<open>A UDP association, from the answer of the handshake to the end of its control connection.\<close>

lemma control_drained: "\<exists>s'. drain_control tcp s = Some s' \<and> incoming s' = [] \<and> outgoing s' = outgoing s"
proof (induction "length (incoming s)" arbitrary: s rule: less_induct)
  case less
  obtain s1 bs where rv: "recv tcp s 64 = (s1, Ok bs)"
    using recv_ready [of s 64] by (cases "recv tcp s 64"; cases "snd (recv tcp s 64)") auto
  note rd = tcp.recv_ok [OF rv]
  show ?case
  proof (cases "bs = []")
    case True
    then have "drain_control tcp s = Some s1" using rv by (subst drain_control.simps) simp
    then show ?thesis using rd tcp.recv_eof [of s 64 s1] rv True by auto
  next
    case False
    then have "length (incoming s1) < length (incoming s)" using rd by simp
    moreover have "drain_control tcp s = drain_control tcp s1" using rv False by (subst drain_control.simps) simp
    ultimately show ?thesis using less [of s1] rd by auto
  qed
qed

lemma udp_session:
  assumes "registry_ok (w_reg w)"
    and "as_client_side as = Ok ()" and "as_upstream as = Ok ()" and "as_local_addr as = Ok bound"
  shows "\<exists>w' rec l r rw. relay_udp tcp as verbose w = Some (w', Ok ())
    \<and> incoming (client w') = [] \<and> outgoing (client w') = outgoing (client w) @ rec
    \<and> take 2 rec = [VERSION, REP_SUCCESS]
    \<and> parse_datagram rec = Ok \<lparr>dg_host = show_ip (sa_ip bound), dg_port = sa_port bound, payload = []\<rparr>
    \<and> rw = run_relay (as_events as) (new_world (new_relay l) r) \<and> w_reg w' = rg rw
    \<and> row (rg rw) = expected_row (w_reg w) (map_of (r_endpoints (rl rw))) (wire rw)
    \<and> (\<forall>p \<in> set (wire rw). justified (as_events as) p)"
proof -
  let ?rec = "datagram_bytes VERSION REP_SUCCESS (Ip (sa_ip bound)) (sa_port bound) []"
  obtain r l where l: "shared_conn_log verbose ''udp'' (w_reg w) = (r, l)" by fastforce
  then have r: "registry_ok r" "row r = row (w_reg w)"
    using shared_conn_log_keeps(1,2) [of verbose "''udp''" "w_reg w"] assms(1) by simp_all
  have wr: "reply_bound tcp s REP_SUCCESS bound = write_all tcp s ?rec" for s
    by (simp add: reply_bound_def addr_field_bytes datagram_bytes_def)
  obtain s1 where s1: "write_all tcp (client w) ?rec = (s1, Ok ())" "outgoing s1 = outgoing (client w) @ ?rec"
    using write_done by metis
  obtain s2 where s2: "drain_control tcp s1 = Some s2" "incoming s2 = []" "outgoing s2 = outgoing s1"
    using control_drained by blast
  define rw where "rw = run_relay (as_events as) (new_world (new_relay l) r)"
  have same: "expected_row r known ps = expected_row (w_reg w) known ps" for known ps
    by (intro ext) (simp add: expected_row_def r(2) split: option.split)
  have "relay_inv r rw" unfolding rw_def by (intro relay_inv_run relay_inv_new r(1))
  then have "row (rg rw) = expected_row (w_reg w) (map_of (r_endpoints (rl rw))) (wire rw)"
    by (simp add: relay_inv_def same)
  moreover have "\<forall>p \<in> set (wire rw). justified (as_events as) p"
    using run_relay_wire [of "as_events as" "new_world (new_relay l) r"] by (auto simp: rw_def new_world_def)
  moreover obtain w' where "relay_udp tcp as verbose w = Some (w', Ok ())" "client w' = s2" "w_reg w' = rg rw"
    using l assms(2-4) wr s1(1) s2(1) by (simp add: relay_udp_def bind_relay_def Let_def rw_def)
  moreover have "take 2 ?rec = [VERSION, REP_SUCCESS]" by (simp add: datagram_bytes_def)
  moreover have "parse_datagram ?rec = Ok \<lparr>dg_host = show_ip (sa_ip bound), dg_port = sa_port bound, payload = []\<rparr>"
    using parse_datagram_complete [of "Ip (sa_ip bound)" VERSION REP_SUCCESS "sa_port bound" "[]"] by simp
  ultimately show ?thesis using s2 s1(2) rw_def by auto
qed

end

text \<open>The in-memory connection is such a connection.\<close>

interpretation mem_conn: client_conn mem_tcp cursor_ops fst snd
  by unfold_locales (auto simp: mem_tcp_def mem_ops_def split: if_splits)

end
