(* ===== verification/Rust_Text.thy ===== *)
theory Rust_Text
  imports Rust_Net
begin

text \<open>
  The type invariant of Rust's \<open>str\<close> and \<open>String\<close>: the bytes are well-formed UTF-8. The
  model keeps a Rust string as the list of its bytes, so that what the type system of
  Rust guarantees is a theorem here: each string operation that the sources use keeps
  the invariant, and none cuts through a character.
\<close>

definition text_ok :: "string \<Rightarrow> bool" where
  "text_ok s \<longleftrightarrow> utf8_valid (str_bytes s)"

section \<open>Bytes\<close>

lemma is_cont_range: "is_cont b \<longleftrightarrow> 0x80 \<le> b \<and> b < 0xC0"
proof -
  have b: "unat b < 256" using unsigned_less [of b, where 'a = nat] by simp
  have "is_cont b \<longleftrightarrow> bit b 7 \<and> \<not> bit b 6"
  proof
    assume "is_cont b"
    then have "bit (b AND 192) n = bit (128 :: u8) n" for n by (simp add: is_cont_def)
    from this [of 7] this [of 6] show "bit b 7 \<and> \<not> bit b 6" by (simp add: bit_simps)
  next
    assume *: "bit b 7 \<and> \<not> bit b 6"
    have "b AND 192 = 128"
    proof (rule bit_word_eqI)
      fix n assume "n < LENGTH(8)"
      then have "n \<in> {0, 1, 2, 3, 4, 5, 6, 7}" by auto
      then show "bit (b AND 192) n = bit (128 :: u8) n" using * by (auto simp: bit_simps)
    qed
    then show "is_cont b" by (simp add: is_cont_def)
  qed
  also have "\<dots> \<longleftrightarrow> odd (unat b div 128) \<and> even (unat b div 64)"
  proof -
    have "bit b n \<longleftrightarrow> odd (unat b div 2 ^ n)" if "n < 8" for n
      using that by (simp add: bit_unsigned_iff flip: bit_iff_odd)
    from this [of 7] this [of 6] show ?thesis by simp
  qed
  also have "\<dots> \<longleftrightarrow> 128 \<le> unat b \<and> unat b < 192"
  proof -
    have "unat b div 64 \<in> {0, 1, 2, 3}" using b by auto
    moreover have "unat b div 128 = unat b div 64 div 2" by (simp flip: div_mult2_eq)
    ultimately show ?thesis by auto
  qed
  finally show ?thesis by (simp add: word_le_nat_alt word_less_nat_alt)
qed

lemma second_ok_cont: "second_ok b c \<Longrightarrow> is_cont c"
  by (auto simp: second_ok_def is_cont_range word_le_nat_alt word_less_nat_alt split: if_splits)

section \<open>Well-formed sequences\<close>

text \<open>The bytes that a step consumes are continuation bytes, and only they are looked at.\<close>

lemma utf8_step_conts:
  assumes "utf8_step b bs = (True, n)"
  shows "n \<le> length bs \<and> (\<forall>i < n. is_cont (bs ! i))"
proof -
  have "is_cont (byte_at bs i)" if "i < n" for i
    using assms that second_ok_cont
    by (auto simp: utf8_step_def less_Suc_eq numeral_eq_Suc split: if_splits)
  then show ?thesis
    using utf8_step_cont_consumed [OF assms] by (auto simp: byte_at_def split: if_splits)
qed

lemma byte_at_append: "i < length xs \<Longrightarrow> byte_at (xs @ ys) i = byte_at xs i"
  by (simp add: byte_at_def nth_append)

lemma byte_at_cont: "is_cont (byte_at bs i) \<Longrightarrow> i < length bs"
  by (auto simp: byte_at_def is_cont_range split: if_splits)

lemma utf8_step_cong:
  assumes "utf8_step b xs = (True, n)" and "\<And>i. i < n \<Longrightarrow> byte_at ys i = byte_at xs i"
  shows "utf8_step b ys = (True, n)"
  using assms by (auto simp: utf8_step_def numeral_eq_Suc split: if_splits)

lemma utf8_step_local:
  assumes "utf8_step b xs = (True, n)"
  shows "utf8_step b (xs @ ys) = (True, n)"
  using utf8_step_cong [OF assms] utf8_step_conts [OF assms] by (simp add: byte_at_append)

lemma utf8_valid_append: "utf8_valid xs \<Longrightarrow> utf8_valid (xs @ ys) = utf8_valid ys"
proof (induction xs rule: utf8_valid.induct)
  case (2 b bs)
  obtain n where n: "utf8_step b bs = (True, n)" using 2(2) by (cases "utf8_step b bs") auto
  with 2 utf8_step_local [OF n, of ys] utf8_step_conts [OF n] show ?case by simp
qed simp

text \<open>Text can be cut wherever the rest does not begin inside a character.\<close>

lemma utf8_valid_cut:
  assumes "utf8_valid (xs @ ys)" and "ys = [] \<or> \<not> is_cont (hd ys)"
  shows "utf8_valid xs" and "utf8_valid ys"
proof -
  have "utf8_valid xs"
    using assms
  proof (induction xs rule: length_induct)
    case (1 xs)
    show ?case
    proof (cases xs)
      case (Cons b bs)
      obtain n where n: "utf8_step b (bs @ ys) = (True, n)"
        using 1(2) Cons by (cases "utf8_step b (bs @ ys)") auto
      have le: "n \<le> length bs"
      proof (rule ccontr)
        assume "\<not> n \<le> length bs"
        then have "is_cont ((bs @ ys) ! length bs)" "length bs < length (bs @ ys)"
          using utf8_step_conts [OF n] by auto
        then show False using 1(3) by (cases ys) simp_all
      qed
      have step: "utf8_step b bs = (True, n)"
        by (rule utf8_step_cong [OF n]) (use le in \<open>simp add: byte_at_append\<close>)
      have "utf8_valid (drop n bs @ ys)" using 1(2) Cons n le by simp
      then have "utf8_valid (drop n bs)" using 1(1,3) Cons by simp
      then show ?thesis using Cons step by simp
    qed simp
  qed
  then show "utf8_valid xs" "utf8_valid ys"
    using assms(1) by (simp_all add: utf8_valid_append)
qed

section \<open>Strings\<close>

lemma text_ok_Nil [simp]: "text_ok []"
  by (simp add: text_ok_def)

lemma text_ok_append: "text_ok s \<Longrightarrow> text_ok t \<Longrightarrow> text_ok (s @ t)"
  by (simp add: text_ok_def utf8_valid_append)

lemma text_ok_ascii: "\<forall>c \<in> set s. (of_char c :: nat) < 128 \<Longrightarrow> text_ok s"
  unfolding text_ok_def
  by (rule utf8_valid_ascii) (auto simp: char_byte_def word_less_nat_alt unat_of_nat)

lemma text_ok_concat: "\<forall>s \<in> set ss. text_ok s \<Longrightarrow> text_ok (concat ss)"
  by (induction ss) (simp_all add: text_ok_append)

lemma text_ok_cut:
  assumes "text_ok (s @ t)" and "t = [] \<or> \<not> is_cont (char_byte (hd t))"
  shows "text_ok s" and "text_ok t"
  using utf8_valid_cut [of "str_bytes s" "str_bytes t"] assms by (cases t; simp add: text_ok_def)+

text \<open>Around an ASCII character both sides are text.\<close>

lemma text_ok_split:
  assumes "text_ok (s @ c # t)" and "(of_char c :: nat) < 128"
  shows "text_ok s" and "text_ok t"
proof -
  have "text_ok s" "text_ok (c # t)"
    using text_ok_cut [of s "c # t"] assms ascii_not_cont [of c] by simp_all
  moreover have "text_ok [c]" using assms(2) by (intro text_ok_ascii) simp
  ultimately show "text_ok s" "text_ok t"
    using utf8_valid_append [of "str_bytes [c]" "str_bytes t"] by (simp_all add: text_ok_def)
qed

lemma from_utf8_lossy_text: "text_ok (from_utf8_lossy bs)"
proof (induction bs rule: from_utf8_lossy.induct)
  case (2 b bs)
  obtain good n where st: "utf8_step b bs = (good, n)" by fastforce
  have "text_ok replacement" by code_simp
  moreover have "text_ok (map byte_char (b # take n bs))" if good
  proof -
    from that st have n: "utf8_step b bs = (True, n)" by simp
    have "utf8_step b (take n bs) = (True, n)"
      by (rule utf8_step_cong [OF n]) (use utf8_step_conts [OF n] in \<open>simp add: byte_at_def\<close>)
    then show ?thesis by (simp add: text_ok_def comp_def)
  qed
  ultimately show ?case using 2 st by (simp add: text_ok_append)
qed simp

lemma from_utf8_text: "from_utf8 bs = Some s \<Longrightarrow> text_ok s"
  by (auto simp: from_utf8_def text_ok_def comp_def split: if_splits)

lemma lower_byte: "char_byte (ascii_lower c) = char_byte c \<or> char_byte (ascii_lower c) < 0x80 \<and> char_byte c < 0x80"
  by (auto simp: ascii_lower_def char_byte_def word_less_nat_alt unat_of_nat)

lemma utf8_valid_map:
  assumes "\<And>b. f b = b \<or> f b < 0x80 \<and> b < 0x80"
  shows "utf8_valid (map f bs) = utf8_valid bs"
proof (induction bs rule: utf8_valid.induct)
  case (2 b bs)
  have cont: "is_cont (f c) = is_cont c" for c
    using assms [of c] by (auto simp: is_cont_range not_le)
  have sec: "second_ok b (f c) = second_ok b c" for b c
  proof (cases "f c = c")
    case False
    then have "\<not> is_cont c" "\<not> is_cont (f c)" using assms [of c] by (auto simp: is_cont_range not_le)
    then show ?thesis using second_ok_cont by blast
  qed simp
  have at: "is_cont (byte_at (map f bs) i) = is_cont (byte_at bs i)"
    "second_ok b (byte_at (map f bs) i) = second_ok b (byte_at bs i)" for i b
    by (simp_all add: byte_at_def cont sec)
  have "utf8_step (f b) (map f bs) = utf8_step b bs"
  proof (cases "f b = b")
    case True
    then show ?thesis by (simp add: utf8_step_def at)
  next
    case False
    then have "f b < 0x80" "b < 0x80" using assms [of b] by simp_all
    then show ?thesis by (simp add: utf8_step_def)
  qed
  then show ?case using 2 by (simp add: drop_map)
qed simp

lemma lowercase_text [simp]: "text_ok (to_ascii_lowercase s) = text_ok s"
proof -
  have "utf8_valid (map (char_byte \<circ> ascii_lower \<circ> byte_char) (str_bytes s)) = utf8_valid (str_bytes s)"
    using lower_byte [of "byte_char _"] by (intro utf8_valid_map) simp
  then show ?thesis by (simp add: text_ok_def to_ascii_lowercase_def comp_def)
qed

lemma trim_end_text:
  assumes "text_ok s" and "(of_char c :: nat) < 128"
  shows "text_ok (trim_end_matches c s)"
  using assms(1)
proof (induction s rule: rev_induct)
  case (snoc x s)
  show ?case
  proof (cases "x = c")
    case True
    then have "text_ok s" using snoc(2) text_ok_split(1) [of s c "[]"] assms(2) by simp
    then show ?thesis using snoc(1) True by simp
  qed (use snoc in \<open>simp add: trim_end_matches_def\<close>)
qed (simp add: trim_end_matches_def)

lemma chars_take_text:
  assumes "text_ok s"
  shows "text_ok (chars_take n s)"
proof -
  have "\<exists>t. s = chars_take n s @ t \<and> (t = [] \<or> \<not> is_cont (char_byte (hd t)))"
    by (induction n s rule: chars_take.induct) (auto split: nat.splits)
  then show ?thesis using assms text_ok_cut by metis
qed

lemma split_on_text:
  assumes "text_ok s" and "(of_char c :: nat) < 128"
  shows "\<forall>p \<in> set (split_on c s). text_ok p"
  using assms(1)
proof (induction s rule: length_induct)
  case (1 s)
  show ?case
  proof (cases "split_once c s")
    case None
    then have "split_on c s = [s]" by (simp add: split_once_None split_on_single)
    then show ?thesis using 1(2) by simp
  next
    case (Some p)
    obtain a b where s: "s = a @ c # b" and na: "c \<notin> set a" using Some split_once_Some by (cases p) blast
    have "text_ok a" "text_ok b" using text_ok_split [of a c b] 1(2) s assms(2) by simp_all
    moreover have "split_on c s = a # split_on c b" using s na by (simp add: split_on_first)
    ultimately show ?thesis using 1(1) [rule_format, of b] s by simp
  qed
qed

lemmas text_intros = text_ok_append text_ok_concat trim_end_text chars_take_text

section \<open>Numbers and addresses\<close>

lemma show_nat_text [simp]: "text_ok (show_nat n)"
  using show_base_ascii [of 10 n] by (intro text_ok_ascii) simp

lemma show_hex_text [simp]: "text_ok (show_hex n)"
  using show_base_ascii [of 16 n] by (intro text_ok_ascii) simp

lemma join_text: "text_ok sep \<Longrightarrow> \<forall>s \<in> set ss. text_ok s \<Longrightarrow> text_ok (join sep ss)"
  by (induction sep ss rule: join.induct) (simp_all add: text_ok_append)

lemma show_ip_text: "text_ok (show_ip ip)"
proof -
  have lit: "text_ok ''.''" "text_ok '':''" "text_ok ''::''" "text_ok ''::ffff:''" by (rule text_ok_ascii, simp)+
  have sub: "text_ok (fmt_subslice ss)" for ss
    unfolding fmt_subslice_def by (rule join_text) (auto simp: lit)
  have dots: "text_ok (join ''.'' (map show_u8 bs))" for bs
    by (rule join_text) (auto simp: lit show_u8_def)
  show ?thesis
  proof (cases ip)
    case (V4 a b c d)
    have "show_ip ip = join ''.'' (map show_u8 [a, b, c, d])" by (simp add: V4)
    then show ?thesis by (simp only: dots)
  next
    case (V6 a b c d e f g h)
    have "text_ok (show_v6_segments ss)" for ss
      unfolding show_v6_segments_def split_beta
      by (simp only: split: if_split) (intro conjI impI text_ok_append sub lit)
    moreover have "text_ok (''::ffff:'' @ join ''.'' (map show_u8 (to_be_bytes g @ to_be_bytes h)))"
      by (intro text_ok_append lit dots)
    ultimately show ?thesis by (simp only: V6 show_ip.simps simp_thms split: if_split)
  qed
qed

end
