(* ===== verification/Host_Text.thy ===== *)
theory Host_Text
  imports Rust_Text Main_Run
begin

text \<open>
  The strings of the program are Rust strings: host names taken from the wire, from a
  request line or from the resolver are well-formed UTF-8, and so is the printed
  report, in which host names are cut to the width of their column.
\<close>

section \<open>Host names\<close>

lemma normal_host_text: "text_ok (normal_host raw)"
  by (simp add: normal_host_def trim_end_text from_utf8_lossy_text)

lemma read_host_text: "read_host ops t s = (s', Ok h) \<Longrightarrow> text_ok h"
  by (auto simp: read_host_def try_io_def show_ip_text normal_host_text split: if_splits prod.splits sum.splits)

fun command_host :: "command \<Rightarrow> string" where
  "command_host (Connect r) = req_host r"
| "command_host (UdpAssociate r) = req_host r"

lemma accept_text:
  assumes "accept ops s = (s', Ok c)"
  shows "text_ok (command_host c)"
  using assms
  by (auto simp: accept_def try_io_def and_then_def command_of_def split: if_splits prod.splits sum.splits
      dest: read_host_text)

lemma parse_datagram_text: "parse_datagram raw = Ok d \<Longrightarrow> text_ok (dg_host d)"
  by (auto simp: parse_datagram_def parse_host_def then_result_def show_ip_text normal_host_text Let_def
      split: if_splits sum.splits prod.splits)

lemma request_line_text:
  assumes "request_line head = Some (mth, tgt)"
  shows "text_ok tgt"
proof -
  obtain i line where "from_utf8 (take i head) = Some line"
    and split: "(case split_on (CHR '' '') line of
         m # t # _ \<Rightarrow> if m \<noteq> [] \<and> t \<noteq> [] then Some (m, t) else None
       | _ \<Rightarrow> None) = Some (mth, tgt)"
    using assms by (auto simp: request_line_def Option.bind_eq_Some_conv)
  then have "text_ok line" by (intro from_utf8_text)
  moreover have "tgt \<in> set (split_on (CHR '' '') line)"
    using split by (auto split: list.split_asm if_split_asm)
  ultimately show ?thesis using split_on_text [of line "CHR '' ''"] by auto
qed

lemma split_authority_text:
  assumes "text_ok a"
  shows "text_ok (fst (split_authority a d))"
proof (cases "strip_prefix (CHR ''['') a")
  case (Some rest)
  then have a: "a = [] @ CHR ''['' # rest" by (auto simp: strip_prefix_def split: list.splits if_splits)
  have rest: "text_ok rest" using text_ok_split(2) [of "[]" "CHR ''[''" rest] assms a by simp
  show ?thesis
  proof (cases "split_once (CHR '']'') rest")
    case None
    then show ?thesis using Some rest by (simp add: split_authority_def Let_def)
  next
    case (Some p)
    obtain h t where p: "p = (h, t)" by fastforce
    then have "rest = h @ CHR '']'' # t" using Some split_once_Some by blast
    then have "text_ok h" using text_ok_split(1) [of h "CHR '']''" t] rest by simp
    then show ?thesis using Some p \<open>strip_prefix _ a = _\<close> by (simp add: split_authority_def Let_def)
  qed
next
  case None
  have "text_ok h" if "rsplit_once (CHR '':'') a = Some (h, p)" for h p
    using that assms text_ok_split(1) [of h "CHR '':''" p] by (simp add: rsplit_once_Some)
  then show ?thesis
    using None assms by (auto simp: split_authority_def split: option.splits)
qed

lemma find_ptr_text: "\<forall>n. PTR n \<in> set rs \<longrightarrow> text_ok n \<Longrightarrow> find_ptr rs = Some n \<Longrightarrow> text_ok n"
  by (induction rs rule: find_ptr.induct) (auto simp: trim_end_text)

section \<open>The report\<close>

lemma text_ok_Cons: "(of_char c :: nat) < 128 \<Longrightarrow> text_ok s \<Longrightarrow> text_ok (c # s)"
  using text_ok_append [of "[c]" s] by (simp add: text_ok_ascii)

lemma replicate_text: "(of_char c :: nat) < 128 \<Longrightarrow> text_ok (replicate n c)"
  by (rule text_ok_ascii) simp

lemma hundredths_text: "text_ok (show_hundredths h)"
proof -
  have "text_ok [digit_char (h div 10 mod 10), digit_char (h mod 10)]"
    by (rule text_ok_ascii) (simp add: digit_ascii)
  then show ?thesis by (simp add: show_hundredths_def text_ok_append text_ok_Cons)
qed

lemma format_bytes_text: "text_ok (format_bytes b)"
proof (cases "1024 \<le> unat b")
  case True
  then obtain h k where fb: "format_bytes b = show_hundredths h @ '' '' @ UNITS ! (k - 1)" "1 \<le> k" "k \<le> 5"
    using format_bytes_parts by blast
  have "\<forall>u \<in> set UNITS. text_ok u" by (simp add: UNITS_def text_ok_ascii)
  moreover have "k - 1 < length UNITS" using fb(3) by (simp add: UNITS_def)
  ultimately have "text_ok (UNITS ! (k - 1))" by (simp only: nth_mem)
  then show ?thesis by (simp add: fb(1) text_ok_append hundredths_text text_ok_Cons)
next
  case False
  then show ?thesis by (simp add: format_bytes_def word_less_nat_alt text_ok_append text_ok_ascii)
qed

lemma elide_text: "text_ok s \<Longrightarrow> text_ok (elide s n)"
proof -
  have "text_ok ellipsis" by code_simp
  then show "text_ok s \<Longrightarrow> text_ok (elide s n)" by (simp add: elide_def text_ok_append chars_take_text)
qed

lemma pad_text:
  "text_ok s \<Longrightarrow> text_ok (pad_right n s)" "text_ok s \<Longrightarrow> text_ok (pad_left n s)" "text_ok s \<Longrightarrow> text_ok (pad_center n s)"
  by (simp_all add: pad_right_def pad_left_def pad_center_def Let_def text_ok_append replicate_text)

lemma writeln_text: "text_ok s \<Longrightarrow> text_ok (writeln s)"
  by (simp add: writeln_def text_ok_append text_ok_ascii)

lemma table_row_text:
  "text_ok a \<Longrightarrow> text_ok b \<Longrightarrow> text_ok c \<Longrightarrow> text_ok d \<Longrightarrow> text_ok (table_row a b c d)"
  by (simp add: table_row_def text_ok_append pad_text)

lemma endpoint_row_text: "text_ok (domain e) \<Longrightarrow> text_ok (endpoint_row e)"
  by (simp add: endpoint_row_def table_row_text elide_text format_bytes_text)

lemma to_text_text:
  assumes "text_ok (rep_command rep)" and "\<forall>f. domain_prefix_filter rep = Some f \<longrightarrow> text_ok f"
    and "\<forall>e \<in> set (rep_endpoints rep). text_ok (domain e)"
  shows "text_ok (to_text rep)"
proof -
  have lit: "text_ok s" if "list_all (\<lambda>c. (of_char c :: nat) < 128) s" for s
    using that by (intro text_ok_ascii) (simp add: list_all_iff)
  have num: "text_ok (fmt_2 a b)" "text_ok (show_i32 i)" for a b i
    by (simp_all add: fmt_2_def hundredths_text show_i32_def text_ok_Cons)
  have flt: "text_ok (filter_text (domain_prefix_filter rep))"
    using assms(2) by (auto simp: filter_text_def lit text_ok_append text_ok_Cons split: option.splits)
  have tot: "text_ok (totals_row s t)" if "text_ok s" for s t
    using that by (simp add: totals_row_def table_row_text format_bytes_text)
  have rows: "text_ok (concat (map (\<lambda>e. writeln (endpoint_row e)) (filter matches_filter (rep_endpoints rep))))"
    using assms(3) by (intro text_ok_concat) (auto intro!: writeln_text endpoint_row_text)
  have "text_ok (writeln (''Command:          '' @ rep_command rep))"
    "text_ok (writeln (''Target Filter:    '' @ filter_text (domain_prefix_filter rep)))"
    "text_ok (writeln (''Execution Time:   '' @ fmt_2 a b @ ''s''))"
    "text_ok (writeln (''Exit Code:        '' @ show_i32 (rep_exit_code rep)))" for a b
    by (intro writeln_text text_ok_append assms(1) flt num; simp add: lit)+
  moreover have "text_ok (writeln (totals_row ''TOTAL (Matching Filter):'' t))"
    "text_ok (writeln (totals_row ''TOTAL (All Destinations):'' t))" for t
    by (intro writeln_text tot; simp add: lit)+
  moreover have "text_ok (writeln (table_row ''ENDPOINT / DOMAIN'' ''INGRESS (Rx)'' ''EGRESS (Tx)'' ''CONNS''))"
    "text_ok (writeln (pad_center RULE ''WIRETALLY TRAFFIC SUMMARY''))"
    by (intro writeln_text table_row_text pad_text; simp add: lit)+
  moreover have "text_ok (writeln (replicate n (CHR ''='')))" "text_ok (writeln (replicate n (CHR ''-'')))"
    "text_ok (writeln ''DOMAIN / ENDPOINT SUMMARY:'')" "text_ok (writeln [])"
    "text_ok (writeln ''(no matching traffic observed)'')" for n
    by (intro writeln_text; simp add: lit replicate_text)+
  ultimately show ?thesis
    unfolding to_text_def Let_def split_beta by (intro text_ok_append rows) (simp_all split: if_split)
qed

section \<open>Properties\<close>




definition demo_report :: report where
  "demo_report = \<lparr>rep_command = ''ls'', domain_prefix_filter = None, execution_time_ms = 10, rep_exit_code = 0,
     rep_totals = \<lparr>matching_filter = default_totals, all_destinations = default_totals\<rparr>, rep_endpoints = []\<rparr>"


end
