(* ===== verification/Effects.thy ===== *)
theory Effects
  imports Http_Forward Naming
begin

text \<open>
  What the tasks of the proxy do to the shared registry, as sequences of atomic
  operations: each is one call on the registry under its lock, or one atomic addition
  to a counter (\<open>src/stats.rs\<close>). The connection functions of \<open>src/proxy.rs\<close> and the relay
  of \<open>src/udp.rs\<close> are shown to be, on the registry, exactly the sequences defined here;
  this is what other tasks can see of them and interleave with.
\<close>

section \<open>Atomic operations\<close>

text \<open>
  A counter operation goes through the handle of a host; as long as nothing is renamed,
  and renaming starts only after draining, a handle keeps meaning its host.
\<close>

datatype reg_op =
    Get_Endpoint string
  | Add_In string u64
  | Add_Out string u64
  | Add_Conn string
  | Note_Ip string ip_addr
  | New_Id
  | Guard_Up
  | Guard_Down

definition at_host :: "string \<Rightarrow> (endpoint_stats \<Rightarrow> endpoint_stats) \<Rightarrow> registry \<Rightarrow> registry" where
  "at_host host f r = (case map_of (endpoints r) host of None \<Rightarrow> r | Some h \<Rightarrow> upd_cell h f r)"

fun do_op :: "reg_op \<Rightarrow> registry \<Rightarrow> registry" where
  "do_op (Get_Endpoint host) r = fst (endpoint host r)"
| "do_op (Add_In host n) r = at_host host (add_ingress n) r"
| "do_op (Add_Out host n) r = at_host host (add_egress n) r"
| "do_op (Add_Conn host) r = at_host host add_connection r"
| "do_op (Note_Ip host ip) r = at_host host (observe_ip ip) r"
| "do_op New_Id r = fst (next_conn_id False r)"
| "do_op Guard_Up r = track_open r"
| "do_op Guard_Down r = drop_guard r"

abbreviation do_ops :: "reg_op list \<Rightarrow> registry \<Rightarrow> registry" where
  "do_ops \<equiv> fold do_op"

text \<open>The host whose row an operation writes; such an operation needs the row to be there.\<close>

fun op_host :: "reg_op \<Rightarrow> string option" where
  "op_host (Add_In host _) = Some host"
| "op_host (Add_Out host _) = Some host"
| "op_host (Add_Conn host) = Some host"
| "op_host (Note_Ip host _) = Some host"
| "op_host _ = None"

fun opens :: "reg_op \<Rightarrow> string set" where
  "opens (Get_Endpoint host) = {host}"
| "opens _ = {}"

fun covered :: "string set \<Rightarrow> reg_op list \<Rightarrow> bool" where
  "covered H [] = True"
| "covered H (a # as) = ((case op_host a of None \<Rightarrow> True | Some host \<Rightarrow> host \<in> H) \<and> covered (H \<union> opens a) as)"

text \<open>What an operation adds to the counters of the row it writes.\<close>

fun gain :: "reg_op \<Rightarrow> endpoint_stats" where
  "gain (Add_In _ n) = default_stats\<lparr>ingress := n\<rparr>"
| "gain (Add_Out _ n) = default_stats\<lparr>egress := n\<rparr>"
| "gain (Add_Conn _) = default_stats\<lparr>connections := 1\<rparr>"
| "gain _ = default_stats"

definition gained :: "(endpoint_stats \<Rightarrow> u64) \<Rightarrow> string \<Rightarrow> reg_op list \<Rightarrow> u64" where
  "gained f host as = sum_list (map (\<lambda>a. f (gain a)) (filter (\<lambda>a. op_host a = Some host) as))"

definition gained_all :: "(endpoint_stats \<Rightarrow> u64) \<Rightarrow> reg_op list \<Rightarrow> u64" where
  "gained_all f as = sum_list (map (\<lambda>a. f (gain a)) as)"

fun guard :: "reg_op \<Rightarrow> u64" where
  "guard Guard_Up = 1"
| "guard Guard_Down = - 1"
| "guard _ = 0"

section \<open>What atomic operations do\<close>

lemma at_host_simps [simp]:
  "endpoints (at_host host f r) = endpoints r" "open_connections (at_host host f r) = open_connections r"
  "registry_ok (at_host host f r) = registry_ok r"
  by (simp_all add: at_host_def split: option.splits)

lemma row_at_host: "registry_ok r \<Longrightarrow> row (at_host host f r) = (row r)(host := map_option f (row r host))"
proof (cases "map_of (endpoints r) host")
  case None
  then have "row r host = None" by (simp add: row_def)
  then show ?thesis using None by (auto simp: at_host_def)
qed (simp add: at_host_def row_upd_cell)

lemma do_op_ok: "registry_ok r \<Longrightarrow> registry_ok (do_op a r)"
  by (cases a) (simp_all add: registry_ok_endpoint)

lemma do_op_dom: "registry_ok r \<Longrightarrow> dom (row (do_op a r)) = dom (row r) \<union> opens a"
  by (cases a) (auto simp: row_at_host row_endpoint split: option.splits if_splits)

lemma do_op_open: "open_connections (do_op a r) = open_connections r + guard a"
  by (cases a) (simp_all add: track_open_def drop_guard_def next_conn_id_def)

lemma covered_mono: "covered H as \<Longrightarrow> H \<subseteq> H' \<Longrightarrow> covered H' as"
proof (induction as arbitrary: H H')
  case (Cons a as)
  have "covered (H \<union> opens a) as" using Cons.prems(1) by simp
  moreover have "H \<union> opens a \<subseteq> H' \<union> opens a" using Cons.prems(2) by blast
  ultimately have "covered (H' \<union> opens a) as" by (rule Cons.IH)
  with Cons.prems show ?case by (cases "op_host a") auto
qed simp

lemma covered_append: "covered H (as @ bs) \<longleftrightarrow> covered H as \<and> covered (H \<union> \<Union> (opens ` set as)) bs"
proof (induction as arbitrary: H)
  case (Cons a as)
  have "H \<union> opens a \<union> \<Union> (opens ` set as) = H \<union> \<Union> (opens ` set (a # as))" by auto
  then show ?case by (simp only: append_Cons covered.simps Cons.IH conj_assoc)
qed simp

definition is_counter :: "(endpoint_stats \<Rightarrow> u64) \<Rightarrow> bool" where
  "is_counter f \<longleftrightarrow> f = ingress \<or> f = egress \<or> f = connections"

lemma is_counter_cases: "is_counter f \<Longrightarrow> (f = ingress \<Longrightarrow> P) \<Longrightarrow> (f = egress \<Longrightarrow> P) \<Longrightarrow> (f = connections \<Longrightarrow> P) \<Longrightarrow> P"
  by (auto simp: is_counter_def)

lemma gain_default: "is_counter f \<Longrightarrow> op_host a = None \<Longrightarrow> f (gain a) = 0"
  by (cases a) (auto simp: is_counter_def default_stats_def)

lemma do_op_counted:
  assumes "registry_ok r" and "is_counter f" and "\<And>k. op_host a = Some k \<Longrightarrow> k \<in> dom (row r)"
  shows "counted_at f (do_op a r) host = counted_at f r host + (if op_host a = Some host then f (gain a) else 0)"
proof (cases a)
  case (Get_Endpoint k)
  then show ?thesis
    using assms(1,2) by (auto simp: counted_at_def row_endpoint is_counter_def default_stats_def split: option.splits)
qed (use assms in \<open>auto simp: counted_at_def row_at_host is_counter_def default_stats_def add_ingress_def
      add_egress_def add_connection_def observe_ip_def split: option.splits\<close>)

lemma total_counted: "registry_ok r \<Longrightarrow> total f r = (\<Sum>h \<in> dom (row r). counted_at f r h)"
  by (auto simp: total_row counted_at_def intro!: sum.cong split: option.splits)

lemma do_op_total:
  assumes "registry_ok r" and "is_counter f" and "\<And>k. op_host a = Some k \<Longrightarrow> k \<in> dom (row r)"
  shows "total f (do_op a r) = total f r + f (gain a)"
proof -
  let ?A = "dom (row r) \<union> opens a"
  have fin: "finite ?A" by (cases a) (simp_all add: finite_dom_row)
  have "total f (do_op a r) = (\<Sum>h \<in> ?A. counted_at f (do_op a r) h)"
    using total_counted [OF do_op_ok [OF assms(1)]] by (simp add: do_op_dom [OF assms(1)])
  also have "\<dots> = (\<Sum>h \<in> ?A. counted_at f r h) + (\<Sum>h \<in> ?A. if op_host a = Some h then f (gain a) else 0)"
    by (simp add: do_op_counted [OF assms] sum.distrib)
  also have "(\<Sum>h \<in> ?A. counted_at f r h) = (\<Sum>h \<in> dom (row r). counted_at f r h)"
    using fin by (intro sum.mono_neutral_right) (auto simp: counted_at_def split: option.splits)
  also have "(\<Sum>h \<in> ?A. if op_host a = Some h then f (gain a) else 0) = f (gain a)"
  proof (cases "op_host a")
    case None
    then show ?thesis using gain_default [OF assms(2) None] by simp
  next
    case (Some k)
    then have "k \<in> ?A" using assms(3) by simp
    then show ?thesis using fin Some by (simp add: sum.delta)
  qed
  finally show ?thesis using total_counted [OF assms(1)] by simp
qed

section \<open>Tunnels\<close>

text \<open>\<open>endpoint\<close> and \<open>conn_log\<close>, the peer and the connection, and one poll of a counted stream.\<close>

definition open_ops :: "bool \<Rightarrow> string \<Rightarrow> reg_op list" where
  "open_ops verbose host = Get_Endpoint host # (if verbose then [New_Id] else [])"

definition opened_ops :: "string \<Rightarrow> (io_error, socket_addr) result \<Rightarrow> reg_op list" where
  "opened_ops host peer = (case peer of Inr a \<Rightarrow> [Note_Ip host (sa_ip a)] | Inl _ \<Rightarrow> []) @ [Add_Conn host]"

definition poll_ops :: "side \<Rightarrow> string \<Rightarrow> outcome \<Rightarrow> reg_op list" where
  "poll_ops sd host oc =
     (let nr = length (read_bytes oc); nw = written oc in
      (if nr = 0 then [] else [case sd of Client \<Rightarrow> Add_Out host (of_nat nr) | Upstream \<Rightarrow> Add_In host (of_nat nr)])
      @ (if nw = 0 then [] else [case sd of Client \<Rightarrow> Add_In host (of_nat nw) | Upstream \<Rightarrow> Add_Out host (of_nat nw)]))"

definition splice_ops ::
  "('s, 'x) sock_ops_scheme \<Rightarrow> 's stream_ops \<Rightarrow> connector \<Rightarrow> bool \<Rightarrow> string \<Rightarrow> u16 \<Rightarrow> bytes \<Rightarrow> handshake
    \<Rightarrow> 's \<Rightarrow> reg_op list" where
  "splice_ops tcp ops connect verbose host port leftover hs s =
     open_ops verbose host @
     (case connect host port of
        Inl _ \<Rightarrow> []
      | Inr up \<Rightarrow>
          (case up_nodelay up of
             Inl _ \<Rightarrow> []
           | Inr _ \<Rightarrow>
               opened_ops host (up_peer up) @
               (case hs_accept tcp hs s of
                  (_, Inl _) \<Rightarrow> []
                | (s, Inr _) \<Rightarrow>
                    concat (map (poll_ops Client host)
                      (snd (run_polls (rewind_ops ops) (up_polls up) (new_rewind leftover s)))))))"

lemma at_host_handle: "map_of (endpoints r) host = Some h \<Longrightarrow> at_host host f r = upd_cell h f r"
  by (simp add: at_host_def)

lemma do_open_ops:
  assumes "endpoint host r = (r1, h)" and "shared_conn_log verbose tgt r1 = (r2, l)"
  shows "do_ops (open_ops verbose host) r = r2" and "map_of (endpoints r2) host = Some h"
proof -
  have "r1 = fst (endpoint host r)" "h = snd (endpoint host r)" using assms(1) by simp_all
  then have h: "map_of (endpoints r1) host = Some h" by (simp add: endpoint_handle)
  have "r2 = (if verbose then fst (next_conn_id False r1) else r1)"
    using assms(2) by (simp add: shared_conn_log_def split: prod.splits if_splits)
  then show "do_ops (open_ops verbose host) r = r2" using assms(1) by (simp add: open_ops_def)
  show "map_of (endpoints r2) host = Some h" using h arg_cong [OF assms(2), of "\<lambda>x. endpoints (fst x)"] by simp
qed

lemma do_opened_ops:
  assumes "map_of (endpoints r) host = Some h"
  shows "do_ops (opened_ops host peer) r = fst (count_opened h l host port peer (r, out))"
    and "endpoints (do_ops (opened_ops host peer) r) = endpoints r"
  using assms by (cases peer; simp add: opened_ops_def count_opened_def at_host_handle)+

lemma do_poll_ops:
  assumes "map_of (endpoints r) host = Some h"
  shows "do_ops (poll_ops sd host oc) r = upd_cell h (tally sd (length (read_bytes oc)) (written oc)) r"
proof -
  have "written oc = 0 \<or> read_bytes oc = []" by (cases oc) auto
  then show ?thesis
    using assms
    by (cases sd)
       (auto simp: poll_ops_def Let_def at_host_handle tally_def [abs_def] add_ingress_def [abs_def] add_egress_def [abs_def])
qed

lemma do_polls_ops:
  assumes "map_of (endpoints r) host = Some h"
  shows "do_ops (concat (map (poll_ops sd host) os)) r = upd_cell h (tally sd (length (all_read os)) (all_written os)) r"
  using assms
proof (induction os arbitrary: r)
  case (Cons oc os)
  let ?r = "upd_cell h (tally sd (length (read_bytes oc)) (written oc)) r"
  have "do_ops (concat (map (poll_ops sd host) os)) ?r = upd_cell h (tally sd (length (all_read os)) (all_written os)) ?r"
    using Cons by simp
  then show ?case
    by (simp add: do_poll_ops [OF Cons.prems] upd_cell_upd_cell tally_tally all_read_def all_written_def)
qed (simp add: all_read_def all_written_def)

lemma splice_atomic:
  "w_reg (fst (connect_and_splice tcp ops connect verbose host port leftover hs w)) =
    do_ops (splice_ops tcp ops connect verbose host port leftover hs (client w)) (w_reg w)"
proof -
  obtain r1 h where e: "endpoint host (w_reg w) = (r1, h)" by fastforce
  obtain r2 l where l: "shared_conn_log verbose (target_text host port) r1 = (r2, l)" by fastforce
  note o = do_open_ops [OF e l]
  show ?thesis
  proof (cases "connect host port")
    case (Inl err)
    then show ?thesis by (simp add: connect_and_splice_def splice_ops_def e l o(1) split_beta)
  next
    case (Inr up)
    show ?thesis
    proof (cases "up_nodelay up")
      case (Inl e')
      then show ?thesis using Inr by (simp add: connect_and_splice_def splice_ops_def e l o(1))
    next
      case nd: (Inr u)
      obtain r3 out where c: "count_opened h l host port (up_peer up) (r2, w_log w) = (r3, out)" by fastforce
      have r3: "do_ops (opened_ops host (up_peer up)) r2 = r3" "map_of (endpoints r3) host = Some h"
        using do_opened_ops(1) [OF o(2), of "up_peer up" l port "w_log w"] do_opened_ops(2) [OF o(2), of "up_peer up"] c o(2)
        by simp_all
      obtain s r where s: "hs_accept tcp hs (client w) = (s, r)" by fastforce
      show ?thesis
      proof (cases r)
        case (Inl e')
        then show ?thesis using Inr nd s by (simp add: connect_and_splice_def splice_ops_def e l o(1) c r3(1))
      next
        case ok: (Inr u')
        let ?c = "new_counting (new_rewind leftover s) h Client l"
        obtain rw os where run: "run_polls (rewind_ops ops) (up_polls up) (new_rewind leftover s) = (rw, os)" by fastforce
        then obtain out' where "run_polls (counting_ops (rewind_ops ops)) (up_polls up) (?c, r3, out) =
            ((?c\<lparr>c_inner := rw\<rparr>, upd_cell h (tally Client (length (all_read os)) (all_written os)) r3, out'), os)"
          using counting_run [of "rewind_ops ops" "up_polls up" ?c r3 out] by (auto simp: new_counting_def)
        then show ?thesis
          using Inr nd s ok run
          by (simp add: connect_and_splice_def splice_ops_def e l o(1) c r3(1) do_polls_ops [OF r3(2)])
      qed
    qed
  qed
qed

lemma poll_ops_covered: "host \<in> H \<Longrightarrow> covered H (concat (map (poll_ops sd host) os))"
proof (induction os arbitrary: H)
  case (Cons oc os)
  have "covered H (poll_ops sd host oc)" "\<Union> (opens ` set (poll_ops sd host oc)) = {}"
    using Cons.prems by (auto simp: poll_ops_def Let_def split: side.splits)
  then show ?case using Cons by (simp add: covered_append)
qed simp

lemma splice_covered: "covered H (splice_ops tcp ops connect verbose host port leftover hs s)"
proof -
  have "covered (H \<union> {host}) (opened_ops host peer)" "\<Union> (opens ` set (opened_ops host peer)) = {}" for peer
    by (auto simp: opened_ops_def split: sum.splits)
  moreover have "covered H (open_ops verbose host)" "\<Union> (opens ` set (open_ops verbose host)) = {host}"
    by (auto simp: open_ops_def)
  ultimately show ?thesis
    unfolding splice_ops_def
    by (auto simp: covered_append poll_ops_covered split: sum.splits prod.splits)
qed

end
