(* ===== verification/Task_Effects.thy ===== *)
theory Task_Effects
  imports Effects
begin

text \<open>
  The sequences of atomic operations of a whole task: the UDP relay, the upstream stream
  of an HTTP request, and the task of a client connection. Each is a function of what
  the task meets on its sockets alone, and never of the registry; so another task may
  change the registry in between and the sequence stays the same.
\<close>

section \<open>The UDP relay\<close>

text \<open>
  The relay's own maps decide what it does; the handles in them do not. \<open>erase\<close> forgets
  them, and the log.
\<close>

definition erase :: "relay \<Rightarrow> relay" where
  "erase l = l\<lparr>r_log := None, r_endpoints := map (\<lambda>(k, _). (k, 0)) (r_endpoints l)\<rparr>"

definition host_ops :: "string \<Rightarrow> relay \<Rightarrow> reg_op list \<times> relay" where
  "host_ops host l =
     (if map_of (r_endpoints l) host = None
      then ([Get_Endpoint host, Add_Conn host], l\<lparr>r_endpoints := AList.update host 0 (r_endpoints l)\<rparr>)
      else ([], l))"

definition destination :: "net \<Rightarrow> string \<Rightarrow> u16 \<Rightarrow> relay \<Rightarrow> relay \<times> socket_addr option" where
  "destination n host port l =
     (case map_of (r_resolved l) (host, port) of
        Some addr \<Rightarrow> (l, Some addr)
      | None \<Rightarrow>
          (case lookup_host n host port of
             Inr (addr # _) \<Rightarrow> (l\<lparr>r_resolved := AList.update (host, port) addr (r_resolved l)\<rparr>, Some addr)
           | _ \<Rightarrow> (l, None)))"

definition out_ops :: "net \<Rightarrow> bytes \<Rightarrow> relay \<Rightarrow> reg_op list \<times> relay" where
  "out_ops n raw l =
     (case parse_datagram raw of
        Inl _ \<Rightarrow> ([], l)
      | Inr d \<Rightarrow>
          (case destination n (dg_host d) (dg_port d) l of
             (l, None) \<Rightarrow> ([], l)
           | (l, Some dest) \<Rightarrow>
               (case host_ops (dg_host d) l of (as, l) \<Rightarrow>
                  (case send_upstream n (payload d) dest of
                     Inr sent \<Rightarrow>
                       (as @ [Add_Out (dg_host d) (of_nat sent), Note_Ip (dg_host d) (sa_ip dest)],
                        l\<lparr>r_names := AList.update (sa_ip dest) (dg_host d) (r_names l)\<rparr>)
                   | Inl _ \<Rightarrow> (as, l)))))"

definition back_ops :: "net \<Rightarrow> socket_addr \<Rightarrow> bytes \<Rightarrow> relay \<Rightarrow> reg_op list \<times> relay" where
  "back_ops n from data l =
     (case client_addr l of
        None \<Rightarrow> ([], l)
      | Some addr \<Rightarrow>
          (let host = reply_host l (sa_ip from) in
           case host_ops host l of (as, l) \<Rightarrow>
             (case send_client n (encode_datagram from data []) addr of
                Inr _ \<Rightarrow> (as @ [Add_In host (of_nat (length data))], l)
              | Inl _ \<Rightarrow> (as, l))))"

fun event_ops :: "net \<Rightarrow> event \<Rightarrow> relay \<Rightarrow> (reg_op list \<times> relay) option" where
  "event_ops n (FromClient data addr) l = Some (out_ops n (take MAX_DATAGRAM data) (l\<lparr>client_addr := Some addr\<rparr>))"
| "event_ops n (FromUpstream data addr) l = Some (back_ops n addr (take MAX_DATAGRAM data) l)"
| "event_ops n RecvFailed l = None"

fun relay_ops :: "(net \<times> event) list \<Rightarrow> relay \<Rightarrow> reg_op list" where
  "relay_ops [] l = []"
| "relay_ops ((n, e) # es) l = (case event_ops n e l of None \<Rightarrow> [] | Some (as, l) \<Rightarrow> as @ relay_ops es l)"

lemma map_of_erase: "map_of (map (\<lambda>(k, _). (k, 0 :: handle)) ps) k = map_option (\<lambda>_. 0) (map_of ps k)"
  by (induction ps) auto

lemma erase_update:
  "map (\<lambda>(k, _). (k, 0 :: handle)) (AList.update k v ps) = AList.update k 0 (map (\<lambda>(k, _). (k, 0)) ps)"
  by (induction ps) auto

lemma erase_simps [simp]:
  "r_resolved (erase l) = r_resolved l" "r_names (erase l) = r_names l" "client_addr (erase l) = client_addr l"
  "reply_host (erase l) ip = reply_host l ip"
  "map_of (r_endpoints (erase l)) k = map_option (\<lambda>_. 0) (map_of (r_endpoints l) k)"
  "erase (l\<lparr>r_resolved := m\<rparr>) = erase l\<lparr>r_resolved := m\<rparr>" "erase (l\<lparr>r_names := m'\<rparr>) = erase l\<lparr>r_names := m'\<rparr>"
  "erase (l\<lparr>client_addr := a\<rparr>) = erase l\<lparr>client_addr := a\<rparr>"
  by (simp_all add: erase_def reply_host_def map_of_erase)

text \<open>The handles the relay keeps are those of the registry.\<close>

definition handles_agree :: "relay_world \<Rightarrow> bool" where
  "handles_agree w \<longleftrightarrow> map_of (r_endpoints (rl w)) \<subseteq>\<^sub>m map_of (endpoints (rg w))"

lemma handles_agree_simps [simp]:
  "handles_agree (relay_event m w) = handles_agree w"
  "handles_agree (w\<lparr>scratch := bs\<rparr>) = handles_agree w"
  "handles_agree (w\<lparr>wire := ps\<rparr>) = handles_agree w"
  "handles_agree (w\<lparr>rg := upd_cell h f (rg w)\<rparr>) = handles_agree w"
  "handles_agree (w\<lparr>rl := (rl w)\<lparr>r_resolved := m1\<rparr>\<rparr>) = handles_agree w"
  "handles_agree (w\<lparr>rl := (rl w)\<lparr>r_names := m2\<rparr>\<rparr>) = handles_agree w"
  "handles_agree (w\<lparr>rl := (rl w)\<lparr>client_addr := a\<rparr>\<rparr>) = handles_agree w"
  by (simp_all add: handles_agree_def)

lemma endpoint_keeps: "map_of (endpoints r) k = Some h \<Longrightarrow> map_of (endpoints (fst (endpoint host r))) k = Some h"
  by (auto simp: endpoint_def update_conv' split: option.splits)

lemma relay_endpoint_ops:
  assumes "handles_agree w" and "relay_endpoint host w = (w', h)"
  shows "host_ops host (erase (rl w)) = (as, l') \<Longrightarrow> rg w' = do_ops as (rg w) \<and> erase (rl w') = l'"
    and "handles_agree w'" and "map_of (endpoints (rg w')) host = Some h"
proof -
  have *: "(host_ops host (erase (rl w)) = (as, l') \<longrightarrow> rg w' = do_ops as (rg w) \<and> erase (rl w') = l')
      \<and> handles_agree w' \<and> map_of (endpoints (rg w')) host = Some h"
  proof (cases "map_of (r_endpoints (rl w)) host")
    case None
    obtain r k where e: "endpoint host (rg w) = (r, k)" by fastforce
    then have k: "map_of (endpoints r) host = Some k" using endpoint_handle [of host "rg w"] by simp
    have w': "w' = w\<lparr>rg := upd_cell k add_connection r,
        rl := (rl w)\<lparr>r_endpoints := AList.update host k (r_endpoints (rl w))\<rparr>\<rparr>" "h = k"
      using assms(2) None e by (auto simp: relay_endpoint_def)
    have "map_of (r_endpoints (rl w)) k' = Some v \<Longrightarrow> map_of (endpoints r) k' = Some v" for k' v
      using assms(1) endpoint_keeps [of "rg w" k' v host] e map_le_SomeD by (fastforce simp: handles_agree_def)
    then have "handles_agree w'" using k by (auto simp: w' handles_agree_def map_le_def update_conv')
    then show ?thesis
      using None e k by (auto simp: w' host_ops_def at_host_handle erase_def erase_update map_of_erase)
  next
    case (Some k)
    then have "map_of (endpoints (rg w)) host = Some k"
      using assms(1) map_le_SomeD by (fastforce simp: handles_agree_def)
    then show ?thesis using Some assms by (auto simp: relay_endpoint_def host_ops_def)
  qed
  then show "host_ops host (erase (rl w)) = (as, l') \<Longrightarrow> rg w' = do_ops as (rg w) \<and> erase (rl w') = l'"
    "handles_agree w'" "map_of (endpoints (rg w')) host = Some h" by blast+
qed

lemma resolve_destination:
  assumes "resolve n host port w = (w', dest)"
  shows "destination n host port (erase (rl w)) = (erase (rl w'), dest)" and "rg w' = rg w"
    and "handles_agree w' = handles_agree w"
  using assms
  by (cases "map_of (r_resolved (rl w)) (host, port)";
      auto simp: resolve_def destination_def note_msg_def split: sum.splits list.splits)+

definition tracks :: "relay_world \<Rightarrow> reg_op list \<times> relay \<Rightarrow> relay_world \<Rightarrow> bool" where
  "tracks w asl w' \<longleftrightarrow> rg w' = do_ops (fst asl) (rg w) \<and> erase (rl w') = snd asl \<and> handles_agree w'"

lemma tracks_event [simp]: "tracks w asl (relay_event m w') = tracks w asl w'"
  by (simp add: tracks_def)

lemma forward_out_tracks:
  assumes "handles_agree w"
  shows "tracks w (out_ops n raw (erase (rl w))) (forward_out n raw w)"
proof (cases "parse_datagram raw")
  case (Inl e)
  then show ?thesis using assms by (simp add: forward_out_def out_ops_def note_msg_def) (simp add: tracks_def)
next
  case (Inr d)
  obtain w1 dest where r: "resolve n (dg_host d) (dg_port d) w = (w1, dest)" by fastforce
  note d1 = resolve_destination [OF r]
  show ?thesis
  proof (cases dest)
    case None
    then show ?thesis using Inr r d1 assms by (simp add: forward_out_def out_ops_def tracks_def)
  next
    case (Some a)
    obtain w2 h where e: "relay_endpoint (dg_host d) w1 = (w2, h)" by fastforce
    obtain as l' where o: "host_ops (dg_host d) (erase (rl w1)) = (as, l')" by fastforce
    have w1: "handles_agree w1" using d1(3) assms by simp
    note d2 = relay_endpoint_ops(1) [OF w1 e o] relay_endpoint_ops(2,3) [OF w1 e]
    have "do_ops [Add_Out (dg_host d) x, Note_Ip (dg_host d) ip] (rg w2) =
        upd_cell h (observe_ip ip) (upd_cell h (add_egress x) (rg w2))" for x ip
      using d2(3) by (simp add: at_host_handle)
    then show ?thesis
      using Inr r d1 Some e o d2
      by (cases "send_upstream n (payload d) a")
         (auto simp: forward_out_def out_ops_def tracks_def note_msg_def handles_agree_def)
  qed
qed

lemma forward_back_tracks:
  assumes "handles_agree w"
  shows "tracks w (back_ops n from data (erase (rl w))) (forward_back n from data w)"
proof (cases "client_addr (rl w)")
  case None
  then show ?thesis using assms by (simp add: forward_back_def back_ops_def tracks_def)
next
  case (Some addr)
  let ?host = "reply_host (rl w) (sa_ip from)"
  obtain w1 h where e: "relay_endpoint ?host w = (w1, h)" by fastforce
  obtain as l' where o: "host_ops ?host (erase (rl w)) = (as, l')" by fastforce
  note d1 = relay_endpoint_ops(1) [OF assms e o] relay_endpoint_ops(2,3) [OF assms e]
  have "encode_datagram from data (scratch w1) = encode_datagram from data []" by (simp add: encode_datagram_def)
  then show ?thesis
    using Some e o d1
    by (cases "send_client n (encode_datagram from data []) addr")
       (simp_all add: forward_back_def back_ops_def tracks_def note_msg_def Let_def at_host_handle handles_agree_def)
qed

lemma run_relay_ops:
  "handles_agree w \<Longrightarrow> rg (run_relay es w) = do_ops (relay_ops es (erase (rl w))) (rg w)"
proof (induction es w rule: run_relay.induct)
  case (2 n e es w)
  have step: "relay_step n e w = Some w' \<Longrightarrow> \<exists>asl. event_ops n e (erase (rl w)) = Some asl \<and> tracks w asl w'" for w'
  proof (cases e)
    case (FromClient data addr)
    then show "relay_step n e w = Some w' \<Longrightarrow> ?thesis"
      using forward_out_tracks [of "w\<lparr>rl := (rl w)\<lparr>client_addr := Some addr\<rparr>\<rparr>" n "take MAX_DATAGRAM data"] 2(2)
      by (auto simp: tracks_def)
  next
    case (FromUpstream data addr)
    then show "relay_step n e w = Some w' \<Longrightarrow> ?thesis" using forward_back_tracks [OF 2(2), of n addr "take MAX_DATAGRAM data"] by auto
  qed simp
  show ?case
  proof (cases "relay_step n e w")
    case None
    then show ?thesis by (cases e) simp_all
  next
    case (Some w')
    with step obtain as l where "event_ops n e (erase (rl w)) = Some (as, l)" "tracks w (as, l) w'" by fastforce
    then show ?thesis using 2(1) [OF Some] Some by (simp add: tracks_def)
  qed
qed simp

text \<open>The relay opens a row before it writes to it, and holds no guard of its own.\<close>

definition quiet :: "reg_op list \<Rightarrow> bool" where
  "quiet as \<longleftrightarrow> Guard_Up \<notin> set as \<and> Guard_Down \<notin> set as"

lemma quiet_append [simp]: "quiet (as @ bs) \<longleftrightarrow> quiet as \<and> quiet bs"
  by (auto simp: quiet_def)

lemma quiet_simps [simp]: "quiet []" "quiet (a # as) \<longleftrightarrow> a \<noteq> Guard_Up \<and> a \<noteq> Guard_Down \<and> quiet as"
  by (auto simp: quiet_def)

definition relay_open :: "relay \<Rightarrow> string set" where
  "relay_open l = dom (map_of (r_endpoints l))"

abbreviation "opened_by as \<equiv> \<Union> (opens ` set as)"

definition extends :: "string set \<Rightarrow> reg_op list \<times> relay \<Rightarrow> bool" where
  "extends H asl \<longleftrightarrow> covered H (fst asl) \<and> quiet (fst asl) \<and> relay_open (snd asl) \<subseteq> H \<union> opened_by (fst asl)"

lemma host_ops_extends:
  assumes "host_ops host l = (as, l')" and "relay_open l \<subseteq> H"
  shows "extends H (as, l')" and "host \<in> H \<union> opened_by as"
  using assms by (auto simp: host_ops_def extends_def relay_open_def update_conv' split: if_splits)

lemma out_ops_extends: "relay_open l \<subseteq> H \<Longrightarrow> extends H (out_ops n raw l)"
proof -
  assume H: "relay_open l \<subseteq> H"
  show "extends H (out_ops n raw l)"
  proof (cases "parse_datagram raw")
    case (Inr d)
    obtain l1 dest where r: "destination n (dg_host d) (dg_port d) l = (l1, dest)" by fastforce
    then have l1: "relay_open l1 \<subseteq> H"
      using H by (auto simp: destination_def relay_open_def split: option.splits sum.splits list.splits)
    obtain as l2 where o: "host_ops (dg_host d) l1 = (as, l2)" by fastforce
    from host_ops_extends [OF o l1] show ?thesis
      using Inr r o l1
      by (auto simp: out_ops_def extends_def covered_append relay_open_def split: option.splits sum.splits)
  qed (use H in \<open>simp add: out_ops_def extends_def\<close>)
qed

lemma back_ops_extends: "relay_open l \<subseteq> H \<Longrightarrow> extends H (back_ops n from data l)"
proof -
  assume H: "relay_open l \<subseteq> H"
  obtain as l2 where o: "host_ops (reply_host l (sa_ip from)) l = (as, l2)" by fastforce
  from host_ops_extends [OF o H] show ?thesis
    using o H by (auto simp: back_ops_def extends_def covered_append Let_def split: option.splits sum.splits)
qed

lemma relay_ops_covered: "relay_open l \<subseteq> H \<Longrightarrow> covered H (relay_ops es l) \<and> quiet (relay_ops es l)"
proof (induction es l arbitrary: H rule: relay_ops.induct)
  case (2 n e es l)
  have ext: "extends H asl" if "event_ops n e l = Some asl" for asl
  proof (cases e)
    case (FromClient data addr)
    then show ?thesis
      using that out_ops_extends [of "l\<lparr>client_addr := Some addr\<rparr>" H] 2(2) by (auto simp: relay_open_def)
  next
    case (FromUpstream data addr)
    then show ?thesis using that back_ops_extends [OF 2(2)] by auto
  qed (use that in simp)
  show ?case
  proof (cases "event_ops n e l")
    case (Some asl)
    then obtain as l' where asl: "event_ops n e l = Some (as, l')" by (cases asl) auto
    from ext [OF this] have x: "covered H as" "quiet as" "relay_open l' \<subseteq> H \<union> opened_by as"
      by (simp_all add: extends_def)
    from 2(1) [OF asl refl x(3)] show ?thesis using x asl by (simp add: covered_append)
  qed simp
qed simp

section \<open>Upstream streams\<close>

text \<open>
  The connector's call, the polls that hyper makes on the stream, and its drop. The
  guard is taken when the stream is built and released when it is dropped.
\<close>

definition upstream_ops ::
  "'s stream_ops \<Rightarrow> bool \<Rightarrow> string \<Rightarrow> 's tcp_upstream \<Rightarrow> poll_op list \<Rightarrow> reg_op list" where
  "upstream_ops ops verbose host up ps =
     open_ops verbose host @ opened_ops host (tu_peer up) @ [Guard_Up]
     @ concat (map (poll_ops Upstream host) (snd (run_polls ops ps (tu_stream up)))) @ [Guard_Down]"

lemma upstream_ops_run:
  assumes "uri_authority u = Some auth"
    and "split_authority auth (if uri_scheme u = Some ''https'' then 443 else 80) = (host, port)"
    and "connect host port = Ok up" and "tu_nodelay up = Ok ()"
  shows "\<exists>st. connector_call connect verbose u (r, out) = Ok st
    \<and> fst (drop_counted_stream (fst (run_polls (counted_stream_ops ops) ps st)))
        = do_ops (upstream_ops ops verbose host up ps) r"
proof -
  obtain r1 h where e: "endpoint host r = (r1, h)" by fastforce
  obtain r2 l where l: "shared_conn_log verbose (target_text host port) r1 = (r2, l)" by fastforce
  note o = do_open_ops [OF e l]
  obtain r3 out3 where c: "count_opened h l host port (tu_peer up) (r2, out) = (r3, out3)" by fastforce
  have r3: "do_ops (opened_ops host (tu_peer up)) r2 = r3" "map_of (endpoints r3) host = Some h"
    using do_opened_ops(1) [OF o(2), of "tu_peer up" l port out] do_opened_ops(2) [OF o(2), of "tu_peer up"] c o(2)
    by simp_all
  let ?c = "new_counting (tu_stream up) h Upstream l" and ?cl = "map_option (\<lambda>x. (x, h)) l"
  obtain s' os where run: "run_polls ops ps (c_inner ?c) = (s', os)" by fastforce
  then have run': "run_polls ops ps (tu_stream up) = (s', os)" by (simp add: new_counting_def)
  have sd: "c_stats ?c = h" "c_side ?c = Upstream" by (simp_all add: new_counting_def)
  obtain out' cl' where "run_polls (counted_stream_ops ops) ps ((?c, track_open r3, out3), ?cl) =
      (((?c\<lparr>c_inner := s'\<rparr>, upd_cell h (tally Upstream (length (all_read os)) (all_written os)) (track_open r3), out'), cl'), os)"
    using counted_stream_run [OF run, of "track_open r3" out3 ?cl] unfolding sd by blast
  moreover have "fst (drop_counted_stream ((c', r', o'), cl')) = drop_guard r'" for c' and r' and o' and cl'
    by (simp add: drop_counted_stream_def drop_close_log_closes)
  moreover have tr: "map_of (endpoints (track_open r3)) host = Some h" using r3(2) by (simp add: track_open_def)
  moreover have "do_ops (upstream_ops ops verbose host up ps) r =
      drop_guard (upd_cell h (tally Upstream (length (all_read os)) (all_written os)) (track_open r3))"
    using do_polls_ops [OF tr, of Upstream os] r3 o(1) run' by (simp add: upstream_ops_def)
  moreover have "connector_call connect verbose u (r, out) = Ok ((?c, track_open r3, out3), ?cl)"
    using assms e l c by (simp add: connector_call_def)
  ultimately show ?thesis by simp
qed

section \<open>The task of a client connection\<close>

definition udp_ops :: "('s, 'x) tcp_ops_scheme \<Rightarrow> association \<Rightarrow> bool \<Rightarrow> 's \<Rightarrow> reg_op list" where
  "udp_ops tcp as verbose s =
     (if verbose then [New_Id] else []) @
     (case bind_relay (as_client_side as) (as_upstream as) None of
        Inl _ \<Rightarrow> []
      | Inr rel \<Rightarrow>
          (case as_local_addr as of
             Inl _ \<Rightarrow> []
           | Inr bound \<Rightarrow>
               (case reply_bound tcp s REP_SUCCESS bound of
                  (_, Inl _) \<Rightarrow> []
                | (_, Inr _) \<Rightarrow> relay_ops (as_events as) rel)))"

definition socks_ops ::
  "('s, 'x) tcp_ops_scheme \<Rightarrow> 's stream_ops \<Rightarrow> connector \<Rightarrow> association \<Rightarrow> bool \<Rightarrow> 's \<Rightarrow> reg_op list" where
  "socks_ops tcp ops connect as verbose s =
     (case accept tcp s of
        (s, Inl _) \<Rightarrow> []
      | (s, Inr (Connect req)) \<Rightarrow> splice_ops tcp ops connect verbose (req_host req) (req_port req) [] Hs_Socks s
      | (s, Inr (UdpAssociate _)) \<Rightarrow> udp_ops tcp as verbose s)"

definition handle_ops ::
  "('s, 'x) tcp_ops_scheme \<Rightarrow> 's stream_ops \<Rightarrow> connector \<Rightarrow> association \<Rightarrow> ('s rewind \<Rightarrow> reg_op list) \<Rightarrow> bool
    \<Rightarrow> 's \<Rightarrow> reg_op list" where
  "handle_ops tcp ops connect as http_ops verbose s =
     (case set_nodelay tcp s of
        Inl _ \<Rightarrow> []
      | Inr _ \<Rightarrow>
          (case peek tcp s of
             (s, Inl _) \<Rightarrow> []
           | (s, Inr first) \<Rightarrow>
               if first = [] then []
               else if first ! 0 = GREETING_BYTE then socks_ops tcp ops connect as verbose s
               else
                 (case read_head tcp s of
                    (s, Inl _) \<Rightarrow> []
                  | (s, Inr head) \<Rightarrow>
                      (case request_line head of
                         None \<Rightarrow> []
                       | Some (mth, tgt) \<Rightarrow>
                           if eq_ignore_ascii_case mth ''CONNECT'' then
                             (case split_authority tgt 443 of (host, port) \<Rightarrow>
                                splice_ops tcp ops connect verbose host port (head_body head) Hs_Http s)
                           else http_ops (new_rewind head s)))))"

definition connection_ops ::
  "('s, 'x) tcp_ops_scheme \<Rightarrow> 's stream_ops \<Rightarrow> connector \<Rightarrow> association \<Rightarrow> ('s rewind \<Rightarrow> reg_op list) \<Rightarrow> bool
    \<Rightarrow> 's \<Rightarrow> reg_op list" where
  "connection_ops tcp ops connect as http_ops verbose s =
     [Guard_Up] @ handle_ops tcp ops connect as http_ops verbose s @ [Guard_Down]"

text \<open>
  The shape of a task: rows are opened before they are written, one guard is taken and
  its release is the last operation. A client task takes it first.
\<close>

definition is_guard :: "reg_op \<Rightarrow> bool" where
  "is_guard a \<longleftrightarrow> a = Guard_Up \<or> a = Guard_Down"

definition task_shape :: "reg_op list \<Rightarrow> bool" where
  "task_shape as \<longleftrightarrow> covered {} as \<and> filter is_guard as = [Guard_Up, Guard_Down] \<and> last as = Guard_Down"

definition client_task :: "reg_op list \<Rightarrow> bool" where
  "client_task as \<longleftrightarrow> task_shape as \<and> hd as = Guard_Up"

lemma quiet_filter: "quiet as \<longleftrightarrow> filter is_guard as = []"
  by (auto simp: quiet_def is_guard_def filter_empty_conv)

lemma shared_conn_log_ops: "fst (shared_conn_log verbose tgt r) = do_ops (if verbose then [New_Id] else []) r"
  by (simp add: shared_conn_log_def split: prod.split)

lemma relay_udp_ops:
  assumes "relay_udp tcp as verbose w = Some (w', res)"
  shows "w_reg w' = do_ops (udp_ops tcp as verbose (client w)) (w_reg w)"
proof -
  obtain r l where l: "shared_conn_log verbose ''udp'' (w_reg w) = (r, l)" by fastforce
  then have r: "do_ops (if verbose then [New_Id] else []) (w_reg w) = r"
    using shared_conn_log_ops [of verbose "''udp''" "w_reg w"] by simp
  have relay: "rg (run_relay es (new_world (new_relay l) r)) = do_ops (relay_ops es (new_relay None)) r" for es
    using run_relay_ops [of "new_world (new_relay l) r" es]
    by (simp add: handles_agree_def new_world_def new_relay_def erase_def)
  show ?thesis
    using assms
    by (auto simp: relay_udp_def udp_ops_def l r relay bind_relay_def Let_def
        split: sum.splits prod.splits option.splits)
qed

lemma serve_socks_ops:
  assumes "serve_socks tcp ops connect as se verbose w = Some (w', res)"
  shows "w_reg w' = do_ops (socks_ops tcp ops connect as verbose (client w)) (w_reg w)"
proof -
  obtain s r where acc: "accept tcp (client w) = (s, r)" by fastforce
  show ?thesis
  proof (cases r)
    case (Inl e)
    then show ?thesis using assms acc by (auto simp: serve_socks_def socks_ops_def split: prod.splits)
  next
    case (Inr c)
    then show ?thesis
    proof (cases c)
      case (Connect req)
      then show ?thesis
        using assms acc Inr splice_atomic [of tcp ops connect verbose "req_host req" "req_port req" "[]" Hs_Socks "w\<lparr>client := s\<rparr>"]
        by (simp add: serve_socks_def socks_ops_def)
    next
      case (UdpAssociate req)
      then show ?thesis
        using assms acc Inr relay_udp_ops [of tcp as verbose "w\<lparr>client := s\<rparr>" w' res]
        by (simp add: serve_socks_def socks_ops_def)
    qed
  qed
qed

lemma handle_connection_ops:
  assumes "\<And>rw w w' res. serve rw w = Some (w', res) \<Longrightarrow> w_reg w' = do_ops (http_ops rw) (w_reg w)"
    and "handle_connection tcp ops connect as show_err serve verbose w = Some (w', res)"
  shows "w_reg w' = do_ops (handle_ops tcp ops connect as http_ops verbose (client w)) (w_reg w)"
proof (cases "set_nodelay tcp (client w)")
  case (Inl e)
  then show ?thesis using assms(2) by (auto simp: handle_connection_def handle_ops_def)
next
  case nd: (Inr u)
  obtain s r where p: "peek tcp (client w) = (s, r)" by fastforce
  consider (early) "isl r \<or> r = Ok []" | (socks) bs where "r = Ok bs" "bs \<noteq> []" "bs ! 0 = GREETING_BYTE"
    | (http) bs where "r = Ok bs" "bs \<noteq> []" "bs ! 0 \<noteq> GREETING_BYTE"
    by (cases r) auto
  then show ?thesis
  proof cases
    case early
    then show ?thesis using assms(2) nd p by (cases r) (auto simp: handle_connection_def handle_ops_def)
  next
    case socks
    then show ?thesis
      using assms(2) nd p serve_socks_ops [of tcp ops connect as show_err verbose "w\<lparr>client := s\<rparr>" w' res]
      by (simp add: handle_connection_def handle_ops_def)
  next
    case http
    obtain s2 r2 where h: "read_head tcp s = (s2, r2)" by fastforce
    show ?thesis
    proof (cases "r2")
      case (Inl e)
      then show ?thesis using assms(2) nd p http h by (auto simp: handle_connection_def handle_ops_def)
    next
      case (Inr head)
      show ?thesis
      proof (cases "request_line head")
        case None
        then show ?thesis using assms(2) nd p http h Inr by (auto simp: handle_connection_def handle_ops_def)
      next
        case (Some mt)
        obtain host port where sp: "split_authority (snd mt) 443 = (host, port)" by fastforce
        note splice = splice_atomic [of tcp ops connect verbose host port "head_body head" Hs_Http "w\<lparr>client := s2\<rparr>"]
        note plain = assms(1) [of "new_rewind head s2" "w\<lparr>client := s2\<rparr>" w' res]
        show ?thesis
          using assms(2) nd p http h Inr Some sp splice plain
          by (cases mt; cases "eq_ignore_ascii_case (fst mt) ''CONNECT''")
             (simp_all add: handle_connection_def handle_ops_def)
      qed
    qed
  qed
qed

text \<open>The operations of every path are covered and hold no guard of their own.\<close>

lemma open_ops_quiet [simp]: "quiet (open_ops verbose host)" "quiet (opened_ops host peer)"
  by (auto simp: open_ops_def opened_ops_def split: sum.splits)

lemma polls_quiet [simp]: "quiet (concat (map (poll_ops sd host) os))"
  by (induction os) (auto simp: poll_ops_def Let_def split: side.splits)

lemma splice_quiet: "quiet (splice_ops tcp ops connect verbose host port leftover hs s)"
  by (auto simp: splice_ops_def split: sum.splits prod.splits)

lemma udp_ops_covered: "covered H (udp_ops tcp as verbose s) \<and> quiet (udp_ops tcp as verbose s)"
  using relay_ops_covered [of "new_relay None" _ "as_events as"]
  by (auto simp: udp_ops_def covered_append bind_relay_def relay_open_def new_relay_def split: sum.splits prod.splits)

lemma handle_ops_covered:
  assumes "\<And>rw. covered {} (http_ops rw) \<and> quiet (http_ops rw)"
  shows "covered {} (handle_ops tcp ops connect as http_ops verbose s) \<and> quiet (handle_ops tcp ops connect as http_ops verbose s)"
  using assms
  by (auto simp: handle_ops_def socks_ops_def splice_covered splice_quiet udp_ops_covered
      split: sum.splits prod.splits option.splits command.splits)

lemma client_task_body:
  assumes "covered {} body" and "quiet body"
  shows "client_task ([Guard_Up] @ body @ [Guard_Down])"
proof -
  have "filter is_guard body = []" using assms(2) by (simp add: quiet_filter)
  then show ?thesis
    using assms(1) by (auto simp: client_task_def task_shape_def covered_append is_guard_def)
qed

lemma upstream_task: "task_shape (upstream_ops ops verbose host up ps)"
proof -
  let ?polls = "concat (map (poll_ops Upstream host) (snd (run_polls ops ps (tu_stream up))))"
  have q: "filter is_guard (open_ops verbose host) = []" "filter is_guard (opened_ops host (tu_peer up)) = []"
      "filter is_guard ?polls = []"
    by (simp_all only: quiet_filter [symmetric] open_ops_quiet polls_quiet)
  have "covered H (opened_ops host peer)" if "host \<in> H" for H peer
    using that by (auto simp: opened_ops_def split: sum.splits)
  moreover have "covered {} (open_ops verbose host)" "opened_by (open_ops verbose host) = {host}"
    by (auto simp: open_ops_def)
  ultimately have "covered {} (upstream_ops ops verbose host up ps)"
    by (simp add: upstream_ops_def covered_append poll_ops_covered)
  moreover have "filter is_guard (upstream_ops ops verbose host up ps) = [Guard_Up, Guard_Down]"
    unfolding upstream_ops_def filter_append q by (simp add: is_guard_def)
  ultimately show ?thesis by (simp add: task_shape_def upstream_ops_def)
qed

section \<open>Properties\<close>


text \<open>A SOCKS5 client that asks for a connection to \<open>b.dev\<close>.\<close>

definition demo_request :: bytes where
  "demo_request = [5, 1, 0, 5, 1, 0, 3, 5] @ str_bytes ''b.dev'' @ [1, 187, 7, 8]"


end
