(* ===== verification/Server.thy ===== *)
theory Server
  imports Task_Effects Main_Run
begin

text \<open>
  The accept loop of \<open>Proxy::bind\<close> (\<open>src/proxy.rs\<close>) and the interleaving of the tasks it
  starts: a state machine whose steps are an accepted connection, an upstream stream that
  a running task opens, one atomic operation of one task, and the drop of the \<open>Proxy\<close>,
  which stops the accept loop. The scheduler may choose any order. \<open>spawned\<close> records what
  every task was started with; the program keeps no such list, the theorems are stated
  over it.
\<close>

section \<open>State machine\<close>

record server =
  sv_reg :: registry
  tasks :: "reg_op list list"
  spawned :: "reg_op list list"
  accepting :: bool

text \<open>
  \<open>Proxy::bind\<close>: the first two arguments are what binding the listener and its
  \<open>local_addr\<close> return. The proxy starts over the registry it is given.
\<close>

definition serving :: "registry \<Rightarrow> server" where
  "serving r = \<lparr>sv_reg = r, tasks = [], spawned = [], accepting = True\<rparr>"

definition bind_proxy ::
  "(io_error, unit) result \<Rightarrow> (io_error, socket_addr) result \<Rightarrow> registry \<Rightarrow> (io_error, socket_addr \<times> server) result" where
  "bind_proxy listener local_addr r =
     (case listener of
        Inl e \<Rightarrow> Err e
      | Inr _ \<Rightarrow>
          (case local_addr of
             Inl e \<Rightarrow> Err e
           | Inr addr \<Rightarrow> Ok (addr, serving r)))"

abbreviation "bound_server \<equiv> serving new_registry"

datatype server_event =
    Accepted "reg_op list"
  | Accept_Failed
  | Upstream_Opened nat "reg_op list"
  | Ran nat
  | Proxy_Dropped

definition spawn :: "reg_op list \<Rightarrow> server \<Rightarrow> server" where
  "spawn as s = s\<lparr>tasks := tasks s @ [as], spawned := spawned s @ [as]\<rparr>"

definition drop_proxy :: "server \<Rightarrow> server" where
  "drop_proxy s = s\<lparr>accepting := False\<rparr>"

inductive server_step :: "server \<Rightarrow> server_event \<Rightarrow> server \<Rightarrow> bool" where
  accepted: "accepting s \<Longrightarrow> client_task as \<Longrightarrow> server_step s (Accepted as) (spawn as s)"
| accept_failed: "accepting s \<Longrightarrow> server_step s Accept_Failed s"
| upstream_opened: "i < length (tasks s) \<Longrightarrow> tasks s ! i \<noteq> [] \<Longrightarrow> task_shape as \<Longrightarrow>
    server_step s (Upstream_Opened i as) (spawn as s)"
| ran: "i < length (tasks s) \<Longrightarrow> tasks s ! i = a # as \<Longrightarrow>
    server_step s (Ran i) (s\<lparr>sv_reg := do_op a (sv_reg s), tasks := (tasks s)[i := as]\<rparr>)"
| proxy_dropped: "server_step s Proxy_Dropped (drop_proxy s)"

inductive server_run :: "server \<Rightarrow> server_event list \<Rightarrow> server \<Rightarrow> bool" where
  idle: "server_run s [] s"
| then_step: "server_run s es s' \<Longrightarrow> server_step s' e s'' \<Longrightarrow> server_run s (es @ [e]) s''"

code_pred (modes: i \<Rightarrow> i \<Rightarrow> o \<Rightarrow> bool as step_from) server_step .

inductive_cases server_stepE: "server_step s e s'"
inductive_simps server_run_Nil [simp]: "server_run s [] s'"

definition reachable :: "server \<Rightarrow> bool" where
  "reachable s \<longleftrightarrow> (\<exists>listener local_addr addr s0 es.
     bind_proxy listener local_addr new_registry = Ok (addr, s0) \<and> server_run s0 es s)"

lemma reachable_iff: "reachable s \<longleftrightarrow> (\<exists>es. server_run bound_server es s)"
proof
  assume "reachable s"
  then obtain listener local_addr addr s0 es where
    "bind_proxy listener local_addr new_registry = Ok (addr, s0)" "server_run s0 es s"
    unfolding reachable_def by blast
  then show "\<exists>es. server_run bound_server es s"
    by (cases listener; cases local_addr) (auto simp: bind_proxy_def)
next
  assume "\<exists>es. server_run bound_server es s"
  moreover have "bind_proxy (Ok ()) (Ok addr) new_registry = Ok (addr, bound_server)" for addr
    by (simp add: bind_proxy_def)
  ultimately show "reachable s" unfolding reachable_def by blast
qed

text \<open>A task that holds its guard, and one that has not come to take it.\<close>

definition holds_guard :: "reg_op list \<Rightarrow> bool" where
  "holds_guard as \<longleftrightarrow> Guard_Down \<in> set as \<and> Guard_Up \<notin> set as"

definition before_guard :: "reg_op list \<Rightarrow> bool" where
  "before_guard as \<longleftrightarrow> Guard_Up \<in> set as"

section \<open>Invariant\<close>

text \<open>What a task has left: a suffix of what it was started with, over rows already opened.\<close>

definition left_over :: "registry \<Rightarrow> reg_op list \<Rightarrow> reg_op list \<Rightarrow> bool" where
  "left_over r as rest \<longleftrightarrow> task_shape as \<and> (\<exists>pre. as = pre @ rest \<and> opened_by pre \<subseteq> dom (row r))"

definition counted_total :: "(reg_op list \<Rightarrow> u64) \<Rightarrow> reg_op list list \<Rightarrow> u64" where
  "counted_total g ass = sum_list (map g ass)"

definition server_inv :: "server \<Rightarrow> bool" where
  "server_inv s \<longleftrightarrow> registry_ok (sv_reg s)
     \<and> list_all2 (left_over (sv_reg s)) (spawned s) (tasks s)
     \<and> (\<forall>f. is_counter f \<longrightarrow>
          (\<forall>h. counted_at f (sv_reg s) h + counted_total (gained f h) (tasks s) = counted_total (gained f h) (spawned s))
          \<and> total f (sv_reg s) + counted_total (gained_all f) (tasks s) = counted_total (gained_all f) (spawned s))
     \<and> open_connections (sv_reg s) + counted_total (\<lambda>as. sum_list (map guard as)) (tasks s) = 0"

lemma counted_total_simps [simp]:
  "counted_total g [] = 0" "counted_total g (ass @ [as]) = counted_total g ass + g as"
  by (simp_all add: counted_total_def)

lemma counted_total_update:
  "i < length ass \<Longrightarrow> ass ! i = as \<Longrightarrow> counted_total g (ass[i := bs]) + g as = counted_total g ass + g bs"
  by (induction ass arbitrary: i) (auto simp: counted_total_def algebra_simps nth_Cons split: nat.splits)

lemma gained_Cons:
  "gained f h (a # as) = (if op_host a = Some h then f (gain a) else 0) + gained f h as"
  "gained_all f (a # as) = f (gain a) + gained_all f as"
  by (simp_all add: gained_def gained_all_def)

lemma guard_sum: "sum_list (map guard as) = sum_list (map guard (filter is_guard as))"
proof (induction as)
  case (Cons a as)
  then show ?case by (cases a) (simp_all add: is_guard_def)
qed simp

text \<open>The three stages of a task, by the guards it has left.\<close>

lemma left_over_stages:
  assumes "left_over r as rest"
  obtains (before) "before_guard rest" "\<not> holds_guard rest" "sum_list (map guard rest) = 0"
  | (holding) "holds_guard rest" "\<not> before_guard rest" "sum_list (map guard rest) = - 1"
  | (finished) "rest = []"
proof -
  obtain pre where as: "as = pre @ rest" and shape: "task_shape as" using assms by (auto simp: left_over_def)
  let ?G = "filter is_guard rest"
  have "filter is_guard pre @ ?G = [Guard_Up, Guard_Down]" using shape by (simp add: as task_shape_def)
  then consider "?G = [Guard_Up, Guard_Down]" | "?G = [Guard_Down]" | "?G = []"
    by (cases "filter is_guard pre") (auto simp: Cons_eq_append_conv append_eq_Cons_conv)
  moreover have "Guard_Up \<in> set rest \<longleftrightarrow> Guard_Up \<in> set ?G" "Guard_Down \<in> set rest \<longleftrightarrow> Guard_Down \<in> set ?G"
    by (simp_all add: is_guard_def)
  ultimately show thesis
  proof cases
    case 1
    then show thesis using before guard_sum [of rest] \<open>Guard_Up \<in> set rest \<longleftrightarrow> _\<close> by (simp add: before_guard_def holds_guard_def)
  next
    case 2
    then show thesis using \<open>Guard_Up \<in> set rest \<longleftrightarrow> _\<close> \<open>Guard_Down \<in> set rest \<longleftrightarrow> _\<close> holding guard_sum [of rest] 2 by (simp add: before_guard_def holds_guard_def is_guard_def)
  next
    case 3
    have "rest = []"
    proof (rule ccontr)
      assume "rest \<noteq> []"
      then have "last rest = Guard_Down" using shape by (simp add: as task_shape_def)
      then have "Guard_Down \<in> set ?G" using \<open>rest \<noteq> []\<close> last_in_set [of rest] by (simp add: is_guard_def)
      then show False using 3 by simp
    qed
    then show thesis by (rule finished)
  qed
qed

lemma left_over_mono: "left_over r as rest \<Longrightarrow> dom (row r) \<subseteq> dom (row r') \<Longrightarrow> left_over r' as rest"
  by (auto simp: left_over_def)

lemma left_over_do:
  assumes "left_over r as (a # rest)" and "registry_ok r"
  shows "left_over (do_op a r) as rest" and "op_host a = Some k \<Longrightarrow> k \<in> dom (row r)"
proof -
  obtain pre where as: "as = pre @ a # rest" "task_shape as" "opened_by pre \<subseteq> dom (row r)"
    using assms(1) by (auto simp: left_over_def)
  then have "as = (pre @ [a]) @ rest" "opened_by (pre @ [a]) \<subseteq> dom (row (do_op a r))"
    using do_op_dom [OF assms(2), of a] by auto
  then show "left_over (do_op a r) as rest" using as(2) unfolding left_over_def by blast
  have "covered (opened_by pre) (a # rest)" using as(1,2) by (simp add: task_shape_def covered_append)
  then show "op_host a = Some k \<Longrightarrow> k \<in> dom (row r)" using as(3) by auto
qed

lemma server_inv_bound: "server_inv bound_server"
proof -
  have "counted_at f new_registry h = 0" "total f new_registry = 0" "open_connections new_registry = 0" for f h
    by (simp_all add: counted_at_def row_def new_registry_def total_def)
  then show ?thesis by (simp add: server_inv_def serving_def registry_ok_new)
qed

lemma task_shape_guards: "task_shape as \<Longrightarrow> sum_list (map guard as) = 0"
  using guard_sum [of as] by (simp add: task_shape_def)

lemma server_inv_spawn: "server_inv s \<Longrightarrow> task_shape as \<Longrightarrow> server_inv (spawn as s)"
  using task_shape_guards [of as]
  by (auto simp: server_inv_def spawn_def list_all2_append left_over_def algebra_simps intro!: list_all2_appendI)

lemma server_inv_ran:
  assumes "server_inv s" and "i < length (tasks s)" and "tasks s ! i = a # as"
  shows "server_inv (s\<lparr>sv_reg := do_op a (sv_reg s), tasks := (tasks s)[i := as]\<rparr>)"
proof -
  let ?r = "sv_reg s" and ?r' = "do_op a (sv_reg s)"
  note inv = assms(1) [unfolded server_inv_def]
  have ok: "registry_ok ?r" and all: "list_all2 (left_over ?r) (spawned s) (tasks s)" using inv by blast+
  have i: "i < length (spawned s)" using all assms(2) by (simp add: list_all2_lengthD)
  have lo: "left_over ?r (spawned s ! i) (a # as)" using list_all2_nthD [OF all i] assms(3) by simp
  note do = left_over_do [OF lo ok]
  have sub: "dom (row ?r) \<subseteq> dom (row ?r')" by (simp add: do_op_dom [OF ok])
  have "list_all2 (left_over ?r') (spawned s) (tasks s)"
    using all left_over_mono [OF _ sub] by (rule list_all2_mono)
  from list_all2_update_cong [OF this do(1), of i]
  have tasks: "list_all2 (left_over ?r') (spawned s) ((tasks s)[i := as])" by simp
  have upd: "counted_total g ((tasks s)[i := as]) = counted_total g (tasks s) + g as - g (a # as)" for g
    using counted_total_update [OF assms(2,3), of g as] by (simp add: algebra_simps)
  have "counted_at f ?r' h + counted_total (gained f h) ((tasks s)[i := as]) = counted_total (gained f h) (spawned s)
      \<and> total f ?r' + counted_total (gained_all f) ((tasks s)[i := as]) = counted_total (gained_all f) (spawned s)"
    if f: "is_counter f" for f h
  proof -
    have "counted_at f ?r h + counted_total (gained f h) (tasks s) = counted_total (gained f h) (spawned s)"
      "total f ?r + counted_total (gained_all f) (tasks s) = counted_total (gained_all f) (spawned s)"
      using inv f by blast+
    then show ?thesis
      using do_op_counted [where host = h, OF ok f do(2)] do_op_total [OF ok f do(2)]
      by (simp add: upd gained_Cons algebra_simps)
  qed
  moreover have "open_connections ?r' + counted_total (\<lambda>as. sum_list (map guard as)) ((tasks s)[i := as]) = 0"
    using inv by (simp add: upd do_op_open algebra_simps)
  ultimately show ?thesis using tasks do_op_ok [OF ok, of a] by (simp add: server_inv_def)
qed

lemma server_inv_step: "server_step s e s' \<Longrightarrow> server_inv s \<Longrightarrow> server_inv s'"
proof (induction rule: server_step.induct)
  case (proxy_dropped s)
  then show ?case by (simp add: server_inv_def drop_proxy_def)
qed (auto intro: server_inv_spawn server_inv_ran simp: client_task_def)

lemma server_inv_run: "server_run s es s' \<Longrightarrow> server_inv s \<Longrightarrow> server_inv s'"
  by (induction rule: server_run.induct) (auto intro: server_inv_step)

lemma reachable_inv: "reachable s \<Longrightarrow> server_inv s"
  using server_inv_run server_inv_bound by (auto simp: reachable_iff)

text \<open>The in-flight count is the number of tasks that hold their guard.\<close>

lemma open_holding:
  assumes "server_inv s"
  shows "open_connections (sv_reg s) = of_nat (length (filter holds_guard (tasks s)))"
proof -
  have "counted_total (\<lambda>as. sum_list (map guard as)) ts = - of_nat (length (filter holds_guard ts))"
    if "list_all2 (left_over r) ass ts" for ass ts r
    using that
  proof (induction rule: list_all2_induct)
    case (Cons as ass rest ts)
    from \<open>left_over r as rest\<close> show ?case
      by (cases rule: left_over_stages)
         (use Cons.IH in \<open>simp_all add: counted_total_def holds_guard_def\<close>)
  qed (simp add: counted_total_def)
  then show ?thesis using assms by (auto simp: server_inv_def)
qed

section \<open>Quiescence\<close>

lemma all_finished:
  assumes "server_inv s" and "length (tasks s) < 2 ^ 64" and "open_connections (sv_reg s) = 0"
    and "\<not> list_ex before_guard (tasks s)"
  shows "\<forall>as \<in> set (tasks s). as = []"
proof -
  let ?n = "length (filter holds_guard (tasks s))"
  have "?n < 2 ^ 64" using assms(2) length_filter_le [of holds_guard "tasks s"] by linarith
  moreover have "of_nat ?n = (0 :: u64)" using open_holding [OF assms(1)] assms(3) by simp
  moreover have "unat (of_nat ?n :: u64) = ?n" using calculation(1) by (simp add: unsigned_of_nat take_bit_nat_eq_self)
  ultimately have "?n = 0" by simp
  then have none: "\<not> holds_guard as" if "as \<in> set (tasks s)" for as using that by (simp add: filter_empty_conv)
  show ?thesis
  proof
    fix as assume as: "as \<in> set (tasks s)"
    have "list_all2 (left_over (sv_reg s)) (spawned s) (tasks s)" using assms(1) by (simp add: server_inv_def)
    with as obtain bs where "left_over (sv_reg s) bs as" by (metis in_set_conv_nth list_all2_conv_all_nth)
    then show "as = []"
      using none [OF as] assms(4) as by (cases rule: left_over_stages) (auto simp: list_ex_iff)
  qed
qed

text \<open>Once every task has finished, nothing moves the registry unless a connection is accepted.\<close>

lemma finished_run:
  "server_run s es s' \<Longrightarrow> \<forall>as \<in> set (tasks s). as = [] \<Longrightarrow> \<not> accepting s \<Longrightarrow>
    sv_reg s' = sv_reg s \<and> tasks s' = tasks s \<and> spawned s' = spawned s \<and> \<not> accepting s'"
proof (induction rule: server_run.induct)
  case (then_step s es s' e s'')
  have "tasks s ! i \<noteq> a # as" if "i < length (tasks s)" for i a as using then_step.prems(1) nth_mem [OF that] by auto
  with then_step show ?case by (auto elim!: server_stepE simp: drop_proxy_def)
qed simp

lemma finished_counts:
  assumes "server_inv s" and "\<forall>as \<in> set (tasks s). as = []" and "is_counter f"
  shows "counted_at f (sv_reg s) h = counted_total (gained f h) (spawned s)"
    and "total f (sv_reg s) = counted_total (gained_all f) (spawned s)"
proof -
  have none: "counted_total g (tasks s) = 0" if "g [] = 0" for g
  proof -
    have "map g (tasks s) = map (\<lambda>_. 0) (tasks s)" using assms(2) that by (auto intro: map_cong)
    then show ?thesis unfolding counted_total_def by (simp only: sum_list_0)
  qed
  have "gained f h [] = 0" "gained_all f [] = 0" by (simp_all add: gained_def gained_all_def)
  with none have "counted_total (gained f h) (tasks s) = 0" "counted_total (gained_all f) (tasks s) = 0" by blast+
  moreover have "counted_at f (sv_reg s) h + counted_total (gained f h) (tasks s) = counted_total (gained f h) (spawned s)"
      "total f (sv_reg s) + counted_total (gained_all f) (tasks s) = counted_total (gained_all f) (spawned s)"
    using assms(1,3) unfolding server_inv_def by blast+
  ultimately show "counted_at f (sv_reg s) h = counted_total (gained f h) (spawned s)"
    "total f (sv_reg s) = counted_total (gained_all f) (spawned s)" by simp_all
qed

lemma run_Cons: "server_step s e s1 \<Longrightarrow> server_run s1 es s2 \<Longrightarrow> server_run s (e # es) s2"
proof (rotate_tac, induction rule: server_run.induct)
  case (idle s1)
  then show ?case using then_step [OF server_run.idle] by fastforce
next
  case (then_step s1 es s' e' s'')
  then show ?case using server_run.then_step [of s "e # es" s' e' s''] by simp
qed

text \<open>Running what is left: every task can always be finished.\<close>

fun only_runs :: "server_event list \<Rightarrow> bool" where
  "only_runs [] = True"
| "only_runs (Ran i # es) = only_runs es"
| "only_runs (_ # es) = False"

lemma only_runs_snoc: "only_runs (es @ [Ran i]) = only_runs es"
  by (induction es rule: only_runs.induct) simp_all

lemma only_runs_append: "only_runs (es @ [e]) \<Longrightarrow> only_runs es \<and> (\<exists>i. e = Ran i)"
  by (induction es rule: only_runs.induct) (cases e; simp)+

lemma run_work:
  "server_run s es s' \<Longrightarrow> only_runs es \<Longrightarrow>
    length es + sum_list (map length (tasks s')) = sum_list (map length (tasks s)) \<and> spawned s' = spawned s"
proof (induction rule: server_run.induct)
  case (then_step s es s' e s'')
  from only_runs_append [OF then_step.prems] obtain i where e: "e = Ran i" "only_runs es" by blast
  have "sum_list (map length ((tasks s')[i := as])) + 1 = sum_list (map length (tasks s'))"
    if "i < length (tasks s')" "tasks s' ! i = a # as" for a as
    using that elem_le_sum_list [of i "map length (tasks s')"] by (simp add: map_update sum_list_update)
  then show ?case using then_step e by (fastforce elim: server_stepE)
qed simp

lemma no_work_left: "\<forall>as \<in> set ts. as = [] \<Longrightarrow> sum_list (map length ts) = 0"
  by (induction ts) simp_all

lemma can_finish:
  "\<exists>es s'. server_run s es s' \<and> only_runs es \<and> (\<forall>as \<in> set (tasks s'). as = [])"
proof (induction "sum_list (map length (tasks s))" arbitrary: s rule: less_induct)
  case less
  show ?case
  proof (cases "\<forall>as \<in> set (tasks s). as = []")
    case True
    then show ?thesis by (intro exI [of _ "[]"] exI [of _ s]) simp
  next
    case False
    then obtain i a as where i: "i < length (tasks s)" "tasks s ! i = a # as"
      by (metis in_set_conv_nth neq_Nil_conv)
    let ?s = "s\<lparr>sv_reg := do_op a (sv_reg s), tasks := (tasks s)[i := as]\<rparr>"
    have step: "server_step s (Ran i) ?s" by (rule server_step.ran) (fact i)+
    have one: "server_run s [Ran i] ?s" using then_step [OF idle step] by simp
    have "sum_list (map length (tasks ?s)) < sum_list (map length (tasks s))"
      using run_work [OF one] by simp
    from less [OF this] obtain es s' where es: "server_run ?s es s'" "only_runs es" "\<forall>as \<in> set (tasks s'). as = []"
      by blast
    with run_Cons [OF step es(1)] show ?thesis by (intro exI [of _ "Ran i # es"] exI [of _ s']) simp
  qed
qed

lemma reachable_run: "reachable s \<Longrightarrow> server_run s es s' \<Longrightarrow> reachable s'"
proof -
  have "server_run s0 es' s' \<Longrightarrow> server_run s' es s'' \<Longrightarrow> server_run s0 (es' @ es) s''" for s0 es' s' s''
    by (rotate_tac, induction rule: server_run.induct) (auto intro: server_run.then_step simp flip: append_assoc)
  then show "reachable s \<Longrightarrow> server_run s es s' \<Longrightarrow> reachable s'" unfolding reachable_iff by blast
qed

lemma finished_open: "server_inv s \<Longrightarrow> \<forall>as \<in> set (tasks s). as = [] \<Longrightarrow> open_connections (sv_reg s) = 0"
proof -
  assume inv: "server_inv s" and done': "\<forall>as \<in> set (tasks s). as = []"
  then have "filter holds_guard (tasks s) = []" by (auto simp: filter_empty_conv holds_guard_def)
  then show "open_connections (sv_reg s) = 0" using open_holding [OF inv] by simp
qed

section \<open>Properties\<close>

text \<open>A task that counts a connection and five bytes.\<close>

definition demo_task :: "reg_op list" where
  "demo_task = [Guard_Up, Get_Endpoint ''b.dev'', Add_Conn ''b.dev'', Add_In ''b.dev'' 5, Guard_Down]"

lemma demo_task_client: "client_task demo_task"
  by (simp add: demo_task_def client_task_def task_shape_def is_guard_def)

lemma demo_accepted: "server_run bound_server [Accepted demo_task] (spawn demo_task bound_server)"
  using then_step [OF idle accepted [OF _ demo_task_client]] by (simp add: serving_def)

lemma demo_reachable: "reachable (spawn demo_task bound_server)"
  unfolding reachable_iff using demo_accepted by blast

text \<open>
  C10: The in-flight count is honest under every interleaving: at any moment it is the
  number of tasks that have taken their guard and not yet released it, and the registry
  is well formed.
\<close>

theorem server_in_flight:
  assumes "reachable s"
  shows "open_connections (sv_reg s) = of_nat (length (filter holds_guard (tasks s))) \<and> registry_ok (sv_reg s)"
  using open_holding [OF reachable_inv [OF assms]] reachable_inv [OF assms] by (simp add: server_inv_def)

theorem server_in_flight_witness: "open_connections (sv_reg (spawn demo_task bound_server)) = 0"
  using server_in_flight [OF demo_reachable] by (simp add: spawn_def serving_def demo_task_def holds_guard_def)

text \<open>
  C9: No update is lost or repeated under any interleaving of the tasks: at any moment,
  for every host and in total, what has been counted and what the tasks have still to
  count add up to what they were all started with.
\<close>

theorem server_counts:
  assumes "reachable s" and "f \<in> {ingress, egress, connections}"
  shows "counted_at f (sv_reg s) host + counted_total (gained f host) (tasks s) = counted_total (gained f host) (spawned s)
    \<and> total f (sv_reg s) + counted_total (gained_all f) (tasks s) = counted_total (gained_all f) (spawned s)"
proof -
  have "is_counter f" using assms(2) by (simp add: is_counter_def)
  then show ?thesis using reachable_inv [OF assms(1)] unfolding server_inv_def by blast
qed

theorem server_counts_witness: "total ingress (sv_reg (spawn demo_task bound_server)) + 5 = 5"
  using server_counts [OF demo_reachable, of ingress]
  by (simp add: spawn_def serving_def demo_task_def gained_all_def counted_total_def default_stats_def)


lemma demo_finished:
  obtains s where "reachable s" "\<not> accepting s" "open_connections (sv_reg s) = 0"
    "\<not> list_ex before_guard (tasks s)" "length (tasks s) < 2 ^ 64" "spawned s = [demo_task]"
proof -
  let ?s = "spawn demo_task bound_server"
  obtain es s where run: "server_run ?s es s" "only_runs es" "\<forall>as \<in> set (tasks s). as = []"
    using can_finish by blast
  have sp: "spawned s = [demo_task]" using run_work [OF run(1,2)] by (simp add: spawn_def serving_def)
  have r: "reachable s" using reachable_run [OF demo_reachable run(1)] .
  let ?d = "drop_proxy s"
  have "server_run s [Proxy_Dropped] ?d" using then_step [OF idle proxy_dropped] by simp
  then have d: "reachable ?d" using reachable_run [OF r] by blast
  have "length (tasks s) = 1"
    using reachable_inv [OF r] sp list_all2_lengthD by (fastforce simp: server_inv_def)
  moreover have "\<not> list_ex before_guard (tasks s)" using run(3) by (auto simp: list_ex_iff before_guard_def)
  ultimately show thesis
    using that [OF d] finished_open [OF reachable_inv [OF r] run(3)] sp by (simp add: drop_proxy_def)
qed




text \<open>
  C12: Draining can miss a connection: the guard is taken inside the spawned task, so a
  connection that was accepted but whose task has not run yet does not count as in
  flight. The proxy can be dropped and found drained then, with nothing counted, and the
  task still runs and counts everything it has.
\<close>

theorem drain_misses_unstarted_task:
  assumes "client_task as"
  shows "\<exists>s es s'. server_run bound_server [Accepted as, Proxy_Dropped] s
    \<and> drain (\<lambda>_. open_connections (sv_reg s)) late now = now \<and> total f (sv_reg s) = 0
    \<and> server_run s es s' \<and> only_runs es
    \<and> (f \<in> {ingress, egress, connections} \<longrightarrow> total f (sv_reg s') = gained_all f as)"
proof -
  let ?s = "drop_proxy (spawn as bound_server)"
  have "server_run bound_server [Accepted as] (spawn as bound_server)"
    using then_step [OF idle accepted [OF _ assms]] by (simp add: serving_def)
  from then_step [OF this proxy_dropped] have run: "server_run bound_server [Accepted as, Proxy_Dropped] ?s" by simp
  then have r: "reachable ?s" unfolding reachable_iff by blast
  obtain es s' where es: "server_run ?s es s'" "only_runs es" "\<forall>as \<in> set (tasks s'). as = []"
    using can_finish by blast
  have "total f (sv_reg s') = gained_all f as" if "is_counter f"
    using finished_counts(2) [OF reachable_inv [OF reachable_run [OF r es(1)]] es(3) that] run_work [OF es(1,2)]
    by (simp add: spawn_def serving_def counted_total_def drop_proxy_def)
  moreover have "open_connections (sv_reg ?s) = 0" "total f (sv_reg ?s) = 0"
    by (simp_all add: spawn_def serving_def new_registry_def total_def drop_proxy_def)
  moreover have "drain (\<lambda>_. 0) late now = now" by (simp add: drain_def drain_loop_step(2))
  ultimately show ?thesis
    using run es(1,2) by (intro exI [of _ ?s] exI [of _ es] exI [of _ s']) (simp add: is_counter_def)
qed

theorem drain_misses_unstarted_task_witness:
  "\<exists>s es s'. server_run bound_server [Accepted demo_task, Proxy_Dropped] s \<and> total ingress (sv_reg s) = 0
    \<and> server_run s es s' \<and> total ingress (sv_reg s') = 5"
  using drain_misses_unstarted_task [OF demo_task_client, of "\<lambda>_. 0" 0 ingress]
  by (fastforce simp: demo_task_def gained_all_def default_stats_def)

end
