(* ===== verification/Late.thy ===== *)
theory Late
  imports Effects
begin

text \<open>
  What happens to a task that is still running when draining has timed out: it keeps
  counting through the handles it holds while \<open>resolve_ip_only_endpoints\<close> (\<open>src/main.rs\<close>)
  renames rows. A rename that moves a row moves its cell, and the handle stays good; a
  rename that merges a row into another leaves the cell outside the registry, and what is
  counted through its handle from then on is not reported. Shown: exactly that is lost,
  and nothing else.
\<close>

section \<open>Late operations\<close>

text \<open>One call under the lock of the registry, or one addition through a handle.\<close>

datatype late_op =
    Late_Request string
  | Late_Count count_op
  | Late_Rename string string

fun late_do :: "late_op \<Rightarrow> registry \<Rightarrow> registry" where
  "late_do (Late_Request host) r = fst (endpoint host r)"
| "late_do (Late_Count c) r = apply_count c r"
| "late_do (Late_Rename from to) r = rename from to r"

definition live :: "handle \<Rightarrow> registry \<Rightarrow> bool" where
  "live h r \<longleftrightarrow> h \<in> snd ` set (endpoints r)"

fun count_handle :: "count_op \<Rightarrow> handle" where
  "count_handle (AddIngress h _) = h"
| "count_handle (AddEgress h _) = h"
| "count_handle (AddConnection h) = h"

text \<open>What an addition is worth to a counter, and what of a sequence goes to cells outside the registry.\<close>

fun count_gain :: "count_op \<Rightarrow> endpoint_stats" where
  "count_gain (AddIngress _ n) = default_stats\<lparr>ingress := n\<rparr>"
| "count_gain (AddEgress _ n) = default_stats\<lparr>egress := n\<rparr>"
| "count_gain (AddConnection _) = default_stats\<lparr>connections := 1\<rparr>"

fun late_gain :: "(endpoint_stats \<Rightarrow> u64) \<Rightarrow> late_op \<Rightarrow> u64" where
  "late_gain f (Late_Count c) = f (count_gain c)"
| "late_gain f _ = 0"

fun stranded :: "late_op \<Rightarrow> registry \<Rightarrow> bool" where
  "stranded (Late_Count c) r = (\<not> live (count_handle c) r)"
| "stranded _ r = False"

fun lost :: "(endpoint_stats \<Rightarrow> u64) \<Rightarrow> late_op list \<Rightarrow> registry \<Rightarrow> u64" where
  "lost f [] r = 0"
| "lost f (a # as) r = (if stranded a r then late_gain f a else 0) + lost f as (late_do a r)"

section \<open>Cells outside the registry\<close>

lemma live_iff: "registry_ok r \<Longrightarrow> live h r \<longleftrightarrow> (\<exists>k. map_of (endpoints r) k = Some h)"
proof -
  assume "registry_ok r"
  then have "(k, h) \<in> set (endpoints r) \<longleftrightarrow> map_of (endpoints r) k = Some h" for k
    using keys_distinct_ok by simp
  then show "live h r \<longleftrightarrow> (\<exists>k. map_of (endpoints r) k = Some h)" by (force simp: live_def)
qed

lemma row_upd_dead:
  assumes "registry_ok r" and "\<not> live h r"
  shows "row (upd_cell h g r) = row r"
proof
  fix k
  have "map_of (endpoints r) k \<noteq> Some h" using assms by (simp add: live_iff)
  then show "row (upd_cell h g r) k = row r k"
    by (cases "map_of (endpoints r) k") (auto simp: row_def cell_def upd_cell_def)
qed

lemma total_row_cong: "registry_ok r \<Longrightarrow> registry_ok r' \<Longrightarrow> row r' = row r \<Longrightarrow> total f r' = total f r"
  by (simp add: total_row)

text \<open>Through a live handle an addition is one on its row.\<close>

fun row_op :: "string \<Rightarrow> count_op \<Rightarrow> reg_op" where
  "row_op k (AddIngress _ n) = Add_In k n"
| "row_op k (AddEgress _ n) = Add_Out k n"
| "row_op k (AddConnection _) = Add_Conn k"

lemma live_count:
  assumes "map_of (endpoints r) k = Some (count_handle c)"
  shows "apply_count c r = do_op (row_op k c) r" and "op_host (row_op k c) = Some k"
    and "gain (row_op k c) = count_gain c"
  using assms by (cases c; simp add: at_host_handle)+

lemma late_do_ok: "registry_ok r \<Longrightarrow> registry_ok (late_do a r)"
proof (cases a)
  case (Late_Count c)
  assume "registry_ok r"
  then show ?thesis using Late_Count by (cases c) simp_all
qed (simp_all add: registry_ok_endpoint registry_ok_rename)

lemma is_counter_additive: "is_counter f \<Longrightarrow> additive f"
  by (auto simp: is_counter_def additive_counters)

lemma late_do_total:
  assumes "registry_ok r" and "is_counter f"
  shows "total f (late_do a r) + (if stranded a r then late_gain f a else 0) = total f r + late_gain f a"
proof (cases a)
  case (Late_Request host)
  have "total f (do_op (Get_Endpoint host) r) = total f r + f (gain (Get_Endpoint host))"
    using assms by (intro do_op_total) simp_all
  then show ?thesis using Late_Request gain_default [OF assms(2), of "Get_Endpoint host"] by simp
next
  case (Late_Rename k k')
  then show ?thesis using total_rename [OF assms(1) is_counter_additive [OF assms(2)]] by simp
next
  case (Late_Count c)
  show ?thesis
  proof (cases "live (count_handle c) r")
    case True
    then obtain k where k: "map_of (endpoints r) k = Some (count_handle c)" using live_iff [OF assms(1)] by blast
    then have "k \<in> dom (row r)" by (auto simp: row_def)
    then have "total f (do_op (row_op k c) r) = total f r + f (gain (row_op k c))"
      using assms live_count(2) [OF k] by (intro do_op_total) auto
    then show ?thesis using True Late_Count live_count [OF k] by simp
  next
    case False
    then have "row (apply_count c r) = row r" using row_upd_dead [OF assms(1)] by (cases c) simp_all
    then have "total f (apply_count c r) = total f r"
      using late_do_ok [OF assms(1), of a] Late_Count by (intro total_row_cong assms(1)) simp_all
    then show ?thesis using False Late_Count by simp
  qed
qed

lemma late_run_ok: "registry_ok r \<Longrightarrow> registry_ok (fold late_do as r)"
  by (induction as arbitrary: r) (simp_all add: late_do_ok)

lemma late_run_total:
  assumes "registry_ok r" and "is_counter f"
  shows "total f (fold late_do as r) + lost f as r = total f r + sum_list (map (late_gain f) as)"
  using assms(1)
proof (induction as arbitrary: r)
  case (Cons a as)
  let ?r = "late_do a r" and ?l = "if stranded a r then late_gain f a else 0"
  have "total f (fold late_do (a # as) r) + lost f (a # as) r = total f (fold late_do as ?r) + lost f as ?r + ?l"
    by (simp only: fold_simps lost.simps ac_simps)
  also have "\<dots> = (total f ?r + ?l) + sum_list (map (late_gain f) as)"
    unfolding Cons.IH [OF late_do_ok [OF Cons.prems]] by (simp only: ac_simps)
  also have "\<dots> = total f r + sum_list (map (late_gain f) (a # as))"
    unfolding late_do_total [OF Cons.prems assms(2)] by (simp add: add.assoc)
  finally show ?case .
qed simp

section \<open>When a handle is stranded\<close>

lemma merge_cell_endpoints: "endpoints (merge_cell h e r) = endpoints r" "length (heap (merge_cell h e r)) = length (heap r)"
proof -
  have "endpoints ((upd_cell e g ^^ n) r') = endpoints r'" "length (heap ((upd_cell e g ^^ n) r')) = length (heap r')" for g n r'
    by (induction n) simp_all
  then show "endpoints (merge_cell h e r) = endpoints r" "length (heap (merge_cell h e r)) = length (heap r)"
    by (simp_all add: merge_cell_def Let_def split: option.split)
qed

text \<open>A cell that has left the registry never comes back.\<close>

lemma late_do_dead:
  assumes "registry_ok r" and "h < length (heap r)" and "\<not> live h r"
  shows "\<not> live h (late_do a r) \<and> h < length (heap (late_do a r))"
proof (cases a)
  case (Late_Request host)
  have "map_of (endpoints (fst (endpoint host r))) k \<noteq> Some h" for k
    using assms by (auto simp: live_iff endpoint_def update_conv' split: option.splits if_splits)
  moreover have "length (heap r) \<le> length (heap (fst (endpoint host r)))" by (simp add: endpoint_def split: option.split)
  ultimately show ?thesis using Late_Request assms(2) live_iff [OF registry_ok_endpoint [OF assms(1)]] by simp
next
  case (Late_Count c)
  then show ?thesis using assms(2,3) by (cases c) (simp_all add: live_def)
next
  case (Late_Rename k k')
  have "\<exists>y. map_of (endpoints r) y = Some h" if "map_of (endpoints (rename k k' r)) x = Some h" for x
    using that
    by (auto simp: rename_def Let_def merge_cell_endpoints delete_conv' update_conv' split: option.splits if_splits)
  then have "\<not> live h (rename k k' r)"
    using assms(3) live_iff [OF assms(1)] live_iff [OF registry_ok_rename [OF assms(1)]] by blast
  moreover have "length (heap (rename k k' r)) = length (heap r)"
    by (simp add: rename_def Let_def merge_cell_endpoints split: option.split)
  ultimately show ?thesis using Late_Rename assms(2) by simp
qed

lemma late_run_dead:
  "registry_ok r \<Longrightarrow> h < length (heap r) \<Longrightarrow> \<not> live h r \<Longrightarrow> \<not> live h (fold late_do as r)"
  by (induction as arbitrary: r) (auto simp: late_do_ok late_do_dead)

lemma rename_live:
  assumes "registry_ok r" and "map_of (endpoints r) from = Some h"
  shows "live h (rename from to r) \<longleftrightarrow> from = to \<or> map_of (endpoints r) to = None"
proof (cases "from = to")
  case True
  then show ?thesis using assms live_iff by (auto simp: rename_def)
next
  case False
  let ?r = "r\<lparr>endpoints := AList.delete from (endpoints r)\<rparr>"
  have ok: "registry_ok (rename from to r)" using assms(1) by (rule registry_ok_rename)
  have to: "map_of (endpoints ?r) to = map_of (endpoints r) to" using False by (simp add: delete_conv')
  show ?thesis
  proof (cases "map_of (endpoints r) to")
    case None
    then have "map_of (endpoints (rename from to r)) to = Some h"
      using assms(2) False to by (simp add: rename_def Let_def update_conv')
    then show ?thesis using None live_iff [OF ok] by blast
  next
    case (Some e)
    have "endpoints (merge_cell h e ?r) = endpoints ?r"
      by (simp add: merge_cell_endpoints)
    then have "endpoints (rename from to r) = AList.delete from (endpoints r)"
      using assms(2) False to Some by (simp add: rename_def Let_def)
    then have "map_of (endpoints (rename from to r)) k = Some h \<Longrightarrow> k \<noteq> from \<and> map_of (endpoints r) k = Some h" for k
      by (auto simp: delete_conv' split: if_splits)
    moreover have "k = from" if "map_of (endpoints r) k = Some h" for k
      using registry_ok_inj [OF assms(1) that assms(2)] .
    ultimately have "\<not> live h (rename from to r)" unfolding live_iff [OF ok] by blast
    then show ?thesis using Some False by simp
  qed
qed

lemma rename_keeps_others:
  assumes "registry_ok r" and "map_of (endpoints r) from = Some h" and "h' \<noteq> h"
  shows "live h' (rename from to r) = live h' r"
proof (cases "from = to")
  case False
  let ?D = "AList.delete from (endpoints r)"
  have ok: "registry_ok (rename from to r)" using assms(1) by (rule registry_ok_rename)
  have "map_of (endpoints (rename from to r)) k = Some h' \<longleftrightarrow> map_of (endpoints r) k = Some h'" for k
    using assms(2,3) False
    by (auto simp: rename_def Let_def merge_cell_endpoints delete_conv' update_conv' split: option.splits if_splits)
  then show ?thesis by (simp add: live_iff ok assms(1))
qed (simp add: rename_self)

section \<open>Properties\<close>

text \<open>The naming of the rows as such operations.\<close>

definition naming_ops :: "lookup option \<Rightarrow> (string \<Rightarrow> bool) \<Rightarrow> registry \<Rightarrow> late_op list" where
  "naming_ops built joined r = map (\<lambda>(a, b). Late_Rename a b) (renames built joined r)"

lemma naming_ops_run: "fold late_do (naming_ops built joined r) r' = fold (\<lambda>(a, b). rename a b) (renames built joined r) r'"
proof -
  have "fold late_do (map (\<lambda>(a, b). Late_Rename a b) ns) r' = fold (\<lambda>(a, b). rename a b) ns r'" for ns
    by (induction ns arbitrary: r') auto
  then show ?thesis by (simp add: naming_ops_def)
qed

lemma naming_ops_gain: "sum_list (map (late_gain f) (naming_ops built joined r)) = 0"
proof -
  have "map (late_gain f) (naming_ops built joined r) = map (\<lambda>_. 0) (renames built joined r)"
    by (auto simp: naming_ops_def)
  then show ?thesis by (simp only: sum_list_0)
qed

lemma shuffles_sum: "as \<in> shuffles xs ys \<Longrightarrow> sum_list (map g as) = sum_list (map g xs) + sum_list (map g ys)"
  for g :: "late_op \<Rightarrow> u64"
  by (induction xs ys arbitrary: as rule: shuffles.induct) (auto simp: ac_simps)

text \<open>
  C19: What late tasks lose is known exactly: whatever they count through their handles
  while the rows are named, in any interleaving with the renames, each total grows by all
  of it except what went through a handle that a merge had cut off before. Without late
  tasks the renames are \<open>resolve_ip_only_endpoints\<close> and the totals stay.
\<close>

theorem late_counts_conserved:
  assumes "registry_ok r" and "as \<in> shuffles (naming_ops built joined r) late"
    and "f \<in> {ingress, egress, connections}"
  shows "total f (fold late_do as r) + lost f as r = total f r + sum_list (map (late_gain f) late)
    \<and> (late = [] \<longrightarrow> fold late_do as r = resolve_ip_only_endpoints built joined r)"
proof (intro conjI impI)
  show "total f (fold late_do as r) + lost f as r = total f r + sum_list (map (late_gain f) late)"
    using late_run_total [OF assms(1), of f as] assms(3) shuffles_sum [OF assms(2), of "late_gain f"]
    by (simp add: is_counter_def naming_ops_gain)
  show "fold late_do as r = resolve_ip_only_endpoints built joined r" if "late = []"
    using assms(2) that by (simp add: naming_ops_run resolve_renames)
qed

definition demo_hosts :: registry where
  "demo_hosts = two_hosts\<lparr>endpoints := [(''1.2.3.4'', 0), (''x.dev'', 1)]\<rparr>"

lemma demo_hosts_ok: "registry_ok demo_hosts"
  by (simp add: demo_hosts_def registry_ok_def two_hosts_def)

definition demo_late :: "late_op list" where
  "demo_late = [Late_Count (AddIngress 0 3), Late_Count (AddIngress 0 7), Late_Count (AddIngress 1 1)]"

theorem late_counts_conserved_witness:
  "total ingress (fold late_do
      [Late_Count (AddIngress 0 3), Late_Rename ''1.2.3.4'' ''x.dev'', Late_Count (AddIngress 0 7), Late_Count (AddIngress 1 1)]
      demo_hosts) = 18"
proof -
  let ?as = "[Late_Count (AddIngress 0 3), Late_Rename ''1.2.3.4'' ''x.dev'', Late_Count (AddIngress 0 7), Late_Count (AddIngress 1 1)]"
  have "renames (Some (\<lambda>_. Some [PTR ''x.dev''])) (\<lambda>_. True) demo_hosts = [(''1.2.3.4'', ''x.dev'')]"
  proof -
    have "show_ip (V4 1 2 3 4) = ''1.2.3.4''" by code_simp
    then have a: "parse_ip ''1.2.3.4'' = Some (V4 1 2 3 4)" using parse_show_ip [of "V4 1 2 3 4"] by simp
    have b: "parse_ip ''x.dev'' = None" by (rule parse_ip_name) (simp_all add: to_digit_def)
    have nm: "to_ascii_lowercase (trim_end_matches (CHR ''.'') ''x.dev'') = ''x.dev''" by code_simp
    have "ip_hosts demo_hosts = [(''1.2.3.4'', V4 1 2 3 4)]"
      by (simp add: ip_hosts_def hosts_def demo_hosts_def List.map_filter_simps a b)
    moreover have "ptr_name (Some (\<lambda>_. Some [PTR ''x.dev''])) ip = Some ''x.dev''" for ip
      by (simp add: ptr_name_def hostname_def from_system_def non_empty_def Let_def nm)
    ultimately show ?thesis by (simp add: renames_def List.map_filter_simps)
  qed
  then have "?as \<in> shuffles (naming_ops (Some (\<lambda>_. Some [PTR ''x.dev''])) (\<lambda>_. True) demo_hosts) demo_late"
    by (simp add: naming_ops_def demo_late_def)
  note conserved = late_counts_conserved [OF demo_hosts_ok this, of ingress]
  have "lost ingress ?as demo_hosts = 7"
    by (simp add: demo_hosts_def two_hosts_def upd_cell_def add_ingress_def rename_def Let_def live_def merge_cell_endpoints default_stats_def)
  moreover have "total ingress demo_hosts = 14" by (simp add: total_def demo_hosts_def two_hosts_def cell_def)
  ultimately show ?thesis
    using conserved by (simp add: demo_late_def default_stats_def algebra_simps)
qed

text \<open>
  C20: Which handles a rename cuts off: the handle of the renamed row stays good exactly
  when the new name had no row yet; if it had one, the handle is cut off for good, and no
  later request or rename brings its cell back. Every other handle stays good.
\<close>

theorem rename_cuts_off_handle:
  assumes "registry_ok r" and "map_of (endpoints r) from = Some h"
  shows "(live h (rename from to r) \<longleftrightarrow> from = to \<or> row r to = None)
    \<and> (from \<noteq> to \<and> row r to \<noteq> None \<longrightarrow> \<not> live h (fold late_do as (rename from to r)))
    \<and> (h' \<noteq> h \<longrightarrow> live h' (rename from to r) = live h' r)"
proof -
  have iff: "live h (rename from to r) \<longleftrightarrow> from = to \<or> row r to = None"
    using rename_live [OF assms] by (simp add: row_def)
  have ok: "registry_ok (rename from to r)" using assms(1) by (rule registry_ok_rename)
  have "h < length (heap (rename from to r))"
    using registry_ok_lt [OF assms] by (simp add: rename_def Let_def merge_cell_endpoints split: option.split)
  note dead = late_run_dead [OF ok this]
  have "from \<noteq> to \<and> row r to \<noteq> None \<longrightarrow> \<not> live h (fold late_do as (rename from to r))"
    by (intro impI dead) (simp add: iff)
  moreover have "live h' (rename from to r) = live h' r" if "h' \<noteq> h" for h'
    by (rule rename_keeps_others [OF assms that])
  ultimately show ?thesis using iff by blast
qed

theorem rename_cuts_off_handle_witness:
  "\<not> live 0 (fold late_do [Late_Request ''1.2.3.4'', Late_Rename ''b.dev'' ''c.dev''] (rename ''1.2.3.4'' ''b.dev'' two_hosts))"
proof -
  have "map_of (endpoints two_hosts) ''1.2.3.4'' = Some 0" "row two_hosts ''b.dev'' \<noteq> None"
    by (simp_all add: two_hosts_def row_def)
  then show ?thesis
    using rename_cuts_off_handle [OF registry_ok_two_hosts, of "''1.2.3.4''" 0 "''b.dev''"]
    by (simp only: list.inject char.inject) blast
qed

end
