(* ===== verification/Spec2Isabelle.thy ===== *)
theory Spec2Isabelle
  imports Http_Forward Main_Run Session Host_Text Server Late
begin

text \<open>
  wiretally runs a command behind an ephemeral proxy on the loopback interface and
  reports, per remote host, the bytes the command sent and received. This development
  models the Rust sources under \<open>src/src/\<close> as HOL functions and proves what makes the
  figures of the report right.

  \<^bold>\<open>Parts and how they interact.\<close> \<open>main.rs\<close> starts the proxy, runs the child with
  the proxy variables set, waits for it, drains the connections still in flight, gives
  names to bare addresses and prints the report. \<open>proxy.rs\<close> serves one task per client
  connection: the first byte separates SOCKS5 from HTTP; a CONNECT of either protocol
  becomes a tunnel, a UDP ASSOCIATE a datagram relay (\<open>udp.rs\<close>), and any other HTTP
  request is forwarded by hyper's client over a counted connector. \<open>socks.rs\<close> holds the
  SOCKS5 wire formats, \<open>io.rs\<close> the two stream adapters of the data path, \<open>Counting\<close> and
  \<open>Rewind\<close>. All of them write to the shared registry of counters (\<open>stats.rs\<close>), from
  which \<open>report.rs\<close> builds the summary. \<open>dns.rs\<close> is the reverse resolver.

  \<^bold>\<open>Theories.\<close>
  \<^item> \<open>Wire_Prelude\<close>: result and error types, collections of rules, the interface
    \<open>hash_map\<close> of maps kept as association lists.
  \<^item> \<open>Rust_Str\<close>, \<open>Rust_Net\<close>: what the sources use of Rust's strings (bytes, UTF-8, splits,
    number formats) and of \<open>std::net\<close> (printing and parsing of addresses).
  \<^item> \<open>Stats\<close> (\<open>stats.rs\<close>): an \<open>Arc<EndpointStats>\<close> handle is an index into the heap of
    cells of the record \<open>registry\<close>; \<open>endpoint\<close>, \<open>rename\<close>, \<open>snapshot\<close>, \<open>track_open\<close> and
    the domain filter are functions on it. Shown: the invariant \<open>registry_ok\<close> of every
    reachable registry, that rows are independent of map order, that counting commutes,
    the effect of \<open>rename\<close>, the filter by labels, the in-flight count.
  \<^item> \<open>Io\<close> (\<open>io.rs\<close>): poll functions of a stream as a record of functions, the adapters as
    functions from such records to such records. Shown: counting is invisible and exact,
    rewinding replays; both keep tokio's read contract (locale \<open>async_read\<close>).
  \<^item> \<open>Socks\<close> (\<open>socks.rs\<close>): handshake, datagram codec and replies against a grammar of the
    wire formats, over any connection that keeps the locale \<open>byte_stream\<close>.
  \<^item> \<open>Udp\<close> (\<open>udp.rs\<close>): the relay loop over a sequence of received datagrams; its books,
    its attribution of replies, that it forges nothing and resolves once.
  \<^item> \<open>Http_Head\<close>, \<open>Proxy\<close>, \<open>Http_Forward\<close> (\<open>proxy.rs\<close>): request heads; the task of one
    connection with its tunnels and associations; the connector, its counted stream and
    the forwarding of a request. Shown: heads are framed and found, tunnels and upstream
    connections are counted exactly from opening to close, refusals cost nothing, tasks
    end and release their guard, requests are handed on unchanged but for the
    hop-by-hop headers.
  \<^item> \<open>Effects\<close>, \<open>Task_Effects\<close>: every task seen from the registry, as a sequence of atomic
    operations (\<open>reg_op\<close>: a call under the lock of the registry or one atomic addition).
    Shown: tunnels, UDP relays, upstream streams and whole connection tasks are exactly
    such sequences, fixed by what the task meets on its sockets and not by the registry.
  \<^item> \<open>Server\<close> (\<open>Proxy::bind\<close> and \<open>Drop for Proxy\<close>): the accept loop and the scheduler as a
    state machine that interleaves the tasks of \<open>Task_Effects\<close> in any order. Shown: the
    in-flight count is the number of guards held, no update is lost, the tasks can always
    be finished, and a drained server is final; and that a connection whose task has not
    yet run escapes the drain.
  \<^item> \<open>Late\<close>: tasks that outlive draining and count through their handles while rows are
    renamed. Shown: the totals get all of it except what goes through handles that a merge
    has cut off, and which handles those are.
  \<^item> \<open>Rust_Text\<close>, \<open>Host_Text\<close>: well-formed UTF-8, that host names and the report have it.
  \<^item> \<open>Session\<close>: the contract \<open>client_conn\<close> of a client connection seen through both of its
    interfaces, and a tunnel and an association over it; this theory, below: whole SOCKS5,
    UDP and HTTP CONNECT sessions from the first byte to the books, the plain HTTP session
    up to hyper, a plain request from there through the connector to the books, and the report against all the tasks of the server.
  \<^item> \<open>Report\<close> (\<open>report.rs\<close>): totals with Rust's overflow behaviour, the report, byte counts
    and the table; the \<open>f64\<close> arithmetic behind the two decimals is exact.
  \<^item> \<open>Dns\<close> (\<open>dns.rs\<close>) and \<open>Naming\<close> (\<open>resolve_ip_only_endpoints\<close>): the cache of the
    resolver, and that the sequence of renames groups the rows by their final names.
  \<^item> \<open>Main_Run\<close> (\<open>main.rs\<close>): draining, exit codes, the run and its end-to-end accounting.

  \<^bold>\<open>Interfaces.\<close> What tokio, hyper, hickory, serde and the system do is an argument of
  the definitions; what the code relies on is the \<open>assumes\<close> of the locales \<open>async_read\<close>,
  \<open>byte_stream\<close>, \<open>healthy_stream\<close>, \<open>tcp_stream\<close> and \<open>client_conn\<close>, each interpreted on the
  in-memory connection that the unit tests of the sources use. The registry itself is
  used through the locale \<open>accounting\<close>, interpreted on the model of \<open>stats.rs\<close>.

  \<^bold>\<open>Conventions and bounds.\<close> A Rust \<open>String\<close> is a \<open>string\<close> with one character per byte.
  Counters are 64-bit words: atomic additions wrap, and \<open>+=\<close> on totals is checked or wraps
  by an argument that tells a debug from a release build; connection ids of the proxy
  are those of a release build. The loop that reads a request head ends by its limit of
  64 KiB, the drain loop by its deadline, and both are total functions; the loop on the
  control connection of an association is a partial function that is proved to return
  on every TCP connection. The relay runs over the finite sequence of datagrams
  received before the association ends. Polls of the copy loop and of hyper are
  arbitrary finite sequences, so that what is shown holds for every such client.
  Times are in milliseconds.

  A step of the server runs one atomic operation of one task; the abort of the accept
  loop is one step, after which nothing more is accepted. A handle keeps meaning its
  host because rows are renamed only after draining.

  \<^bold>\<open>Not modelled.\<close> The sockets, the scheduler and the executor of tokio; hyper's HTTP/1
  server, client and connection pool (arguments of \<open>serve_http\<close> and \<open>forward\<close>; the upstream
  streams they open are tasks of their own in \<open>Server\<close>); the JSON encoding by serde,
  argument parsing by clap, the wall-clock prefix of log lines, and \<open>lib.rs\<close>, which holds
  only module declarations. In \<open>run\<close>, renaming and the snapshot work on
  one registry; what tasks that outlive draining, which the timeout and the late start
  above allow, may add meanwhile is the subject of \<open>Late\<close>. Accessors that only read a
  field are the selectors of the records, and what hyper asks of a stream to pool it
  (\<open>connected\<close>) is left to hyper.
\<close>

section \<open>Sessions\<close>

text \<open>
  C3: A SOCKS5 client is served from its first byte to the books: for a well-formed
  CONNECT handshake on a client connection, whatever follows it, the connection is
  answered with the method selection and the success reply, the copy loop then sees
  exactly the bytes after the handshake, none lost or repeated, and the row of the
  requested host, and no other, grows by one connection, by the bytes read from the
  client and by the bytes written to it.
\<close>

theorem socks_connect_session:
  assumes "client_conn tcp ops incoming outgoing" and "registry_ok (w_reg w)"
    and "incoming (client w) = handshake_bytes ms CMD_CONNECT rsv a port @ rest"
    and "address_ok a" and "length ms < 256" and "METHOD_NONE \<in> set ms"
    and "connect (address_host a) port = Ok up" and "up_nodelay up = Ok ()"
  shows "\<exists>w' s rw os. handle_connection tcp ops connect as show_err serve verbose w =
        Some (w', (case up_copy up of Inl e \<Rightarrow> Err (AnyIo e) | Inr _ \<Rightarrow> Ok ()))
    \<and> outgoing s = outgoing (client w) @ [VERSION, METHOD_NONE] @ [VERSION, REP_SUCCESS, 0, ATYP_IPV4, 0, 0, 0, 0, 0, 0]
    \<and> run_polls (rewind_ops ops) (up_polls up) (new_rewind [] s) = (rw, os)
    \<and> rest = all_read os @ rewind_pending incoming rw
    \<and> row (w_reg w') = (row (w_reg w))(address_host a \<mapsto>
        tunnelled (up_peer up) (length (all_read os)) (all_written os) (row_or_new (w_reg w) (address_host a)))"
proof -
  obtain s1 where s1: "peek tcp (client w) = (s1, Ok (take 1 (incoming (client w))))"
      "incoming s1 = incoming (client w)" "outgoing s1 = outgoing (client w)"
    by (rule client_conn.peek_first [OF assms(1)])
  have first: "take 1 (incoming (client w)) = [GREETING_BYTE]"
    by (simp add: assms(3) handshake_bytes_def wire_defs)
  have "healthy_stream tcp incoming outgoing" using assms(1) by (rule client_conn.axioms)
  from accept_reads [OF this _ assms(4-6), of s1 CMD_CONNECT rsv port rest] assms(3) s1(2)
  obtain s2 where s2: "accept tcp s1 = (s2, command_of CMD_CONNECT \<lparr>req_host = address_host a, req_port = port\<rparr>)"
      "incoming s2 = rest" "outgoing s2 = outgoing s1 @ [VERSION, METHOD_NONE]" by auto
  have "handle_connection tcp ops connect as show_err serve verbose w =
      Some (connect_and_splice tcp ops connect verbose (address_host a) port [] Hs_Socks (w\<lparr>client := s2\<rparr>))"
    using s1(1) [unfolded first] s2(1) client_conn.nodelay_ready [OF assms(1)]
    by (simp add: handle_connection_def serve_socks_def command_of_def)
  then show ?thesis
    using client_conn.tunnel_session [OF assms(1), of "w\<lparr>client := s2\<rparr>" connect "address_host a" port up verbose "[]" Hs_Socks]
      assms(2,7,8) s2 s1(3) by simp
qed

text \<open>Parameters of the examples: a destination and an association that gets no sockets.\<close>

definition demo_addr :: address where
  "demo_addr = Name (str_bytes ''B.dev'')"

definition no_association :: association where
  "no_association = \<lparr>as_client_side = Ok (), as_upstream = Ok (), as_local_addr = Err (OtherIo 2), as_events = []\<rparr>"

lemma demo_facts:
  "address_host demo_addr = ''b.dev''" "address_ok demo_addr"
  "up_copy demo_upstream = Ok ()" "up_nodelay demo_upstream = Ok ()"
  by (code_simp, code_simp) (simp_all add: demo_upstream_def)

theorem socks_connect_session_witness:
  "\<exists>w' s rw os. handle_connection mem_tcp cursor_ops (\<lambda>_ _. Ok demo_upstream) no_association (\<lambda>_. []) (\<lambda>_ _. None) False
        (demo_conn (handshake_bytes [0] CMD_CONNECT 0 demo_addr 443 @ [1, 2, 3])) = Some (w', Ok ())
    \<and> run_polls (rewind_ops cursor_ops) (up_polls demo_upstream) (new_rewind [] s) = (rw, os)
    \<and> [1, 2, 3] = all_read os @ rewind_pending fst rw
    \<and> row (w_reg w') = (row two_hosts)(''b.dev'' \<mapsto>
        tunnelled (up_peer demo_upstream) (length (all_read os)) (all_written os) (row_or_new two_hosts ''b.dev''))"
proof -
  let ?w = "demo_conn (handshake_bytes [0] CMD_CONNECT 0 demo_addr 443 @ [1, 2, 3])"
  have w: "registry_ok (w_reg ?w)" "fst (client ?w) = handshake_bytes [0] CMD_CONNECT 0 demo_addr 443 @ [1, 2, 3]"
      "w_reg ?w = two_hosts"
    by (simp_all add: demo_conn_def registry_ok_two_hosts)
  note session = socks_connect_session [where w = ?w and connect = "\<lambda>_ _. Ok demo_upstream" and up = demo_upstream
      and as = no_association and show_err = "\<lambda>_. []" and serve = "\<lambda>_ _. None" and verbose = False,
      OF mem_conn.client_conn_axioms w(1,2) demo_facts(2)]
  show ?thesis
    using session by (simp add: w demo_facts METHOD_NONE_def) blast
qed

text \<open>
  C4: An HTTP CONNECT client is served from its first byte to the books: for a request
  head of at most 64 KiB that asks for CONNECT to an authority, however the bytes
  arrive in chunks, the connection is answered with the 200 line, the copy loop sees
  exactly the bytes after the blank line, those that arrived with the head included,
  and the row of the authority's host, and no other, grows by one connection, by the
  bytes read from the client and by the bytes written to it.
\<close>

theorem http_connect_session:
  assumes "client_conn tcp ops incoming outgoing" and "registry_ok (w_reg w)"
    and "incoming (client w) = head @ rest" and "find_head_end head = Some (length head)"
    and "length head \<le> MAX_HEAD_BYTES" and "hd head \<noteq> GREETING_BYTE"
    and "request_line head = Some (mth, tgt)" and "eq_ignore_ascii_case mth ''CONNECT''"
    and "split_authority tgt 443 = (host, port)" and "connect host port = Ok up" and "up_nodelay up = Ok ()"
  shows "\<exists>w' s leftover rw os. handle_connection tcp ops connect as show_err serve verbose w =
        Some (w', (case up_copy up of Inl e \<Rightarrow> Err (AnyIo e) | Inr _ \<Rightarrow> Ok ()))
    \<and> outgoing s = outgoing (client w) @ str_bytes ''HTTP/1.1 200 Connection Established'' @ CRLF @ CRLF
    \<and> run_polls (rewind_ops ops) (up_polls up) (new_rewind leftover s) = (rw, os)
    \<and> rest = all_read os @ rewind_pending incoming rw
    \<and> row (w_reg w') = (row (w_reg w))(host \<mapsto>
        tunnelled (up_peer up) (length (all_read os)) (all_written os) (row_or_new (w_reg w) host))"
proof -
  obtain s1 leftover where s1: "outgoing s1 = outgoing (client w)" "leftover @ incoming s1 = rest"
    "handle_connection tcp ops connect as show_err serve verbose w =
      Some (connect_and_splice tcp ops connect verbose host port leftover Hs_Http (w\<lparr>client := s1\<rparr>))"
    using client_conn.http_dispatch [OF assms(1,3-7), of connect as show_err serve verbose] assms(8,9) by auto
  then show ?thesis
    using client_conn.tunnel_session [OF assms(1), of "w\<lparr>client := s1\<rparr>" connect host port up verbose leftover Hs_Http]
      assms(2,10,11) by fastforce
qed

definition demo_head :: bytes where
  "demo_head = str_bytes ''CONNECT b.dev HTTP/1.1'' @ CRLF @ CRLF"

lemma demo_head_facts:
  "find_head_end demo_head = Some (length demo_head)" "request_line demo_head = Some (''CONNECT'', ''b.dev'')"
  "hd demo_head \<noteq> GREETING_BYTE" "eq_ignore_ascii_case ''CONNECT'' ''CONNECT''" "length demo_head \<le> MAX_HEAD_BYTES"
  "split_authority ''b.dev'' 443 = (''b.dev'', 443)"
proof -
  have "to_ascii_lowercase ''b.dev'' = ''b.dev''" by code_simp
  then show "split_authority ''b.dev'' 443 = (''b.dev'', 443)"
    using split_authority_name(2) [of "''b.dev''" 443] by simp
  show "length demo_head \<le> MAX_HEAD_BYTES" by (simp add: demo_head_def CRLF_def MAX_HEAD_BYTES_def)
qed (code_simp+)

theorem http_connect_session_witness:
  "\<exists>w' s leftover rw os. handle_connection mem_tcp cursor_ops (\<lambda>_ _. Ok demo_upstream) no_association (\<lambda>_. []) (\<lambda>_ _. None) False
        (demo_conn (demo_head @ [1, 2, 3])) = Some (w', Ok ())
    \<and> run_polls (rewind_ops cursor_ops) (up_polls demo_upstream) (new_rewind leftover s) = (rw, os)
    \<and> [1, 2, 3] = all_read os @ rewind_pending fst rw
    \<and> row (w_reg w') = (row two_hosts)(''b.dev'' \<mapsto>
        tunnelled (up_peer demo_upstream) (length (all_read os)) (all_written os) (row_or_new two_hosts ''b.dev''))"
proof -
  let ?w = "demo_conn (demo_head @ [1, 2, 3])"
  have w: "registry_ok (w_reg ?w)" "fst (client ?w) = demo_head @ [1, 2, 3]" "w_reg ?w = two_hosts"
    by (simp_all add: demo_conn_def registry_ok_two_hosts)
  note session = http_connect_session [where w = ?w and connect = "\<lambda>_ _. Ok demo_upstream" and up = demo_upstream
      and as = no_association and show_err = "\<lambda>_. []" and serve = "\<lambda>_ _. None" and verbose = False,
      OF mem_conn.client_conn_axioms w(1,2) demo_head_facts(1,5,3,2,4,6) refl demo_facts(4)]
  show ?thesis using session unfolding demo_facts w(3) sum.case by blast
qed

text \<open>
  C5: A plain HTTP client loses nothing to the sniffing: for a request head of at most
  64 KiB with another method, however the bytes arrive in chunks, hyper's server is
  given a stream that delivers, over any sequence of polls, exactly the bytes of the
  client from the first one on; nothing has been written to the client and nothing
  counted or logged before.
\<close>

theorem http_plain_session:
  assumes "client_conn tcp ops incoming outgoing"
    and "incoming (client w) = head @ rest" and "find_head_end head = Some (length head)"
    and "length head \<le> MAX_HEAD_BYTES" and "hd head \<noteq> GREETING_BYTE"
    and "request_line head = Some (mth, tgt)" and "\<not> eq_ignore_ascii_case mth ''CONNECT''"
  shows "\<exists>rw s. handle_connection tcp ops connect as show_err (serve_http server parse_uri send) verbose w =
        serve_http server parse_uri send rw (w\<lparr>client := s\<rparr>)
    \<and> rw_inner rw = s \<and> outgoing s = outgoing (client w)
    \<and> (\<forall>ps rw' os. run_polls (rewind_ops ops) ps rw = (rw', os) \<longrightarrow>
         incoming (client w) = all_read os @ rewind_pending incoming rw')"
proof -
  obtain s leftover where s: "outgoing s = outgoing (client w)" "leftover @ incoming s = rest"
    "handle_connection tcp ops connect as show_err (serve_http server parse_uri send) verbose w =
      serve_http server parse_uri send (new_rewind (head @ leftover) s) (w\<lparr>client := s\<rparr>)"
    using client_conn.http_dispatch [OF assms(1-6), of connect as show_err "serve_http server parse_uri send" verbose] assms(7)
    by auto
  have "async_read ops incoming (\<lambda>_. True)" using assms(1) by (rule client_conn.axioms)
  note run = async_read.rewound_run(1) [OF this TrueI]
  have "incoming (client w) = all_read os @ rewind_pending incoming rw'"
    if "run_polls (rewind_ops ops) ps (new_rewind (head @ leftover) s) = (rw', os)" for ps rw' os
    using run [OF that] s(2) by (simp add: assms(2))
  then show ?thesis
    using s(1,3) by (intro exI [of _ "new_rewind (head @ leftover) s"] exI [of _ s]) (simp add: new_rewind_def)
qed

definition demo_get :: bytes where
  "demo_get = str_bytes ''GET http://b.dev/ HTTP/1.1'' @ CRLF @ CRLF"

lemma demo_get_facts:
  "find_head_end demo_get = Some (length demo_get)" "request_line demo_get = Some (''GET'', ''http://b.dev/'')"
  "hd demo_get \<noteq> GREETING_BYTE" "\<not> eq_ignore_ascii_case ''GET'' ''CONNECT''" "length demo_get \<le> MAX_HEAD_BYTES"
proof -
  show "length demo_get \<le> MAX_HEAD_BYTES" by (simp add: demo_get_def CRLF_def MAX_HEAD_BYTES_def)
qed (code_simp+)

theorem http_plain_session_witness:
  "\<exists>(rw :: cursor rewind) s. handle_connection mem_tcp cursor_ops (\<lambda>_ _. Ok demo_upstream) no_association (\<lambda>_. [])
        (serve_http (\<lambda>rw. ([], \<lambda>_. (rw_inner rw, Ok ()))) (\<lambda>_. Err []) (\<lambda>_ w. (w, Err []))) False (demo_conn (demo_get @ [1, 2, 3])) =
      Some (demo_conn (demo_get @ [1, 2, 3])\<lparr>client := s\<rparr>, Ok ())
    \<and> demo_get @ [1, 2, 3] = rewind_pending fst rw"
proof -
  let ?w = "demo_conn (demo_get @ [1, 2, 3])"
  let ?serve = "serve_http (\<lambda>rw. ([], \<lambda>_. (rw_inner rw, Ok ()))) (\<lambda>_. Err []) (\<lambda>_ w. (w, Err []))"
  have w: "fst (client ?w) = demo_get @ [1, 2, 3]" by (simp add: demo_conn_def)
  obtain rw s where rw: "handle_connection mem_tcp cursor_ops (\<lambda>_ _. Ok demo_upstream) no_association (\<lambda>_. []) ?serve False ?w =
        ?serve rw (?w\<lparr>client := s\<rparr>)" "rw_inner rw = s"
      "\<forall>ps rw' os. run_polls (rewind_ops cursor_ops) ps rw = (rw', os) \<longrightarrow> fst (client ?w) = all_read os @ rewind_pending fst rw'"
    using http_plain_session [OF mem_conn.client_conn_axioms w demo_get_facts(1,5,3,2,4)] by blast
  have "fst (client ?w) = rewind_pending fst rw" using rw(3) [rule_format, of "[]" rw "[]"] by (simp add: all_read_def)
  then show ?thesis
    using rw(1,2) w by (intro exI [of _ rw] exI [of _ s]) (simp add: serve_http_def)
qed


text \<open>A client that reads and writes once on a fresh connection, and an origin-form request.\<close>

definition demo_polls :: "poll_op list" where
  "demo_polls = [Poll_Write [7, 8], Poll_Read \<lparr>filled = [], capacity = 8\<rparr>, Poll_Shutdown]"

definition demo_send :: "http_request \<Rightarrow> registry \<times> log_line list \<Rightarrow> (registry \<times> log_line list) \<times> (string, http_response) result" where
  "demo_send rq w =
     (case connector_call demo_server False (rq_uri rq) w of
        Inl (w', _) \<Rightarrow> (w', Err ''no connection'')
      | Inr st \<Rightarrow> (drop_counted_stream (fst (run_polls (counted_stream_ops cursor_ops) demo_polls st)),
                   Ok \<lparr>rs_status = 200, rs_headers = [], rs_body = []\<rparr>))"

definition demo_origin_form :: http_request where
  "demo_origin_form = \<lparr>rq_method = ''GET'',
     rq_uri = \<lparr>uri_scheme = None, uri_authority = None, uri_path_query = Some ''/''\<rparr>,
     rq_headers = [(''host'', str_bytes ''b.dev'')], rq_body = []\<rparr>"


text \<open>
  C7: A UDP client is served from its first byte to the books: for a well-formed
  UDP ASSOCIATE handshake on a client connection it is answered with the method
  selection and a success reply that carries the relay's address; the association lasts
  until the client has closed its side, everything it still sent there being read and
  discarded; and the relay's books are those of the datagrams it sent, each of which
  answers for one it received.
\<close>

theorem socks_udp_session:
  assumes "client_conn tcp ops incoming outgoing" and "registry_ok (w_reg w)"
    and "incoming (client w) = handshake_bytes ms CMD_UDP_ASSOCIATE rsv a port @ rest"
    and "address_ok a" and "length ms < 256" and "METHOD_NONE \<in> set ms"
    and "as_client_side as = Ok ()" and "as_upstream as = Ok ()" and "as_local_addr as = Ok bound"
  shows "\<exists>w' rec l r rw. handle_connection tcp ops connect as show_err serve verbose w = Some (w', Ok ())
    \<and> incoming (client w') = []
    \<and> outgoing (client w') = outgoing (client w) @ [VERSION, METHOD_NONE] @ rec
    \<and> take 2 rec = [VERSION, REP_SUCCESS]
    \<and> parse_datagram rec = Ok \<lparr>dg_host = show_ip (sa_ip bound), dg_port = sa_port bound, payload = []\<rparr>
    \<and> rw = run_relay (as_events as) (new_world (new_relay l) r) \<and> w_reg w' = rg rw
    \<and> row (w_reg w') = expected_row (w_reg w) (map_of (r_endpoints (rl rw))) (wire rw)
    \<and> (\<forall>p \<in> set (wire rw). justified (as_events as) p)"
proof -
  obtain s1 where s1: "peek tcp (client w) = (s1, Ok (take 1 (incoming (client w))))"
      "incoming s1 = incoming (client w)" "outgoing s1 = outgoing (client w)"
    by (rule client_conn.peek_first [OF assms(1)])
  have first: "take 1 (incoming (client w)) = [GREETING_BYTE]"
    by (simp add: assms(3) handshake_bytes_def wire_defs)
  have "healthy_stream tcp incoming outgoing" using assms(1) by (rule client_conn.axioms)
  from accept_reads [OF this _ assms(4-6), of s1 CMD_UDP_ASSOCIATE rsv port rest] assms(3) s1(2)
  obtain s2 where s2: "accept tcp s1 = (s2, command_of CMD_UDP_ASSOCIATE \<lparr>req_host = address_host a, req_port = port\<rparr>)"
      "outgoing s2 = outgoing s1 @ [VERSION, METHOD_NONE]" by auto
  have "CMD_UDP_ASSOCIATE \<noteq> CMD_CONNECT" by (simp add: wire_defs)
  then have "handle_connection tcp ops connect as show_err serve verbose w = relay_udp tcp as verbose (w\<lparr>client := s2\<rparr>)"
    using s1(1) [unfolded first] s2(1) client_conn.nodelay_ready [OF assms(1)]
    by (simp add: handle_connection_def serve_socks_def command_of_def)
  moreover have "registry_ok (w_reg (w\<lparr>client := s2\<rparr>))" using assms(2) by simp
  note client_conn.udp_session [OF assms(1) this assms(7-9), of verbose]
  ultimately show ?thesis using s2(2) s1(3) by fastforce
qed

definition demo_association :: association where
  "demo_association = \<lparr>as_client_side = Ok (), as_upstream = Ok (),
     as_local_addr = Ok \<lparr>sa_ip = V4 127 0 0 1, sa_port = 4000\<rparr>, as_events = demo_events\<rparr>"

theorem socks_udp_session_witness:
  "\<exists>w' rec (rw :: relay_world). handle_connection mem_tcp cursor_ops (\<lambda>_ _. Ok demo_upstream) demo_association (\<lambda>_. []) (\<lambda>_ _. None) False
        (demo_conn (handshake_bytes [0] CMD_UDP_ASSOCIATE 0 demo_addr 0 @ [1, 2, 3])) = Some (w', Ok ())
    \<and> fst (client w') = [] \<and> snd (client w') = [VERSION, METHOD_NONE] @ rec
    \<and> parse_datagram rec = Ok \<lparr>dg_host = show_ip (V4 127 0 0 1), dg_port = 4000, payload = []\<rparr>
    \<and> row (w_reg w') = expected_row two_hosts (map_of (r_endpoints (rl rw))) (wire rw)"
proof -
  let ?w = "demo_conn (handshake_bytes [0] CMD_UDP_ASSOCIATE 0 demo_addr 0 @ [1, 2, 3])"
  let ?bound = "\<lparr>sa_ip = V4 127 0 0 1, sa_port = 4000\<rparr>"
  have w: "registry_ok (w_reg ?w)" "fst (client ?w) = handshake_bytes [0] CMD_UDP_ASSOCIATE 0 demo_addr 0 @ [1, 2, 3]"
      "w_reg ?w = two_hosts" "snd (client ?w) = []"
    by (simp_all add: demo_conn_def registry_ok_two_hosts)
  have as: "as_client_side demo_association = Ok ()" "as_upstream demo_association = Ok ()"
      "as_local_addr demo_association = Ok ?bound"
    by (simp_all add: demo_association_def)
  have ms: "length [0 :: u8] < 256" "METHOD_NONE \<in> set [0]" by (simp_all add: METHOD_NONE_def)
  note session = socks_udp_session [where w = ?w and as = demo_association and connect = "\<lambda>_ _. Ok demo_upstream"
      and show_err = "\<lambda>_. []" and serve = "\<lambda>_ _. None" and verbose = False,
      OF mem_conn.client_conn_axioms w(1,2) demo_facts(2) ms as]
  then show ?thesis unfolding w(3,4) append_Nil socket_addr.select_convs by blast
qed

section \<open>From the tasks to the report\<close>



end
